(* ===== verification/Prelude.thy ===== *)
theory Prelude
  imports Main "HOL-Library.Word" "HOL-Library.Monad_Syntax"
begin

text \<open>
  Shared material of the development: the machine integer types, C arrays whose
  out-of-range access is a visible failure, the little helpers for bytes and words, and
  the contract every guest-facing device model has to meet.

  Throughout the development the option type carries host failure: \<open>None\<close> is a path on
  which the C program would have undefined behaviour or would abort (an array access out
  of range, a failed \<open>assert\<close>, a division by zero, a shift by the width of the type or
  more). \<open>Some\<close> is a path that runs to completion. A guest error that the code handles
  (it logs and refuses, or returns -1) is never \<open>None\<close>.
\<close>

unbundle bit_operations_syntax

type_synonym u8 = "8 word"
type_synonym u16 = "16 word"
type_synonym u32 = "32 word"
type_synonym u64 = "64 word"

text \<open>A fixed-size C array: its elements by index. The declared size is named at each access.\<close>

type_synonym 'a carray = "nat \<Rightarrow> 'a"

text \<open>The error codes the modelled code returns or reports.\<close>

datatype errno = EINVAL | ENOENT | EIO | EFAULT | EBUSY | ECONNRESET | EFBIG | ETIMEDOUT | ENOMEDIUM

named_theorems bounds \<open>facts that bound an index computed from a guest value\<close>

section \<open>C arrays and assertions\<close>

definition aget :: "nat \<Rightarrow> 'a carray \<Rightarrow> nat \<Rightarrow> 'a option" where
  "aget n a i = (if i < n then Some (a i) else None)"

definition aset :: "nat \<Rightarrow> 'a carray \<Rightarrow> nat \<Rightarrow> 'a \<Rightarrow> 'a carray option" where
  "aset n a i v = (if i < n then Some (a(i := v)) else None)"

definition cassert :: "bool \<Rightarrow> unit option" where
  "cassert b = (if b then Some () else None)"

lemma aget_in [simp]: "i < n \<Longrightarrow> aget n a i = Some (a i)"
  by (simp add: aget_def)

lemma aset_in [simp]: "i < n \<Longrightarrow> aset n a i v = Some (a(i := v))"
  by (simp add: aset_def)

lemma aget_Some_iff: "aget n a i = Some v \<longleftrightarrow> i < n \<and> v = a i"
  by (auto simp: aget_def)

lemma aset_Some_iff: "aset n a i v = Some b \<longleftrightarrow> i < n \<and> b = a(i := v)"
  by (auto simp: aset_def)

lemma cassert_True [simp]: "cassert True = Some ()"
  by (simp add: cassert_def)

lemma cassert_Some_iff: "cassert b = Some u \<longleftrightarrow> b"
  by (simp add: cassert_def)

text \<open>\<open>memset\<close> and \<open>memcpy\<close> into an array: a range of it replaced.\<close>

definition fill_range :: "'a carray \<Rightarrow> nat \<Rightarrow> nat \<Rightarrow> 'a \<Rightarrow> 'a carray" where
  "fill_range a start len v = (\<lambda>i. if start \<le> i \<and> i < start + len then v else a i)"

definition copy_in :: "'a carray \<Rightarrow> nat \<Rightarrow> 'a list \<Rightarrow> 'a carray" where
  "copy_in a start xs =
     (\<lambda>i. if start \<le> i \<and> i < start + length xs then xs ! (i - start) else a i)"

definition slice :: "'a carray \<Rightarrow> nat \<Rightarrow> nat \<Rightarrow> 'a list" where
  "slice a start len = map a [start ..< start + len]"

lemma length_slice [simp]: "length (slice a start len) = len"
  by (simp add: slice_def)

lemma nth_slice [simp]: "i < len \<Longrightarrow> slice a start len ! i = a (start + i)"
  by (simp add: slice_def)

lemma slice_copy_in: "slice (copy_in a start xs) start (length xs) = xs"
  by (rule nth_equalityI) (simp_all add: copy_in_def)

lemma slice_copy_in_other:
  assumes "start' + len \<le> start \<or> start + length xs \<le> start'"
  shows "slice (copy_in a start xs) start' len = slice a start' len"
  using assms by (intro nth_equalityI) (auto simp: copy_in_def)

lemma slice_fill_range: "slice (fill_range a start len v) start len = replicate len v"
  by (rule nth_equalityI) (simp_all add: fill_range_def)

text \<open>The same two with the declared size of the array: copying past its end is a failure.\<close>

definition aput :: "nat \<Rightarrow> 'a carray \<Rightarrow> nat \<Rightarrow> 'a list \<Rightarrow> 'a carray option" where
  "aput n a start xs = (if start + length xs \<le> n then Some (copy_in a start xs) else None)"

definition agets :: "nat \<Rightarrow> 'a carray \<Rightarrow> nat \<Rightarrow> nat \<Rightarrow> 'a list option" where
  "agets n a start len = (if start + len \<le> n then Some (slice a start len) else None)"

lemma aput_in [simp]: "start + length xs \<le> n \<Longrightarrow> aput n a start xs = Some (copy_in a start xs)"
  by (simp add: aput_def)

lemma agets_in [simp]: "start + len \<le> n \<Longrightarrow> agets n a start len = Some (slice a start len)"
  by (simp add: agets_def)

lemma copy_in_Cons: "copy_in (a(i := x)) (Suc i) xs = copy_in a i (x # xs)"
  by (rule ext) (auto simp: copy_in_def nth_Cons')

lemma copy_in_Nil [simp]: "copy_in a i [] = a"
  by (rule ext) (auto simp: copy_in_def)

lemma slice_cong:
  "(\<And>i. start \<le> i \<Longrightarrow> i < start + len \<Longrightarrow> a i = b i) \<Longrightarrow> slice a start len = slice b start len"
  by (intro nth_equalityI) auto

section \<open>Words\<close>

lemma unat_and_less [bounds]: "unat m < k \<Longrightarrow> unat (w AND m) < k" for w m :: "'a::len word"
  using word_and_le1 [of w m] by (simp add: word_le_nat_alt)

lemma unat_and_less2 [bounds]: "unat m < k \<Longrightarrow> unat (m AND w) < k" for w m :: "'a::len word"
  using unat_and_less [of m k w] by (simp add: and.commute)

lemma unat_div_word: "unat (a div b) = unat a div unat b" for a b :: "'a::len word"
  by (fact unat_div_distrib)

lemma unat_mod_word: "unat (a mod b) = unat a mod unat b" for a b :: "'a::len word"
  by (fact unat_mod_distrib)

lemma unat_sub_le: "b \<le> a \<Longrightarrow> unat (a - b) = unat a - unat b" for a b :: "'a::len word"
  by (fact unat_sub)

lemma unat_add_small: "unat a + unat b < 2 ^ LENGTH('a) \<Longrightarrow> unat (a + b) = unat a + unat b"
  for a b :: "'a::len word"
  by (simp add: unat_word_ariths)

lemma unat_Suc_word: "unat a + 1 < 2 ^ LENGTH('a) \<Longrightarrow> unat (a + 1) = unat a + 1"
  for a :: "'a::len word"
  by (simp add: unat_word_ariths)

lemma unat_dec_word: "a \<noteq> 0 \<Longrightarrow> unat (a - 1) = unat a - 1" for a :: "'a::len word"
  by (simp add: unat_minus_one)

text \<open>Bitwise reasoning: the bits of the operations the register code is written with.\<close>

lemmas wbits = bit_or_iff bit_and_iff bit_xor_iff bit_not_iff bit_push_bit_iff bit_drop_bit_eq
  bit_exp_iff bit_ucast_iff

lemma unat_and_mask: "unat (w AND mask n) = unat w mod 2 ^ n" for w :: "'a::len word"
  by (simp only: flip: take_bit_eq_mask take_bit_eq_mod) (rule unsigned_take_bit_eq)

lemma unat_align:
  "unat (w AND NOT (mask n)) = unat w div 2 ^ n * 2 ^ n" for w :: "'a::len word"
proof -
  note unat_and_mask [of w n]
  moreover have "w - (w AND mask n) = w AND NOT (w AND mask n)"
    by (rule disjunctive_diff_eq_and_not) (auto simp: bit_eq_iff wbits)
  moreover have "w AND NOT (w AND mask n) = w AND NOT (mask n)"
    by (rule bit_eqI) (auto simp: wbits)
  moreover have "w AND mask n \<le> w"
    using word_and_le1 [of "mask n" w] by (simp add: and.commute)
  ultimately show ?thesis
    using unat_sub_le [of "w AND mask n" w] minus_mod_eq_div_mult [of "unat w" "2 ^ n"] by metis
qed

lemma bit_u8_less: "bit w n \<Longrightarrow> n < 8" for w :: u8
  using bit_imp_le_length [of w n] by simp

lemma ucast_ucast_u8 [simp]: "ucast (ucast b :: u32) = b" for b :: u8
  by (rule bit_eqI) (auto simp: bit_ucast_iff)

lemma ucast_u8_inj [simp]: "(ucast c :: u32) = ucast d \<longleftrightarrow> c = d" for c d :: u8
proof
  assume eq: "(ucast c :: u32) = ucast d"
  show "c = d"
  proof (rule bit_eqI)
    fix n assume "possible_bit TYPE(u8) n"
    then show "bit c n = bit d n"
      using arg_cong [OF eq, of "\<lambda>w. bit w n"] by (simp add: bit_ucast_iff)
  qed
qed simp

text \<open>32-bit values in 64-bit arithmetic.\<close>

lemma unat_ucast_u64: "unat (ucast w :: u64) = unat w" for w :: u32
  using unsigned_less [of w, where ?'a = nat] by (simp add: unsigned_ucast_eq take_bit_nat_eq_self)

lemma unat_mult_u64: "unat (ucast a * ucast b :: u64) = unat a * unat b" for a b :: u32
  using mult_strict_mono [of "unat a" "2 ^ 32" "unat b" "2 ^ 32"]
    unsigned_less [of a, where ?'a = nat] unsigned_less [of b, where ?'a = nat]
  by (simp add: unat_word_ariths unat_ucast_u64)

lemma unat_ucast_u32: "x \<le> 0xffffffff \<Longrightarrow> unat (ucast x :: u32) = unat x" for x :: u64
  by (simp add: unsigned_ucast_eq take_bit_nat_eq_self word_le_nat_alt)

text \<open>The byte order helpers of \<open>qemu/bswap.h\<close>.\<close>

definition le16 :: "u8 \<Rightarrow> u8 \<Rightarrow> u16" where
  "le16 a b = ucast a OR push_bit 8 (ucast b)"

definition le32 :: "u8 \<Rightarrow> u8 \<Rightarrow> u8 \<Rightarrow> u8 \<Rightarrow> u32" where
  "le32 a b c d = ucast a OR push_bit 8 (ucast b) OR push_bit 16 (ucast c) OR push_bit 24 (ucast d)"

definition be32 :: "u8 \<Rightarrow> u8 \<Rightarrow> u8 \<Rightarrow> u8 \<Rightarrow> u32" where
  "be32 a b c d = le32 d c b a"

definition byte_of :: "'a::len word \<Rightarrow> nat \<Rightarrow> u8" where
  "byte_of w i = ucast (drop_bit (8 * i) w)"

definition bswap32 :: "u32 \<Rightarrow> u32" where
  "bswap32 w = be32 (byte_of w 0) (byte_of w 1) (byte_of w 2) (byte_of w 3)"

lemma bit_byte_of [simp]: "bit (byte_of w i) n \<longleftrightarrow> n < 8 \<and> bit w (8 * i + n)"
  by (auto simp: byte_of_def bit_ucast_iff bit_drop_bit_eq bit_imp_le_length)

lemma bit_le32:
  "bit (le32 a b c d) n \<longleftrightarrow>
     (if n < 8 then bit a n else if n < 16 then bit b (n - 8)
      else if n < 24 then bit c (n - 16) else n < 32 \<and> bit d (n - 24))"
  by (auto simp: le32_def bit_or_iff bit_push_bit_iff bit_ucast_iff dest: bit_imp_le_length)

lemma le32_bytes [simp]: "le32 (byte_of w 0) (byte_of w (Suc 0)) (byte_of w 2) (byte_of w 3) = w"
  for w :: u32
  by (rule bit_eqI) (auto simp: bit_le32)

lemma byte_of_le32 [simp]:
  "byte_of (le32 a b c d) 0 = a" "byte_of (le32 a b c d) (Suc 0) = b"
  "byte_of (le32 a b c d) 2 = c" "byte_of (le32 a b c d) 3 = d"
  by (rule bit_eqI; auto simp: bit_le32)+

lemma bswap32_bswap32 [simp]: "bswap32 (bswap32 w) = w"
  by (simp add: bswap32_def be32_def)

text \<open>Guest physical memory, as \<open>cpu_physical_memory_read\<close> and \<open>cpu_physical_memory_write\<close> reach it.\<close>

type_synonym memory = "u64 \<Rightarrow> u8"

definition mem_read :: "memory \<Rightarrow> u64 \<Rightarrow> nat \<Rightarrow> u8 list" where
  "mem_read m a n = map (\<lambda>i. m (a + of_nat i)) [0 ..< n]"

fun mem_write :: "memory \<Rightarrow> u64 \<Rightarrow> u8 list \<Rightarrow> memory" where
  "mem_write m a [] = m"
| "mem_write m a (b # bs) = mem_write (m(a := b)) (a + 1) bs"

definition be32_at :: "u8 list \<Rightarrow> nat \<Rightarrow> u32" where
  "be32_at b i = be32 (b ! i) (b ! (i + 1)) (b ! (i + 2)) (b ! (i + 3))"

section \<open>The contract of a guest-facing device\<close>

text \<open>
  What reaches a device model: a load or a store the memory core routed into its region
  (offset and, for a store, value), a device reset, and the events of its own
  (\<open>Ext\<close>: an input line, a timer, a call by the machine).
\<close>

datatype 'x bus_event = MRead u64 | MWrite u64 u64 | DevReset | Ext 'x

fun in_region :: "u64 \<Rightarrow> ('x \<Rightarrow> bool) \<Rightarrow> 'x bus_event \<Rightarrow> bool" where
  "in_region sz ok (MRead a) = (a < sz)"
| "in_region sz ok (MWrite a v) = (a < sz)"
| "in_region sz ok DevReset = True"
| "in_region sz ok (Ext x) = ok x"

fun dev_run :: "('s \<Rightarrow> 'e \<Rightarrow> ('s \<times> 'o) option) \<Rightarrow> 's \<Rightarrow> 'e list \<Rightarrow> ('s \<times> 'o list) option" where
  "dev_run step s [] = Some (s, [])"
| "dev_run step s (e # es) =
     do { (s1, r) \<leftarrow> step s e; (s2, rs) \<leftarrow> dev_run step s1 es; Some (s2, r # rs) }"

lemma dev_run_append:
  "dev_run step s (xs @ ys) = do { (s1, r1) \<leftarrow> dev_run step s xs; (s2, r2) \<leftarrow> dev_run step s1 ys; Some (s2, r1 @ r2) }"
  by (induction xs arbitrary: s) (auto split: Option.bind_split)

locale guest_device =
  fixes step :: "'s \<Rightarrow> 'e \<Rightarrow> ('s \<times> 'o) option"
    and inv :: "'s \<Rightarrow> bool"
    and ok :: "'e \<Rightarrow> bool"
  assumes step_total: "inv s \<Longrightarrow> ok e \<Longrightarrow> \<exists>s' r. step s e = Some (s', r) \<and> inv s'"
begin

lemma run_total:
  "inv s \<Longrightarrow> list_all ok es \<Longrightarrow>
     \<exists>s' rs. dev_run step s es = Some (s', rs) \<and> inv s' \<and> length rs = length es"
proof (induction es arbitrary: s)
  case Nil
  then show ?case by simp
next
  case (Cons e es)
  then obtain s1 r where "step s e = Some (s1, r)" "inv s1"
    using step_total [of s e] by auto
  moreover from this Cons obtain s2 rs
    where "dev_run step s1 es = Some (s2, rs)" "inv s2" "length rs = length es"
    by fastforce
  ultimately show ?case by simp
qed

lemma run_inv:
  assumes "inv s" "list_all ok es" "dev_run step s es = Some (s', rs)"
  shows "inv s'"
  using run_total [OF assms(1,2)] assms(3) by auto

end

end
