(* ===== verification/Guard.thy ===== *)
theory Guard
  imports Prelude
begin

text \<open>
  The guards of \<open>include/hw/arm/ipod_touch_guard.h\<close>, through which a guest-supplied
  index, length or range has to pass. The device name and the expression text, which
  only go to the log, are left out.
\<close>

definition it_guard_idx :: "u64 \<Rightarrow> u64 \<Rightarrow> u64" where
  "it_guard_idx idx n = (if n = 0 then 0 else if idx \<ge> n then n - 1 else idx)"

definition it_guard_size :: "u64 \<Rightarrow> u64 \<Rightarrow> u64" where
  "it_guard_size n mx = (if n > mx then mx else n)"

definition it_guard_range :: "u64 \<Rightarrow> u64 \<Rightarrow> u64 \<Rightarrow> bool" where
  "it_guard_range off len sz = (if off > sz \<or> len > sz - off then False else True)"

definition it_field :: "u64 \<Rightarrow> nat \<Rightarrow> u32 option" where
  "it_field v width =
     (if width < 32 then Some (ucast (v AND ucast (push_bit width 1 - 1 :: u32))) else None)"

lemma it_guard_idx_less [bounds]: "0 < n \<Longrightarrow> it_guard_idx idx n < n"
  by (auto simp: it_guard_idx_def word_less_nat_alt word_le_nat_alt unat_minus_one)

lemma it_guard_idx_unat [bounds]: "0 < n \<Longrightarrow> unat n = k \<Longrightarrow> unat (it_guard_idx idx n) < k"
  using it_guard_idx_less [of n idx] by (simp add: word_less_nat_alt)

lemma it_guard_idx_id [simp]: "idx < n \<Longrightarrow> it_guard_idx idx n = idx"
  by (auto simp: it_guard_idx_def)

lemma it_guard_size_le [bounds]: "it_guard_size n mx \<le> mx"
  by (simp add: it_guard_size_def not_less)

lemma it_guard_size_id [simp]: "n \<le> mx \<Longrightarrow> it_guard_size n mx = n"
  by (auto simp: it_guard_size_def)

text \<open>
  C37. The range guard accepts exactly the windows that lie inside the buffer, over the
  mathematical integers: no choice of a 64-bit offset and length makes the sum wrap past
  the check.
\<close>

theorem it_guard_range_exact:
  "it_guard_range off len sz \<longleftrightarrow> unat off + unat len \<le> unat sz"
  by (auto simp: it_guard_range_def word_less_nat_alt unat_sub_le word_le_nat_alt)

end
