(* ===== verification/Watchdog.thy ===== *)
theory Watchdog
  imports Prelude
begin

text \<open>
  The watchdog of \<open>hw/arm/ipod_touch_wdt.c\<close>. \<open>wdt_resets\<close> counts the calls of
  \<open>qemu_system_reset_request\<close>; \<open>wdt_noreset\<close> is the diagnostic \<open>noreset\<close> switch.
\<close>

record wdt =
  wdt_ctrl :: u32
  wdt_cnt :: u32
  wdt_noreset :: bool
  wdt_resets :: nat

definition WDT_CTRL :: u64 where "WDT_CTRL = 0x0"
definition WDT_CNT :: u64 where "WDT_CNT = 0x4"
definition WDT_RESET_COMMAND :: u64 where "WDT_RESET_COMMAND = 0x100000"
definition WDT_SIZE :: u64 where "WDT_SIZE = 0x1000"

lemmas wdt_consts = WDT_CTRL_def WDT_CNT_def WDT_RESET_COMMAND_def WDT_SIZE_def

definition ipod_touch_wdt_read :: "wdt \<Rightarrow> u64 \<Rightarrow> u64" where
  "ipod_touch_wdt_read s addr =
     (if addr = WDT_CTRL then ucast (wdt_ctrl s)
      else if addr = WDT_CNT then ucast (wdt_cnt s)
      else 0)"

definition ipod_touch_wdt_write :: "wdt \<Rightarrow> u64 \<Rightarrow> u64 \<Rightarrow> wdt" where
  "ipod_touch_wdt_write s addr val =
     (if addr = WDT_CTRL then
        let s1 = s\<lparr>wdt_ctrl := ucast val\<rparr> in
        if val = WDT_RESET_COMMAND then
          (if wdt_noreset s1 then s1 else s1\<lparr>wdt_resets := Suc (wdt_resets s1)\<rparr>)
        else s1
      else if addr = WDT_CNT then s\<lparr>wdt_cnt := ucast val\<rparr>
      else s)"

definition ipod_touch_wdt_reset :: "wdt \<Rightarrow> wdt" where
  "ipod_touch_wdt_reset s = s\<lparr>wdt_ctrl := 0, wdt_cnt := 0\<rparr>"

fun wdt_step :: "wdt \<Rightarrow> unit bus_event \<Rightarrow> (wdt \<times> u64) option" where
  "wdt_step s (MRead a) = Some (s, ipod_touch_wdt_read s a)"
| "wdt_step s (MWrite a v) = Some (ipod_touch_wdt_write s a v, 0)"
| "wdt_step s DevReset = Some (ipod_touch_wdt_reset s, 0)"
| "wdt_step s (Ext _) = Some (s, 0)"

text \<open>The stores that ask for a system reset: the exact command word at the control register.\<close>

fun is_reset_command :: "unit bus_event \<Rightarrow> bool" where
  "is_reset_command (MWrite a v) = (a = WDT_CTRL \<and> v = WDT_RESET_COMMAND)"
| "is_reset_command _ = False"

interpretation wdt: guest_device wdt_step "\<lambda>_. True" "in_region WDT_SIZE (\<lambda>_. True)"
  by unfold_locales (metis bus_event.exhaust wdt_step.simps)

lemma wdt_write_resets:
  "wdt_resets (ipod_touch_wdt_write s a v) =
     wdt_resets s + (if is_reset_command (MWrite a v) \<and> \<not> wdt_noreset s then 1 else 0)"
  "wdt_noreset (ipod_touch_wdt_write s a v) = wdt_noreset s"
  by (simp_all add: ipod_touch_wdt_write_def Let_def wdt_consts)

lemma wdt_step_resets:
  assumes "wdt_step s e = Some (s', r)"
  shows "wdt_resets s' = wdt_resets s + (if is_reset_command e \<and> \<not> wdt_noreset s then 1 else 0)"
    and "wdt_noreset s' = wdt_noreset s"
  using assms by (cases e; force simp: wdt_write_resets ipod_touch_wdt_reset_def)+

text \<open>
  C36. Over any sequence of guest accesses the watchdog asks for a system reset exactly as
  often as the guest stores the reset command word \<open>0x100000\<close> in the control register
  (and never under the diagnostic switch): a kick with any other value, the timeout
  value \<open>0x1f4a00\<close> with bit 20 set among them, never reboots the machine.
\<close>

theorem wdt_resets_only_on_command:
  assumes "dev_run wdt_step s es = Some (s', rs)"
  shows "wdt_resets s' =
           wdt_resets s + (if wdt_noreset s then 0 else length (filter is_reset_command es))"
  using assms
proof (induction es arbitrary: s rs)
  case Nil
  then show ?case by simp
next
  case (Cons e es)
  then obtain s1 r rs1 where 1: "wdt_step s e = Some (s1, r)" "dev_run wdt_step s1 es = Some (s', rs1)"
    by (auto simp: bind_eq_Some_conv)
  show ?case using Cons.IH [OF 1(2)] wdt_step_resets [OF 1(1)] by simp
qed

theorem wdt_resets_only_on_command_witness:
  "\<exists>s' rs. dev_run wdt_step \<lparr>wdt_ctrl = 0, wdt_cnt = 0, wdt_noreset = False, wdt_resets = 0\<rparr>
       [MWrite 0 0x1f4a00, MWrite 0 0x100000, MRead 0] = Some (s', rs)
     \<and> wdt_resets s' = 1 \<and> rs ! 2 = 0x100000"
proof -
  let ?s = "\<lparr>wdt_ctrl = 0, wdt_cnt = 0, wdt_noreset = False, wdt_resets = 0\<rparr>"
  let ?es = "[MWrite 0 0x1f4a00, MWrite 0 0x100000, MRead 0] :: unit bus_event list"
  have "list_all (in_region WDT_SIZE (\<lambda>_. True)) ?es"
    by (simp add: wdt_consts)
  then obtain s' rs where run: "dev_run wdt_step ?s ?es = Some (s', rs)"
    using wdt.run_total [OF TrueI] by blast
  moreover have "rs ! 2 = 0x100000"
    using run by (auto simp: ipod_touch_wdt_write_def ipod_touch_wdt_read_def Let_def wdt_consts)
  moreover have "wdt_resets s' = 1"
    using wdt_resets_only_on_command [OF run] by (simp add: wdt_consts)
  ultimately show ?thesis by blast
qed

end
