(* ===== verification/SWI.thy ===== *)
theory SWI
  imports Prelude
begin

text \<open>
  The single-wire core-voltage and backlight interface of \<open>hw/arm/ipod_touch_swi.c\<close>: a
  page of registers, two of which start a channel and read back idle, and the backlight
  level decoded from the last current-set word.
\<close>

definition SWI_REGS :: nat where "SWI_REGS = 0x1000 div 4"
definition SWI_SIZE :: u64 where "SWI_SIZE = 0x1000"

record swi =
  swi_regs :: "u32 carray"
  swi_backlight :: bool
  swi_iset :: u8
  swi_backlight_word :: u32

text \<open>The level for the host, -1 when no current-set word was sent.\<close>

definition swi_backlight_level :: "swi \<Rightarrow> int" where
  "swi_backlight_level s =
     (let word = swi_backlight_word s in
      if word \<noteq> 0 \<and> (drop_bit 12 word AND 7) = ucast (swi_iset s)
      then sint ((word AND 0x7f) OR (drop_bit 1 word AND 0x780)) else -1)"

definition swi_read :: "swi \<Rightarrow> u64 \<Rightarrow> u64 option" where
  "swi_read s addr = map_option ucast (aget SWI_REGS (swi_regs s) (unat (addr div 4)))"

definition swi_write :: "swi \<Rightarrow> u64 \<Rightarrow> u64 \<Rightarrow> swi option" where
  "swi_write s addr value =
     do { r1 \<leftarrow> aset SWI_REGS (swi_regs s) (unat (addr div 4)) (ucast value);
          let s1 = s\<lparr>swi_regs := r1\<rparr>;
          if (addr = 0x14 \<or> addr = 0x1c) \<and> (value = 1 \<or> value = 3) then
            do { word \<leftarrow> aget SWI_REGS (swi_regs s1) (unat ((addr + 4) div 4));
                 let s2 = (if swi_backlight s1 \<and> (drop_bit 12 word AND 7) = ucast (swi_iset s1)
                           then s1\<lparr>swi_backlight_word := word\<rparr> else s1);
                 v \<leftarrow> aget SWI_REGS (swi_regs s2) (unat (addr div 4));
                 r2 \<leftarrow> aset SWI_REGS (swi_regs s2) (unat (addr div 4)) (v AND NOT 1);
                 Some (s2\<lparr>swi_regs := r2\<rparr>) }
          else Some s1 }"

text \<open>The registration of the level callback with the host is not part of the state.\<close>

definition swi_reset :: "swi \<Rightarrow> swi" where
  "swi_reset s = s\<lparr>swi_regs := (\<lambda>_. 0), swi_backlight_word := 0\<rparr>"

fun swi_step :: "swi \<Rightarrow> unit bus_event \<Rightarrow> (swi \<times> u64) option" where
  "swi_step s (MRead a) = map_option (\<lambda>v. (s, v)) (swi_read s a)"
| "swi_step s (MWrite a v) = map_option (\<lambda>s'. (s', 0)) (swi_write s a v)"
| "swi_step s DevReset = Some (swi_reset s, 0)"
| "swi_step s (Ext _) = Some (s, 0)"

lemma swi_index [bounds]: "addr < SWI_SIZE \<Longrightarrow> unat (addr div 4) < SWI_REGS"
  by (simp add: SWI_SIZE_def SWI_REGS_def unat_div_word word_less_nat_alt)

lemma swi_read_total: "addr < SWI_SIZE \<Longrightarrow> swi_read s addr = Some (ucast (swi_regs s (unat (addr div 4))))"
  by (simp add: swi_read_def swi_index)

lemma swi_write_total:
  assumes "addr < SWI_SIZE"
  shows "\<exists>s'. swi_write s addr value = Some s'"
  using swi_index [OF assms] by (auto simp: swi_write_def SWI_REGS_def Let_def)

interpretation swi: guest_device swi_step "\<lambda>_. True" "in_region SWI_SIZE (\<lambda>_. True)"
proof unfold_locales
  fix s :: swi and e :: "unit bus_event"
  assume "in_region SWI_SIZE (\<lambda>_. True) e"
  then show "\<exists>s' r. swi_step s e = Some (s', r) \<and> True"
    using swi_write_total [of _ s] by (cases e) (auto simp: swi_read_total)
qed

text \<open>The word a driver sends for an 11-bit level under a 3-bit command (bit 7 is always 1).\<close>

definition swi_encode :: "u32 \<Rightarrow> u32 \<Rightarrow> u32" where
  "swi_encode cmd level =
     (level AND 0x7f) OR 0x80 OR push_bit 1 (level AND 0x780) OR push_bit 12 (cmd AND 7)"

lemma bit_0x780: "bit (0x780 :: u32) n \<longleftrightarrow> 7 \<le> n \<and> n < 11"
proof -
  have "(0x780 :: u32) = push_bit 7 (mask 4)"
    by (simp add: mask_eq_exp_minus_1)
  then show ?thesis
    by (auto simp only: bit_push_bit_iff bit_mask_iff) auto
qed

lemma bit_0x7f: "bit (0x7f :: u32) n \<longleftrightarrow> n < 7"
proof -
  have "(0x7f :: u32) = mask 7"
    by (simp add: mask_eq_exp_minus_1)
  then show ?thesis
    by (auto simp only: bit_mask_iff) auto
qed

lemma bit_7: "bit (7 :: u32) n \<longleftrightarrow> n < 3"
proof -
  have "(7 :: u32) = mask 3"
    by (simp add: mask_eq_exp_minus_1)
  then show ?thesis
    by (auto simp only: bit_mask_iff) auto
qed

lemma bit_0x80: "bit (0x80 :: u32) n \<longleftrightarrow> n = 7"
proof -
  have "(0x80 :: u32) = 2 ^ 7"
    by simp
  then show ?thesis
    by (auto simp only: bit_exp_iff) auto
qed

lemmas swi_bits = bit_0x780 bit_0x7f bit_7 bit_0x80 wbits

lemma bit_small_word: "w < 2 ^ k \<Longrightarrow> bit w n \<Longrightarrow> n < k" for w :: "'a::len word"
  by (metis bit_take_bit_iff less_mask_eq take_bit_eq_mask)

lemma swi_encode_command: "drop_bit 12 (swi_encode cmd level) AND 7 = cmd AND 7"
  by (rule bit_eqI) (auto simp: swi_encode_def swi_bits simp del: bit_numeral_word_iff)

lemma bit_swi_encode:
  "bit (swi_encode cmd level) n \<longleftrightarrow>
     n < 7 \<and> bit level n \<or> n = 7 \<or> 7 < n \<and> n < 12 \<and> bit level (n - 1) \<or>
     12 \<le> n \<and> n < 15 \<and> bit cmd (n - 12)"
  unfolding swi_encode_def swi_bits by (auto dest: bit_imp_le_length)

lemma swi_encode_level:
  assumes "level < 0x800"
  shows "(swi_encode cmd level AND 0x7f) OR (drop_bit 1 (swi_encode cmd level) AND 0x780) = level"
proof (rule bit_eqI)
  fix n
  have "level < 2 ^ 11" using assms by simp
  from bit_small_word [OF this, of n]
  show "bit ((swi_encode cmd level AND 0x7f) OR (drop_bit 1 (swi_encode cmd level) AND 0x780)) n = bit level n"
    unfolding swi_bits o_def bit_swi_encode by auto
qed

lemma swi_encode_nonzero: "swi_encode cmd level \<noteq> 0"
proof
  assume "swi_encode cmd level = 0"
  then have "bit (swi_encode cmd level) 7 = bit (0 :: u32) 7" by simp
  then show False by (simp add: bit_swi_encode)
qed

lemma swi_started:
  assumes "swi_backlight s" "drop_bit 12 w AND 7 = ucast (swi_iset s)"
    and "chan = 0x14 \<or> chan = 0x1c" "go = 1 \<or> go = 3"
  shows "\<exists>s1 s2 v. swi_write s (chan + 4) (ucast w) = Some s1 \<and> swi_write s1 chan go = Some s2
     \<and> swi_backlight_word s2 = w \<and> swi_iset s2 = swi_iset s
     \<and> swi_read s2 chan = Some v \<and> \<not> bit v 0"
proof -
  have u: "ucast (ucast w :: u64) = w"
    by (rule bit_eqI) (auto simp: wbits dest: bit_imp_le_length)
  have b: "\<not> bit (ucast (v AND NOT 1) :: u64) 0" for v :: u32
    by (simp add: wbits)
  from assms(3) show ?thesis
    using assms(1,2,4) u b by (elim disjE) (simp_all add: swi_write_def swi_read_def SWI_REGS_def Let_def)
qed

text \<open>
  C35. The backlight level survives the wire: a level below \<open>0x800\<close> encoded by the driver's
  word under the board's current-set command, stored in the data register of either
  channel and started, is the level the host is told, and the started channel reads
  back idle.
\<close>

theorem swi_backlight_roundtrip:
  assumes "swi_backlight s" "ucast (swi_iset s) = cmd" "cmd < 8" "level < 0x800"
    and "chan = 0x14 \<or> chan = 0x1c" "go = 1 \<or> go = 3"
  shows "\<exists>s1 s2 v. swi_write s (chan + 4) (ucast (swi_encode cmd level)) = Some s1
     \<and> swi_write s1 chan go = Some s2
     \<and> swi_backlight_level s2 = int (unat level)
     \<and> swi_read s2 chan = Some v \<and> \<not> bit v 0"
proof -
  have "cmd AND 7 = cmd"
    using less_mask_eq [of cmd 3] assms(3) by (simp add: mask_eq_exp_minus_1)
  then have cmd: "drop_bit 12 (swi_encode cmd level) AND 7 = ucast (swi_iset s)"
    by (simp add: swi_encode_command assms(2))
  have "0 \<le> uint level" by simp
  then have "- 2147483648 \<le> uint level" by linarith
  then have "sint level = int (unat level)"
    using assms(4) signed_take_bit_int_eq_self [of 31 "uint level"]
    by (simp add: sint_uint word_less_def)
  then have "swi_backlight_level s2 = int (unat level)"
    if "swi_backlight_word s2 = swi_encode cmd level" "swi_iset s2 = swi_iset s" for s2
    using that cmd swi_encode_level [OF assms(4)] swi_encode_nonzero
    by (simp add: swi_backlight_level_def Let_def)
  then show ?thesis
    using swi_started [OF assms(1) cmd assms(5,6)] by metis
qed

theorem swi_backlight_roundtrip_witness:
  "\<exists>s1 s2 v. swi_write \<lparr>swi_regs = \<lambda>_. 0, swi_backlight = True, swi_iset = 3, swi_backlight_word = 0\<rparr>
       0x18 (ucast (swi_encode 3 0x641)) = Some s1
     \<and> swi_write s1 0x14 1 = Some s2 \<and> swi_backlight_level s2 = 0x641
     \<and> swi_read s2 0x14 = Some v \<and> \<not> bit v 0"
  using swi_backlight_roundtrip [of "\<lparr>swi_regs = \<lambda>_. 0, swi_backlight = True, swi_iset = 3,
      swi_backlight_word = 0\<rparr>" 3 "0x641" "0x14" 1]
  by simp

text \<open>The word the comment in the source quotes for the iPhone 4's level \<open>0x641\<close>.\<close>

lemma swi_encode_n90: "swi_encode 3 0x641 = 0x3cc1"
  by (simp add: swi_encode_def)

end
