(* ===== verification/NAND_ECC.thy ===== *)
theory NAND_ECC
  imports Prelude
begin

text \<open>
  The S5L8900 NAND ECC block of \<open>hw/arm/s5l8900_nand_ecc.c\<close>: three registers and a
  completion interrupt; the status always reads "no error".
\<close>

record nand_ecc =
  ecc_data_addr :: u32
  ecc_ecc_addr :: u32
  ecc_setup :: u32
  ecc_irq :: bool

definition NANDECC_DATA :: u64 where "NANDECC_DATA = 0x4"
definition NANDECC_ECC :: u64 where "NANDECC_ECC = 0x8"
definition NANDECC_START :: u64 where "NANDECC_START = 0xC"
definition NANDECC_STATUS :: u64 where "NANDECC_STATUS = 0x10"
definition NANDECC_SETUP :: u64 where "NANDECC_SETUP = 0x14"
definition NANDECC_CLEARINT :: u64 where "NANDECC_CLEARINT = 0x40"
definition NANDECC_SIZE :: u64 where "NANDECC_SIZE = 0x100"

lemmas nandecc_consts = NANDECC_DATA_def NANDECC_ECC_def NANDECC_START_def NANDECC_STATUS_def
  NANDECC_SETUP_def NANDECC_CLEARINT_def NANDECC_SIZE_def

definition s5l8900_nand_ecc_read :: "nand_ecc \<Rightarrow> u64 \<Rightarrow> u64" where
  "s5l8900_nand_ecc_read s addr =
     (if addr = NANDECC_DATA then ucast (ecc_data_addr s)
      else if addr = NANDECC_ECC then ucast (ecc_ecc_addr s)
      else if addr = NANDECC_SETUP then ucast (ecc_setup s)
      else 0)"

definition s5l8900_nand_ecc_write :: "nand_ecc \<Rightarrow> u64 \<Rightarrow> u64 \<Rightarrow> nand_ecc" where
  "s5l8900_nand_ecc_write s addr val =
     (if addr = NANDECC_DATA then s\<lparr>ecc_data_addr := ucast val\<rparr>
      else if addr = NANDECC_ECC then s\<lparr>ecc_ecc_addr := ucast val\<rparr>
      else if addr = NANDECC_SETUP then s\<lparr>ecc_setup := ucast val\<rparr>
      else if addr = NANDECC_START then s\<lparr>ecc_irq := True\<rparr>
      else if addr = NANDECC_CLEARINT then s\<lparr>ecc_irq := False\<rparr>
      else s)"

definition s5l8900_nand_ecc_reset :: "nand_ecc \<Rightarrow> nand_ecc" where
  "s5l8900_nand_ecc_reset s =
     s\<lparr>ecc_data_addr := 0, ecc_ecc_addr := 0, ecc_setup := 0, ecc_irq := False\<rparr>"

fun nand_ecc_step :: "nand_ecc \<Rightarrow> unit bus_event \<Rightarrow> (nand_ecc \<times> u64) option" where
  "nand_ecc_step s (MRead a) = Some (s, s5l8900_nand_ecc_read s a)"
| "nand_ecc_step s (MWrite a v) = Some (s5l8900_nand_ecc_write s a v, 0)"
| "nand_ecc_step s DevReset = Some (s5l8900_nand_ecc_reset s, 0)"
| "nand_ecc_step s (Ext _) = Some (s, 0)"

interpretation nand_ecc: guest_device nand_ecc_step "\<lambda>_. True" "in_region NANDECC_SIZE (\<lambda>_. True)"
  by unfold_locales (metis bus_event.exhaust nand_ecc_step.simps)

end
