(* ===== verification/GPIO.thy ===== *)
theory GPIO
  imports Guard
begin

text \<open>
  The GPIO pads of \<open>hw/arm/ipod_touch_gpio.c\<close>. \<open>gpio_outputs\<close> is the level last driven
  on each \<open>qemu_irq\<close> output. The environment variable \<open>IT_VOLBTN_LEGACY\<close> is an argument
  of the reset.
\<close>

definition NUM_GPIO_PADS :: nat where "NUM_GPIO_PADS = 0x20"
definition GPIO_SIZE :: u64 where "GPIO_SIZE = 0x1000"
definition GPIO_BUTTON_VOLUP :: u32 where "GPIO_BUTTON_VOLUP = 0x902"
definition GPIO_BUTTON_VOLDOWN :: u32 where "GPIO_BUTTON_VOLDOWN = 0xC00"

definition GPIO2PIN :: "u32 \<Rightarrow> nat" where "GPIO2PIN gpio = unat (gpio AND 7)"
definition GPIO2PAD :: "u32 \<Rightarrow> u32" where "GPIO2PAD gpio = drop_bit 8 gpio AND 0xFF"
definition GPIOADDR2PAD :: "u64 \<Rightarrow> nat" where "GPIOADDR2PAD addr = unat ((addr - 0x4) div 0x20)"

record gpio =
  gpio_state :: "u32 carray"
  gpio_outputs :: "bool carray"
  gpio_fsel_offset :: u32
  gpio_rest_high_pad :: u32
  gpio_rest_high_mask :: u32
  gpio_input_mask :: "u32 carray"
  gpio_input_level :: "u32 carray"

definition s5l8900_gpio_write :: "gpio \<Rightarrow> u64 \<Rightarrow> u64 \<Rightarrow> gpio option" where
  "s5l8900_gpio_write s addr value =
     (if addr = ucast (gpio_fsel_offset s) then
        let pad = unat (drop_bit 16 value AND 0xff);
            pin = unat (drop_bit 8 value AND 0xff);
            function = value AND 0xff in
        if pad < NUM_GPIO_PADS \<and> pin < 8 \<and> (function = 0x0e \<or> function = 0x0f) then
          do { let high = (function AND 1 \<noteq> 0);
               old \<leftarrow> aget NUM_GPIO_PADS (gpio_state s) pad;
               st \<leftarrow> aset NUM_GPIO_PADS (gpio_state s) pad
                      ((old AND NOT (push_bit pin 1)) OR push_bit pin (of_bool high));
               out \<leftarrow> aset (NUM_GPIO_PADS * 8) (gpio_outputs s) (pad * 8 + pin) high;
               Some (s\<lparr>gpio_state := st, gpio_outputs := out\<rparr>) }
        else Some s
      else Some s)"

definition s5l8900_gpio_read_pad :: "gpio \<Rightarrow> u64 \<Rightarrow> u64 option" where
  "s5l8900_gpio_read_pad s addr =
     (if addr = 0x4 then map_option ucast (aget NUM_GPIO_PADS (gpio_state s) 0)
      else if 0x24 \<le> addr \<and> addr \<le> 0x4 + 0x20 * (of_nat NUM_GPIO_PADS - 1)
        then map_option ucast (aget NUM_GPIO_PADS (gpio_state s) (GPIOADDR2PAD addr))
      else Some 0)"

definition s5l8900_gpio_read :: "gpio \<Rightarrow> u64 \<Rightarrow> u64 option" where
  "s5l8900_gpio_read s addr = s5l8900_gpio_read_pad s addr"

text \<open>The pad of a GPIO number, clamped into the array by \<open>IT_IDX\<close>.\<close>

definition gpio_pad_idx :: "u32 \<Rightarrow> nat" where
  "gpio_pad_idx gpio = unat (it_guard_idx (ucast (GPIO2PAD gpio)) (of_nat NUM_GPIO_PADS))"

definition gpio_is_on :: "u32 carray \<Rightarrow> u32 \<Rightarrow> bool option" where
  "gpio_is_on state gpio =
     do { v \<leftarrow> aget NUM_GPIO_PADS state (gpio_pad_idx gpio);
          Some (v AND push_bit (GPIO2PIN gpio) 1 \<noteq> 0) }"

definition gpio_is_off :: "u32 carray \<Rightarrow> u32 \<Rightarrow> bool option" where
  "gpio_is_off state gpio = map_option Not (gpio_is_on state gpio)"

definition gpio_set_on :: "u32 carray \<Rightarrow> u32 \<Rightarrow> u32 carray option" where
  "gpio_set_on state gpio =
     do { v \<leftarrow> aget NUM_GPIO_PADS state (gpio_pad_idx gpio);
          aset NUM_GPIO_PADS state (gpio_pad_idx gpio) (v OR push_bit (GPIO2PIN gpio) 1) }"

definition gpio_set_off :: "u32 carray \<Rightarrow> u32 \<Rightarrow> u32 carray option" where
  "gpio_set_off state gpio =
     do { v \<leftarrow> aget NUM_GPIO_PADS state (gpio_pad_idx gpio);
          aset NUM_GPIO_PADS state (gpio_pad_idx gpio) (v AND NOT (push_bit (GPIO2PIN gpio) 1)) }"

definition ipod_touch_gpio_input_changed :: "gpio \<Rightarrow> u32 \<Rightarrow> gpio option" where
  "ipod_touch_gpio_input_changed s gpio =
     do { let pad = unat (GPIO2PAD gpio);
          let b = push_bit (GPIO2PIN gpio) 1;
          cassert (pad < NUM_GPIO_PADS);
          m \<leftarrow> aget NUM_GPIO_PADS (gpio_input_mask s) pad;
          mask' \<leftarrow> aset NUM_GPIO_PADS (gpio_input_mask s) pad (m OR b);
          l \<leftarrow> aget NUM_GPIO_PADS (gpio_input_level s) pad;
          v \<leftarrow> aget NUM_GPIO_PADS (gpio_state s) pad;
          level' \<leftarrow> aset NUM_GPIO_PADS (gpio_input_level s) pad ((l AND NOT b) OR (v AND b));
          Some (s\<lparr>gpio_input_mask := mask', gpio_input_level := level'\<rparr>) }"

definition s5l8900_gpio_reset :: "bool \<Rightarrow> gpio \<Rightarrow> gpio option" where
  "s5l8900_gpio_reset volbtn_legacy s =
     do { let st0 = (\<lambda>_. 0);
          st1 \<leftarrow> (if \<not> volbtn_legacy
                 then do { a \<leftarrow> gpio_set_on st0 GPIO_BUTTON_VOLUP; gpio_set_on a GPIO_BUTTON_VOLDOWN }
                 else Some st0);
          v0 \<leftarrow> aget NUM_GPIO_PADS st1 0;
          st2 \<leftarrow> aset NUM_GPIO_PADS st1 0 (v0 OR 1);
          st3 \<leftarrow> (if unat (gpio_rest_high_pad s) < NUM_GPIO_PADS
                 then do { v \<leftarrow> aget NUM_GPIO_PADS st2 (unat (gpio_rest_high_pad s));
                           aset NUM_GPIO_PADS st2 (unat (gpio_rest_high_pad s))
                             (v OR gpio_rest_high_mask s) }
                 else Some st2);
          let st4 = (\<lambda>pad. if pad < NUM_GPIO_PADS
                 then (st3 pad AND NOT (gpio_input_mask s pad)) OR
                      (gpio_input_level s pad AND gpio_input_mask s pad)
                 else st3 pad);
          let out = (\<lambda>i. if i < NUM_GPIO_PADS * 8 then bit (st4 (i div 8)) (i mod 8)
                         else gpio_outputs s i);
          Some (s\<lparr>gpio_state := st4, gpio_outputs := out\<rparr>) }"

text \<open>The calls of the machine: it drives a button's pad and records it as an input.\<close>

datatype gpio_ext = GpioSetOn u32 | GpioSetOff u32 | GpioInputChanged u32

fun gpio_ext_ok :: "gpio_ext \<Rightarrow> bool" where
  "gpio_ext_ok (GpioInputChanged g) = (unat (GPIO2PAD g) < NUM_GPIO_PADS)"
| "gpio_ext_ok _ = True"

fun gpio_step :: "bool \<Rightarrow> gpio \<Rightarrow> gpio_ext bus_event \<Rightarrow> (gpio \<times> u64) option" where
  "gpio_step lg s (MRead a) = map_option (\<lambda>v. (s, v)) (s5l8900_gpio_read s a)"
| "gpio_step lg s (MWrite a v) = map_option (\<lambda>s'. (s', 0)) (s5l8900_gpio_write s a v)"
| "gpio_step lg s DevReset = map_option (\<lambda>s'. (s', 0)) (s5l8900_gpio_reset lg s)"
| "gpio_step lg s (Ext (GpioSetOn g)) =
     map_option (\<lambda>st. (s\<lparr>gpio_state := st\<rparr>, 0)) (gpio_set_on (gpio_state s) g)"
| "gpio_step lg s (Ext (GpioSetOff g)) =
     map_option (\<lambda>st. (s\<lparr>gpio_state := st\<rparr>, 0)) (gpio_set_off (gpio_state s) g)"
| "gpio_step lg s (Ext (GpioInputChanged g)) =
     map_option (\<lambda>s'. (s', 0)) (ipod_touch_gpio_input_changed s g)"

section \<open>No access leaves the pad arrays\<close>

lemma gpio_pad_idx_less [simp]: "gpio_pad_idx g < NUM_GPIO_PADS"
  by (simp add: gpio_pad_idx_def NUM_GPIO_PADS_def it_guard_idx_unat)

lemma gpio_pads_pos [simp]: "0 < NUM_GPIO_PADS"
  by (simp add: NUM_GPIO_PADS_def)

lemma GPIOADDR2PAD_less:
  assumes "0x24 \<le> addr" "addr \<le> 0x4 + 0x20 * (of_nat NUM_GPIO_PADS - 1)"
  shows "GPIOADDR2PAD addr < NUM_GPIO_PADS"
proof -
  have "unat addr \<le> 0x3e4" "0x4 \<le> addr"
    using assms by (auto simp: NUM_GPIO_PADS_def word_le_nat_alt)
  then show ?thesis
    by (simp add: GPIOADDR2PAD_def NUM_GPIO_PADS_def unat_div_word unat_sub_le)
qed

lemma gpio_read_total: "\<exists>v. s5l8900_gpio_read s addr = Some v"
  by (auto simp: s5l8900_gpio_read_def s5l8900_gpio_read_pad_def GPIOADDR2PAD_less)

lemma gpio_write_total: "\<exists>s'. s5l8900_gpio_write s addr value = Some s'"
  by (auto simp: s5l8900_gpio_write_def Let_def NUM_GPIO_PADS_def)

lemma gpio_set_total:
  "gpio_set_on st g = Some (st(gpio_pad_idx g := st (gpio_pad_idx g) OR push_bit (GPIO2PIN g) 1))"
  "gpio_set_off st g = Some (st(gpio_pad_idx g := st (gpio_pad_idx g) AND NOT (push_bit (GPIO2PIN g) 1)))"
  by (simp_all add: gpio_set_on_def gpio_set_off_def)

lemma gpio_reset_total: "\<exists>s'. s5l8900_gpio_reset lg s = Some s'"
  by (simp add: s5l8900_gpio_reset_def gpio_set_total Let_def)

interpretation gpio: guest_device "gpio_step lg" "\<lambda>_. True" "in_region GPIO_SIZE gpio_ext_ok"
proof unfold_locales
  fix s and e :: "gpio_ext bus_event"
  assume ok: "in_region GPIO_SIZE gpio_ext_ok e"
  show "\<exists>s' r. gpio_step lg s e = Some (s', r) \<and> True"
  proof (cases e)
    case (MRead a) then show ?thesis using gpio_read_total [of s a] by auto
  next
    case (MWrite a v) then show ?thesis using gpio_write_total [of s a v] by auto
  next
    case DevReset then show ?thesis using gpio_reset_total [of lg s] by auto
  next
    case (Ext x)
    with ok show ?thesis
      by (cases x) (auto simp: gpio_set_total ipod_touch_gpio_input_changed_def Let_def)
  qed
qed

section \<open>What a reset keeps and what a store changes\<close>

text \<open>The events a guest can cause by itself.\<close>

fun guest_only :: "'x bus_event \<Rightarrow> bool" where
  "guest_only (Ext _) = False"
| "guest_only _ = True"

lemma gpio_write_frame:
  "s5l8900_gpio_write s a v = Some s' \<Longrightarrow>
     gpio_input_mask s' = gpio_input_mask s \<and> gpio_input_level s' = gpio_input_level s"
  by (auto simp: s5l8900_gpio_write_def Let_def bind_eq_Some_conv split: if_splits)

lemma gpio_reset_frame:
  "s5l8900_gpio_reset lg s = Some s' \<Longrightarrow>
     gpio_input_mask s' = gpio_input_mask s \<and> gpio_input_level s' = gpio_input_level s"
  by (auto simp: s5l8900_gpio_reset_def Let_def bind_eq_Some_conv)

lemma gpio_guest_frame:
  assumes "dev_run (gpio_step lg) s es = Some (s', rs)" "list_all guest_only es"
  shows "gpio_input_mask s' = gpio_input_mask s \<and> gpio_input_level s' = gpio_input_level s"
  using assms
proof (induction es arbitrary: s rs)
  case Nil
  then show ?case by simp
next
  case (Cons e es)
  then obtain s1 r rs1 where 1: "gpio_step lg s e = Some (s1, r)"
    "dev_run (gpio_step lg) s1 es = Some (s', rs1)" "guest_only e" "list_all guest_only es"
    by (auto simp: bind_eq_Some_conv)
  have "gpio_input_mask s1 = gpio_input_mask s \<and> gpio_input_level s1 = gpio_input_level s"
    using 1(1,3) by (cases e) (auto dest: gpio_write_frame gpio_reset_frame)
  with Cons.IH [OF 1(2,4)] show ?case by simp
qed

lemma gpio_reset_state:
  assumes "s5l8900_gpio_reset lg s = Some s'" "pad < NUM_GPIO_PADS" "bit (gpio_input_mask s pad) n"
  shows "bit (gpio_state s' pad) n = bit (gpio_input_level s pad) n"
  using assms by (auto simp: s5l8900_gpio_reset_def Let_def bind_eq_Some_conv wbits
      dest: bit_imp_le_length)

lemma gpio_reset_outputs:
  assumes "s5l8900_gpio_reset lg s = Some s'" "i < NUM_GPIO_PADS * 8"
  shows "gpio_outputs s' i = bit (gpio_state s' (i div 8)) (i mod 8)"
  using assms by (auto simp: s5l8900_gpio_reset_def Let_def bind_eq_Some_conv)

lemma GPIO2PIN_less [simp]: "GPIO2PIN g < 8"
  by (simp add: GPIO2PIN_def unat_and_less)

lemma gpio_input_changed_bits:
  assumes "ipod_touch_gpio_input_changed s g = Some s'"
  shows "unat (GPIO2PAD g) < NUM_GPIO_PADS"
    and "bit (gpio_input_mask s' (unat (GPIO2PAD g))) (GPIO2PIN g)"
    and "bit (gpio_input_level s' (unat (GPIO2PAD g))) (GPIO2PIN g) =
         bit (gpio_state s (unat (GPIO2PAD g))) (GPIO2PIN g)"
proof -
  have "GPIO2PIN g < 32" using GPIO2PIN_less [of g] by linarith
  then show "unat (GPIO2PAD g) < NUM_GPIO_PADS"
    and "bit (gpio_input_mask s' (unat (GPIO2PAD g))) (GPIO2PIN g)"
    and "bit (gpio_input_level s' (unat (GPIO2PAD g))) (GPIO2PIN g) =
         bit (gpio_state s (unat (GPIO2PAD g))) (GPIO2PIN g)"
    using assms
    by (auto simp: ipod_touch_gpio_input_changed_def Let_def bind_eq_Some_conv cassert_Some_iff
        aget_Some_iff aset_Some_iff wbits)
qed

text \<open>
  C33. A button the machine drives keeps its level across resets of the block: whatever
  loads, stores and further resets the guest causes after the button's level was
  recorded, the next reset brings the pad back to the level the button had, and every
  output line agrees with its pad bit.
\<close>

theorem gpio_reset_keeps_button:
  assumes "ipod_touch_gpio_input_changed s g = Some s1"
    and "list_all guest_only es" "dev_run (gpio_step lg) s1 es = Some (s2, rs)"
    and "s5l8900_gpio_reset lg s2 = Some s3"
  shows "bit (gpio_state s3 (unat (GPIO2PAD g))) (GPIO2PIN g) =
           bit (gpio_state s (unat (GPIO2PAD g))) (GPIO2PIN g)
       \<and> (\<forall>i < NUM_GPIO_PADS * 8. gpio_outputs s3 i = bit (gpio_state s3 (i div 8)) (i mod 8))"
proof -
  note ch = gpio_input_changed_bits [OF assms(1)]
  have "gpio_input_mask s2 = gpio_input_mask s1" "gpio_input_level s2 = gpio_input_level s1"
    using gpio_guest_frame [OF assms(3,2)] by simp_all
  then show ?thesis
    using gpio_reset_state [OF assms(4) ch(1)] ch gpio_reset_outputs [OF assms(4)] by simp
qed

text \<open>The home button of the S5L8720 (0xC01) pressed, then a guest store that drives its pad low.\<close>

definition gpio_pressed :: gpio where
  "gpio_pressed = \<lparr>gpio_state = (\<lambda>_. 0)(12 := 2), gpio_outputs = (\<lambda>_. False), gpio_fsel_offset = 0x1e0,
     gpio_rest_high_pad = 0x20, gpio_rest_high_mask = 0,
     gpio_input_mask = (\<lambda>_. 0), gpio_input_level = (\<lambda>_. 0)\<rparr>"

theorem gpio_reset_keeps_button_witness:
  "\<exists>s1 s2 rs s3. ipod_touch_gpio_input_changed gpio_pressed 0xC01 = Some s1
     \<and> dev_run (gpio_step False) s1 [MWrite 0x1e0 0x0c010e, DevReset] = Some (s2, rs)
     \<and> s5l8900_gpio_reset False s2 = Some s3 \<and> bit (gpio_state s3 12) 1"
proof -
  let ?es = "[MWrite 0x1e0 0x0c010e, DevReset] :: gpio_ext bus_event list"
  have pad: "GPIO2PAD 0xC01 = 12" "GPIO2PIN 0xC01 = 1"
    by (simp_all add: GPIO2PAD_def GPIO2PIN_def drop_bit_eq_div)
  obtain s1 where 1: "ipod_touch_gpio_input_changed gpio_pressed 0xC01 = Some s1"
    by (simp add: ipod_touch_gpio_input_changed_def Let_def pad NUM_GPIO_PADS_def)
  have "list_all (in_region GPIO_SIZE gpio_ext_ok) ?es"
    by (simp add: GPIO_SIZE_def)
  then obtain s2 rs where 2: "dev_run (gpio_step False) s1 ?es = Some (s2, rs)"
    using gpio.run_total [OF TrueI] by blast
  obtain s3 where 3: "s5l8900_gpio_reset False s2 = Some s3"
    using gpio_reset_total by blast
  have "bit (gpio_state gpio_pressed 12) 1"
    by (simp add: gpio_pressed_def)
  with gpio_reset_keeps_button [OF 1 _ 2 3] have "bit (gpio_state s3 12) 1"
    by (simp add: pad)
  with 1 2 3 show ?thesis by blast
qed

text \<open>
  C34. A store to the function-select register that drives a pin low or high makes the
  pad register read back that level and puts it on the pin's output line; every other
  pad bit and every other line keep their value.
\<close>

theorem gpio_fsel_drives_pin:
  assumes "pad = unat (drop_bit 16 value AND 0xff)" "pad < NUM_GPIO_PADS"
    and "pin = unat (drop_bit 8 value AND 0xff)" "pin < 8"
    and "value AND 0xff = (if high then 0x0f else 0x0e)"
  shows "\<exists>s'. s5l8900_gpio_write s (ucast (gpio_fsel_offset s)) value = Some s'
     \<and> bit (gpio_state s' pad) pin = high \<and> gpio_outputs s' (pad * 8 + pin) = high
     \<and> (\<forall>p n. (p, n) \<noteq> (pad, pin) \<longrightarrow> bit (gpio_state s' p) n = bit (gpio_state s p) n)
     \<and> (\<forall>i. i \<noteq> pad * 8 + pin \<longrightarrow> gpio_outputs s' i = gpio_outputs s i)"
proof -
  have odd: "((if high then 0x0f else 0x0e) AND (1::u64) \<noteq> 0) = high" by simp
  let ?s' = "s\<lparr>gpio_state := (gpio_state s)(pad := (gpio_state s pad AND NOT (push_bit pin 1)) OR push_bit pin (of_bool high)),
      gpio_outputs := (gpio_outputs s)(pad * 8 + pin := high)\<rparr>"
  have "s5l8900_gpio_write s (ucast (gpio_fsel_offset s)) value = Some ?s'"
    using assms odd by (simp add: s5l8900_gpio_write_def Let_def)
  moreover have "bit (gpio_state ?s' pad) pin = high"
    using assms(4) by (auto simp: wbits)
  moreover have "\<forall>p n. (p, n) \<noteq> (pad, pin) \<longrightarrow> bit (gpio_state ?s' p) n = bit (gpio_state s p) n"
    by (auto simp: wbits bit_1_iff dest: bit_imp_le_length split: if_splits)
  ultimately show ?thesis by fastforce
qed

theorem gpio_fsel_drives_pin_witness:
  "\<exists>s'. s5l8900_gpio_write gpio_pressed 0x1e0 0x05030f = Some s'
     \<and> bit (gpio_state s' 5) 3 \<and> gpio_outputs s' 43 \<and> bit (gpio_state s' 12) 1"
proof -
  have "\<exists>s'. s5l8900_gpio_write gpio_pressed (ucast (gpio_fsel_offset gpio_pressed)) 0x05030f = Some s'
     \<and> bit (gpio_state s' 5) 3 = True \<and> gpio_outputs s' (5 * 8 + 3) = True
     \<and> (\<forall>p n. (p, n) \<noteq> (5, 3) \<longrightarrow> bit (gpio_state s' p) n = bit (gpio_state gpio_pressed p) n)
     \<and> (\<forall>i. i \<noteq> 5 * 8 + 3 \<longrightarrow> gpio_outputs s' i = gpio_outputs gpio_pressed i)"
    by (rule gpio_fsel_drives_pin) (simp_all add: NUM_GPIO_PADS_def drop_bit_eq_div)
  then obtain s' where "s5l8900_gpio_write gpio_pressed 0x1e0 0x05030f = Some s'"
    "bit (gpio_state s' 5) 3" "gpio_outputs s' 43"
    "bit (gpio_state s' 12) 1 = bit (gpio_state gpio_pressed 12) 1"
    by (auto simp: gpio_pressed_def)
  then show ?thesis by (auto simp: gpio_pressed_def)
qed

end
