(* ===== verification/SysIC.thy ===== *)
theory SysIC
  imports Prelude
begin

text \<open>
  The system controller of \<open>hw/arm/ipod_touch_sysic.c\<close>: power control and the GPIO
  interrupt controller, seven groups of 32 sources. \<open>sy_gpio_irqs\<close> is \<open>None\<close> for a group
  whose output line is not connected, else the level last driven on it.
\<close>

definition POWER_ID :: u64 where "POWER_ID = 0x44"
definition POWER_ONCTRL :: u64 where "POWER_ONCTRL = 0xC"
definition POWER_OFFCTRL :: u64 where "POWER_OFFCTRL = 0x10"
definition POWER_SETSTATE :: u64 where "POWER_SETSTATE = 0x8"
definition POWER_STATE :: u64 where "POWER_STATE = 0x14"
definition POWER_ID_ADM :: u64 where "POWER_ID_ADM = 0x10"
definition GPIO_INTLEVEL :: u64 where "GPIO_INTLEVEL = 0x80"
definition GPIO_INTSTAT :: u64 where "GPIO_INTSTAT = 0xA0"
definition GPIO_INTEN :: u64 where "GPIO_INTEN = 0xC0"
definition GPIO_INTTYPE :: u64 where "GPIO_INTTYPE = 0xE0"
definition GPIO_NUMINTGROUPS :: nat where "GPIO_NUMINTGROUPS = 7"
definition SYSIC_SIZE :: u64 where "SYSIC_SIZE = 0x1000"

lemmas sysic_consts = POWER_ID_def POWER_ONCTRL_def POWER_OFFCTRL_def POWER_SETSTATE_def
  POWER_STATE_def POWER_ID_ADM_def GPIO_INTLEVEL_def GPIO_INTSTAT_def GPIO_INTEN_def
  GPIO_INTTYPE_def

record sysic =
  sy_direct_boot :: bool
  sy_epoch :: u32
  sy_s5l8900 :: bool
  sy_gpio_irqs :: "bool option carray"
  sy_power_id :: u32
  sy_power_state :: u32
  sy_int_level :: "u32 carray"
  sy_int_status :: "u32 carray"
  sy_int_enabled :: "u32 carray"
  sy_int_type :: "u32 carray"
  sy_level_pending :: "u32 carray"
  sy_pad_level :: "u32 carray"
  sy_pad_driven :: "u32 carray"

definition sysic_update_gpio_irq :: "sysic \<Rightarrow> nat \<Rightarrow> sysic option" where
  "sysic_update_gpio_irq s grp =
     do { line \<leftarrow> aget GPIO_NUMINTGROUPS (sy_gpio_irqs s) grp;
          if line \<noteq> None then
            do { st \<leftarrow> aget GPIO_NUMINTGROUPS (sy_int_status s) grp;
                 en \<leftarrow> aget GPIO_NUMINTGROUPS (sy_int_enabled s) grp;
                 irqs \<leftarrow> aset GPIO_NUMINTGROUPS (sy_gpio_irqs s) grp (Some (st AND en \<noteq> 0));
                 Some (s\<lparr>sy_gpio_irqs := irqs\<rparr>) }
          else Some s }"

definition ipod_touch_sysic_request_edge :: "sysic \<Rightarrow> nat \<Rightarrow> nat \<Rightarrow> sysic option" where
  "ipod_touch_sysic_request_edge s grp b =
     (if grp \<ge> GPIO_NUMINTGROUPS \<or> b \<ge> 32 then Some s
      else do { st \<leftarrow> aget GPIO_NUMINTGROUPS (sy_int_status s) grp;
                st' \<leftarrow> aset GPIO_NUMINTGROUPS (sy_int_status s) grp (st OR push_bit b 1);
                sysic_update_gpio_irq (s\<lparr>sy_int_status := st'\<rparr>) grp })"

definition sysic_pad_match :: "sysic \<Rightarrow> nat \<Rightarrow> u32 option" where
  "sysic_pad_match s grp =
     do { pl \<leftarrow> aget GPIO_NUMINTGROUPS (sy_pad_level s) grp;
          il \<leftarrow> aget GPIO_NUMINTGROUPS (sy_int_level s) grp;
          dr \<leftarrow> aget GPIO_NUMINTGROUPS (sy_pad_driven s) grp;
          Some (NOT (pl XOR il) AND dr) }"

definition sysic_pad_eval :: "sysic \<Rightarrow> nat \<Rightarrow> u32 \<Rightarrow> sysic option" where
  "sysic_pad_eval s grp was =
     do { match \<leftarrow> sysic_pad_match s grp;
          level \<leftarrow> aget GPIO_NUMINTGROUPS (sy_int_type s) grp;
          driven \<leftarrow> aget GPIO_NUMINTGROUPS (sy_pad_driven s) grp;
          lp \<leftarrow> aget GPIO_NUMINTGROUPS (sy_level_pending s) grp;
          lp' \<leftarrow> aset GPIO_NUMINTGROUPS (sy_level_pending s) grp
                  ((lp AND NOT (driven AND level)) OR (match AND level));
          st \<leftarrow> aget GPIO_NUMINTGROUPS (sy_int_status s) grp;
          en \<leftarrow> aget GPIO_NUMINTGROUPS (sy_int_enabled s) grp;
          st' \<leftarrow> aset GPIO_NUMINTGROUPS (sy_int_status s) grp
                  (st OR ((match AND NOT was AND NOT level) OR (match AND level AND en)));
          sysic_update_gpio_irq (s\<lparr>sy_level_pending := lp', sy_int_status := st'\<rparr>) grp }"

definition ipod_touch_sysic_set_pad :: "sysic \<Rightarrow> nat \<Rightarrow> bool \<Rightarrow> sysic option" where
  "ipod_touch_sysic_set_pad s irq level =
     (let grp = irq div 32; b = push_bit (irq mod 32) 1 in
      if grp \<ge> GPIO_NUMINTGROUPS then Some s
      else do { was \<leftarrow> sysic_pad_match s grp;
                dr \<leftarrow> aget GPIO_NUMINTGROUPS (sy_pad_driven s) grp;
                dr' \<leftarrow> aset GPIO_NUMINTGROUPS (sy_pad_driven s) grp (dr OR b);
                pl \<leftarrow> aget GPIO_NUMINTGROUPS (sy_pad_level s) grp;
                pl' \<leftarrow> aset GPIO_NUMINTGROUPS (sy_pad_level s) grp
                        ((pl AND NOT b) OR (if level then b else 0));
                sysic_pad_eval (s\<lparr>sy_pad_driven := dr', sy_pad_level := pl'\<rparr>) grp was })"

definition sysic_gpio_irq_input :: "sysic \<Rightarrow> nat \<Rightarrow> bool \<Rightarrow> sysic option" where
  "sysic_gpio_irq_input s pin level =
     do { let grp = pin div 32;
          let b = push_bit (pin mod 32) 1;
          lp \<leftarrow> aget GPIO_NUMINTGROUPS (sy_level_pending s) grp;
          st \<leftarrow> aget GPIO_NUMINTGROUPS (sy_int_status s) grp;
          s1 \<leftarrow> (if level then
                  do { en \<leftarrow> aget GPIO_NUMINTGROUPS (sy_int_enabled s) grp;
                       lp' \<leftarrow> aset GPIO_NUMINTGROUPS (sy_level_pending s) grp (lp OR b);
                       st' \<leftarrow> aset GPIO_NUMINTGROUPS (sy_int_status s) grp (st OR (b AND en));
                       Some (s\<lparr>sy_level_pending := lp', sy_int_status := st'\<rparr>) }
                else
                  do { lp' \<leftarrow> aset GPIO_NUMINTGROUPS (sy_level_pending s) grp (lp AND NOT b);
                       st' \<leftarrow> aset GPIO_NUMINTGROUPS (sy_int_status s) grp (st AND NOT b);
                       Some (s\<lparr>sy_level_pending := lp', sy_int_status := st'\<rparr>) });
          sysic_update_gpio_irq s1 grp }"

text \<open>The group a register offset names in one of the four banks, each eight slots wide.\<close>

definition sysic_in_bank :: "u64 \<Rightarrow> u64 \<Rightarrow> bool" where
  "sysic_in_bank base addr \<longleftrightarrow> base \<le> addr \<and> addr \<le> base + of_nat GPIO_NUMINTGROUPS * 4"

definition sysic_group :: "u64 \<Rightarrow> u64 \<Rightarrow> nat" where
  "sysic_group base addr = unat (ucast ((addr - base) div 4) :: u8)"

definition sysic_bank_read :: "u32 carray \<Rightarrow> nat \<Rightarrow> u64 option" where
  "sysic_bank_read a grp =
     (if grp < GPIO_NUMINTGROUPS then map_option ucast (aget GPIO_NUMINTGROUPS a grp) else Some 0)"

definition ipod_touch_sysic_read :: "sysic \<Rightarrow> u64 \<Rightarrow> u64 option" where
  "ipod_touch_sysic_read s addr =
     (if addr = POWER_ID then
        (if sy_direct_boot s
         then Some (ucast ((sy_power_id s AND 0x00FFFFFF) OR push_bit 24 (sy_epoch s)))
         else Some (ucast (sy_power_id s)))
      else if addr = POWER_SETSTATE \<or> addr = POWER_STATE then Some (ucast (sy_power_state s))
      else if addr = 0x7a \<or> addr = 0x7c then Some 1
      else if sysic_in_bank GPIO_INTLEVEL addr
        then sysic_bank_read (sy_int_level s) (sysic_group GPIO_INTLEVEL addr)
      else if sysic_in_bank GPIO_INTSTAT addr
        then sysic_bank_read (sy_int_status s) (sysic_group GPIO_INTSTAT addr)
      else if sysic_in_bank GPIO_INTEN addr
        then sysic_bank_read (sy_int_enabled s) (sysic_group GPIO_INTEN addr)
      else if sysic_in_bank GPIO_INTTYPE addr
        then sysic_bank_read (sy_int_type s) (sysic_group GPIO_INTTYPE addr)
      else Some 0)"

definition sysic_write_power :: "sysic \<Rightarrow> u64 \<Rightarrow> u64 \<Rightarrow> sysic" where
  "sysic_write_power s addr val =
     (if addr = POWER_ID then s\<lparr>sy_power_id := ucast val\<rparr>
      else if addr = POWER_ONCTRL then
        (if sy_s5l8900 s then s\<lparr>sy_power_state := sy_power_state s AND NOT (ucast val)\<rparr>
         else if val AND 0x20 \<noteq> 0 \<or> val AND 0x4 \<noteq> 0 \<or> val AND POWER_ID_ADM \<noteq> 0 then s
         else s\<lparr>sy_power_state := ucast val\<rparr>)
      else if addr = POWER_OFFCTRL then
        (if sy_s5l8900 s then s\<lparr>sy_power_state := sy_power_state s OR ucast val\<rparr>
         else s\<lparr>sy_power_state := ucast val\<rparr>)
      else s)"

definition sysic_write_level :: "sysic \<Rightarrow> nat \<Rightarrow> u32 \<Rightarrow> sysic option" where
  "sysic_write_level s grp val =
     (if grp < GPIO_NUMINTGROUPS then
        do { was \<leftarrow> sysic_pad_match s grp;
             il \<leftarrow> aset GPIO_NUMINTGROUPS (sy_int_level s) grp val;
             sysic_pad_eval (s\<lparr>sy_int_level := il\<rparr>) grp was }
      else Some s)"

definition sysic_write_stat :: "sysic \<Rightarrow> nat \<Rightarrow> u32 \<Rightarrow> sysic option" where
  "sysic_write_stat s grp val =
     (if grp < GPIO_NUMINTGROUPS then
        do { st \<leftarrow> aget GPIO_NUMINTGROUPS (sy_int_status s) grp;
             lp \<leftarrow> aget GPIO_NUMINTGROUPS (sy_level_pending s) grp;
             en \<leftarrow> aget GPIO_NUMINTGROUPS (sy_int_enabled s) grp;
             st' \<leftarrow> aset GPIO_NUMINTGROUPS (sy_int_status s) grp ((st AND NOT val) OR (lp AND en));
             sysic_update_gpio_irq (s\<lparr>sy_int_status := st'\<rparr>) grp }
      else Some s)"

definition sysic_write_en :: "sysic \<Rightarrow> nat \<Rightarrow> u32 \<Rightarrow> sysic option" where
  "sysic_write_en s grp val =
     (if grp < GPIO_NUMINTGROUPS then
        do { en' \<leftarrow> aset GPIO_NUMINTGROUPS (sy_int_enabled s) grp val;
             st \<leftarrow> aget GPIO_NUMINTGROUPS (sy_int_status s) grp;
             lp \<leftarrow> aget GPIO_NUMINTGROUPS (sy_level_pending s) grp;
             st' \<leftarrow> aset GPIO_NUMINTGROUPS (sy_int_status s) grp (st OR (lp AND val));
             sysic_update_gpio_irq (s\<lparr>sy_int_enabled := en', sy_int_status := st'\<rparr>) grp }
      else Some s)"

definition sysic_write_type :: "sysic \<Rightarrow> nat \<Rightarrow> u32 \<Rightarrow> sysic option" where
  "sysic_write_type s grp val =
     (if grp < GPIO_NUMINTGROUPS then
        do { was \<leftarrow> sysic_pad_match s grp;
             ty \<leftarrow> aset GPIO_NUMINTGROUPS (sy_int_type s) grp val;
             sysic_pad_eval (s\<lparr>sy_int_type := ty\<rparr>) grp was }
      else Some s)"

definition ipod_touch_sysic_write :: "sysic \<Rightarrow> u64 \<Rightarrow> u64 \<Rightarrow> sysic option" where
  "ipod_touch_sysic_write s addr val =
     (if addr = POWER_ID \<or> addr = POWER_ONCTRL \<or> addr = POWER_OFFCTRL
        then Some (sysic_write_power s addr val)
      else if sysic_in_bank GPIO_INTLEVEL addr
        then sysic_write_level s (sysic_group GPIO_INTLEVEL addr) (ucast val)
      else if sysic_in_bank GPIO_INTSTAT addr
        then sysic_write_stat s (sysic_group GPIO_INTSTAT addr) (ucast val)
      else if sysic_in_bank GPIO_INTEN addr
        then sysic_write_en s (sysic_group GPIO_INTEN addr) (ucast val)
      else if sysic_in_bank GPIO_INTTYPE addr
        then sysic_write_type s (sysic_group GPIO_INTTYPE addr) (ucast val)
      else Some s)"

definition ipod_touch_sysic_reset :: "sysic \<Rightarrow> sysic" where
  "ipod_touch_sysic_reset s =
     (let z = (\<lambda>a grp. if grp < GPIO_NUMINTGROUPS then 0 else a grp) in
      s\<lparr>sy_power_id := 0, sy_power_state := 0,
        sy_int_level := z (sy_int_level s), sy_int_status := z (sy_int_status s),
        sy_int_enabled := z (sy_int_enabled s), sy_int_type := z (sy_int_type s),
        sy_level_pending := z (sy_level_pending s), sy_pad_level := z (sy_pad_level s),
        sy_pad_driven := z (sy_pad_driven s),
        sy_gpio_irqs := (\<lambda>grp. if grp < GPIO_NUMINTGROUPS
           then map_option (\<lambda>_. False) (sy_gpio_irqs s grp) else sy_gpio_irqs s grp)\<rparr>)"

fun sysic_update_groups :: "sysic \<Rightarrow> nat list \<Rightarrow> sysic option" where
  "sysic_update_groups s [] = Some s"
| "sysic_update_groups s (g # gs) = do { s1 \<leftarrow> sysic_update_gpio_irq s g; sysic_update_groups s1 gs }"

definition sysic_post_load :: "sysic \<Rightarrow> sysic option" where
  "sysic_post_load s = sysic_update_groups s [0 ..< GPIO_NUMINTGROUPS]"

text \<open>
  What other devices do to the controller behind its handlers. A button of the later board
  (\<open>ipod_touch_key_event\<close> of \<open>hw/arm/ipod_touch_2g.c\<close>, once it has found a press or release) latches its
  source and raises the group line whatever the mask says. The sound block
  (\<open>it_i2s_ready_cb\<close> of \<open>hw/arm/ipod_touch_i2s.c\<close>) does so only for a source that is enabled.
\<close>

definition sysic_raise :: "sysic \<Rightarrow> nat \<Rightarrow> nat \<Rightarrow> sysic option" where
  "sysic_raise s grp b =
     do { st \<leftarrow> aget GPIO_NUMINTGROUPS (sy_int_status s) grp;
          st' \<leftarrow> aset GPIO_NUMINTGROUPS (sy_int_status s) grp (st OR push_bit b 1);
          line \<leftarrow> aget GPIO_NUMINTGROUPS (sy_gpio_irqs s) grp;
          irqs \<leftarrow> aset GPIO_NUMINTGROUPS (sy_gpio_irqs s) grp (map_option (\<lambda>_. True) line);
          Some (s\<lparr>sy_int_status := st', sy_gpio_irqs := irqs\<rparr>) }"

definition sysic_button :: "sysic \<Rightarrow> nat \<Rightarrow> nat \<Rightarrow> bool \<Rightarrow> sysic option" where
  "sysic_button s grp b on =
     do { il \<leftarrow> aget GPIO_NUMINTGROUPS (sy_int_level s) grp;
          il' \<leftarrow> aset GPIO_NUMINTGROUPS (sy_int_level s) grp
                  (if on then il OR push_bit b 1 else il AND NOT (push_bit b 1));
          sysic_raise (s\<lparr>sy_int_level := il'\<rparr>) grp b }"

definition sysic_i2s_ready :: "sysic \<Rightarrow> nat \<Rightarrow> nat \<Rightarrow> sysic option" where
  "sysic_i2s_ready s grp b =
     do { en \<leftarrow> aget GPIO_NUMINTGROUPS (sy_int_enabled s) grp;
          if en AND push_bit b 1 \<noteq> 0 then sysic_raise s grp b else Some s }"

datatype sysic_ext =
    SysicEdge nat nat | SysicPad nat bool | SysicInput nat bool
  | SysicButton nat nat bool | SysicReady nat nat

fun sysic_ext_ok :: "sysic_ext \<Rightarrow> bool" where
  "sysic_ext_ok (SysicInput pin l) = (pin < GPIO_NUMINTGROUPS * 32)"
| "sysic_ext_ok (SysicButton g b l) = (g < GPIO_NUMINTGROUPS \<and> b < 32)"
| "sysic_ext_ok (SysicReady g b) = (g < GPIO_NUMINTGROUPS \<and> b < 32)"
| "sysic_ext_ok _ = True"

fun sysic_step :: "sysic \<Rightarrow> sysic_ext bus_event \<Rightarrow> (sysic \<times> u64) option" where
  "sysic_step s (MRead a) = map_option (\<lambda>v. (s, v)) (ipod_touch_sysic_read s a)"
| "sysic_step s (MWrite a v) = map_option (\<lambda>s'. (s', 0)) (ipod_touch_sysic_write s a v)"
| "sysic_step s DevReset = Some (ipod_touch_sysic_reset s, 0)"
| "sysic_step s (Ext (SysicEdge g b)) = map_option (\<lambda>s'. (s', 0)) (ipod_touch_sysic_request_edge s g b)"
| "sysic_step s (Ext (SysicPad i l)) = map_option (\<lambda>s'. (s', 0)) (ipod_touch_sysic_set_pad s i l)"
| "sysic_step s (Ext (SysicInput p l)) = map_option (\<lambda>s'. (s', 0)) (sysic_gpio_irq_input s p l)"
| "sysic_step s (Ext (SysicButton g b l)) = map_option (\<lambda>s'. (s', 0)) (sysic_button s g b l)"
| "sysic_step s (Ext (SysicReady g b)) = map_option (\<lambda>s'. (s', 0)) (sysic_i2s_ready s g b)"

section \<open>The line invariant\<close>

text \<open>
  A connected group line is high when an enabled source of the group is pending, and, but for the
  groups \<open>M\<close> that have buttons on them, only then.
\<close>

definition sysic_line :: "nat set \<Rightarrow> sysic \<Rightarrow> nat \<Rightarrow> bool" where
  "sysic_line M s g \<longleftrightarrow> (\<forall>l. sy_gpio_irqs s g = Some l \<longrightarrow>
     (sy_int_status s g AND sy_int_enabled s g \<noteq> 0 \<longrightarrow> l) \<and>
     (l \<longrightarrow> sy_int_status s g AND sy_int_enabled s g \<noteq> 0 \<or> g \<in> M))"

definition sysic_lines_ok :: "nat set \<Rightarrow> sysic \<Rightarrow> bool" where
  "sysic_lines_ok M s \<longleftrightarrow> (\<forall>g < GPIO_NUMINTGROUPS. sysic_line M s g)"

text \<open>All groups but one, for the middle of a handler.\<close>

definition sysic_lines_but :: "nat set \<Rightarrow> nat \<Rightarrow> sysic \<Rightarrow> bool" where
  "sysic_lines_but M k s \<longleftrightarrow> (\<forall>g < GPIO_NUMINTGROUPS. g \<noteq> k \<longrightarrow> sysic_line M s g)"

lemma sysic_lines_ok_but: "sysic_lines_ok M s \<Longrightarrow> sysic_lines_but M k s"
  by (simp add: sysic_lines_ok_def sysic_lines_but_def)

lemma sysic_lines_but_frame:
  assumes "sysic_lines_ok M s" "sy_gpio_irqs s' = sy_gpio_irqs s"
    and "\<And>g. g \<noteq> k \<Longrightarrow> sy_int_status s' g = sy_int_status s g"
    and "\<And>g. g \<noteq> k \<Longrightarrow> sy_int_enabled s' g = sy_int_enabled s g"
  shows "sysic_lines_but M k s'"
  using assms by (auto simp: sysic_lines_ok_def sysic_lines_but_def sysic_line_def)

lemma sysic_update_restores:
  assumes "sysic_lines_but M k s" "k < GPIO_NUMINTGROUPS"
  shows "\<exists>s'. sysic_update_gpio_irq s k = Some s' \<and> sysic_lines_ok M s'"
  using assms by (auto simp: sysic_update_gpio_irq_def sysic_lines_but_def sysic_lines_ok_def sysic_line_def)

lemma sysic_pad_eval_restores:
  assumes but: "sysic_lines_but M k s" and k: "k < GPIO_NUMINTGROUPS"
  shows "\<exists>s'. sysic_pad_eval s k was = Some s' \<and> sysic_lines_ok M s'"
proof -
  have "sysic_lines_but M k (s\<lparr>sy_level_pending := (sy_level_pending s)(k := lp),
      sy_int_status := (sy_int_status s)(k := st)\<rparr>)" for lp st
    using but by (auto simp: sysic_lines_but_def sysic_line_def)
  from sysic_update_restores [OF this k] show ?thesis
    using k by (simp add: sysic_pad_eval_def sysic_pad_match_def)
qed

lemma sysic_edge_inv:
  assumes "sysic_lines_ok M s"
  shows "\<exists>s'. ipod_touch_sysic_request_edge s g b = Some s' \<and> sysic_lines_ok M s'"
proof (cases "g \<ge> GPIO_NUMINTGROUPS \<or> b \<ge> 32")
  case True
  then show ?thesis using assms by (auto simp: ipod_touch_sysic_request_edge_def)
next
  case False
  then have g: "g < GPIO_NUMINTGROUPS" "\<not> (g \<ge> GPIO_NUMINTGROUPS \<or> b \<ge> 32)" by simp_all
  have "sysic_lines_but M g (s\<lparr>sy_int_status := (sy_int_status s)(g := v)\<rparr>)" for v
    by (rule sysic_lines_but_frame [OF assms]) simp_all
  from sysic_update_restores [OF this g(1)] show ?thesis
    using g by (simp only: ipod_touch_sysic_request_edge_def if_False aget_in aset_in bind.simps)
qed

lemma sysic_set_pad_inv:
  assumes "sysic_lines_ok M s"
  shows "\<exists>s'. ipod_touch_sysic_set_pad s i l = Some s' \<and> sysic_lines_ok M s'"
proof (cases "i div 32 < GPIO_NUMINTGROUPS")
  case True
  have "sysic_lines_but M (i div 32) (s\<lparr>sy_pad_driven := dr, sy_pad_level := pl\<rparr>)" for dr pl
    by (rule sysic_lines_but_frame [OF assms]) simp_all
  from sysic_pad_eval_restores [OF this True] show ?thesis
    using True by (simp add: ipod_touch_sysic_set_pad_def Let_def sysic_pad_match_def)
next
  case False
  then show ?thesis using assms by (simp add: ipod_touch_sysic_set_pad_def)
qed

lemma sysic_input_inv:
  assumes "sysic_lines_ok M s" "p < GPIO_NUMINTGROUPS * 32"
  shows "\<exists>s'. sysic_gpio_irq_input s p l = Some s' \<and> sysic_lines_ok M s'"
proof -
  have g: "p div 32 < GPIO_NUMINTGROUPS"
    using assms(2) by (simp add: less_mult_imp_div_less)
  have "sysic_lines_but M (p div 32) (s\<lparr>sy_level_pending := lp,
      sy_int_status := (sy_int_status s)(p div 32 := v)\<rparr>)" for lp v
    by (rule sysic_lines_but_frame [OF assms(1)]) simp_all
  from sysic_update_restores [OF this g] show ?thesis
    using g by (simp add: sysic_gpio_irq_input_def Let_def)
qed

lemma sysic_bank_write_inv:
  assumes ok: "sysic_lines_ok M s"
  shows "\<exists>s'. sysic_write_level s g v = Some s' \<and> sysic_lines_ok M s'"
    and "\<exists>s'. sysic_write_type s g v = Some s' \<and> sysic_lines_ok M s'"
    and "\<exists>s'. sysic_write_stat s g v = Some s' \<and> sysic_lines_ok M s'"
    and "\<exists>s'. sysic_write_en s g v = Some s' \<and> sysic_lines_ok M s'"
proof -
  have lvl: "sysic_lines_but M g (s\<lparr>sy_int_level := a\<rparr>)"
    and ty: "sysic_lines_but M g (s\<lparr>sy_int_type := a\<rparr>)"
    and sta: "sysic_lines_but M g (s\<lparr>sy_int_status := (sy_int_status s)(g := w)\<rparr>)"
    and ena: "sysic_lines_but M g (s\<lparr>sy_int_enabled := (sy_int_enabled s)(g := v),
        sy_int_status := (sy_int_status s)(g := w)\<rparr>)" for a w
    by (rule sysic_lines_but_frame [OF ok]; simp)+
  show "\<exists>s'. sysic_write_level s g v = Some s' \<and> sysic_lines_ok M s'"
    using sysic_pad_eval_restores [OF lvl] ok by (simp add: sysic_write_level_def sysic_pad_match_def)
  show "\<exists>s'. sysic_write_type s g v = Some s' \<and> sysic_lines_ok M s'"
    using sysic_pad_eval_restores [OF ty] ok by (simp add: sysic_write_type_def sysic_pad_match_def)
  show "\<exists>s'. sysic_write_stat s g v = Some s' \<and> sysic_lines_ok M s'"
    using sysic_update_restores [OF sta] ok by (simp add: sysic_write_stat_def)
  show "\<exists>s'. sysic_write_en s g v = Some s' \<and> sysic_lines_ok M s'"
    using sysic_update_restores [OF ena] ok by (simp add: sysic_write_en_def)
qed

lemma sysic_write_inv:
  assumes "sysic_lines_ok M s"
  shows "\<exists>s'. ipod_touch_sysic_write s a v = Some s' \<and> sysic_lines_ok M s'"
proof -
  have "sysic_lines_ok M (sysic_write_power s a v)"
    using assms by (auto simp: sysic_write_power_def sysic_lines_ok_def sysic_line_def)
  then show ?thesis
    using sysic_bank_write_inv [OF assms] assms by (simp add: ipod_touch_sysic_write_def)
qed

lemma sysic_read_total: "\<exists>v. ipod_touch_sysic_read s a = Some v"
  by (simp add: ipod_touch_sysic_read_def sysic_bank_read_def)

lemma sysic_reset_inv: "sysic_lines_ok M (ipod_touch_sysic_reset s)"
  by (auto simp: ipod_touch_sysic_reset_def sysic_lines_ok_def sysic_line_def Let_def)

lemma sysic_raise_inv:
  assumes "sysic_lines_ok M s" "g < GPIO_NUMINTGROUPS" "g \<in> M \<or> bit (sy_int_enabled s g) b"
  shows "\<exists>s'. sysic_raise s g b = Some s' \<and> sysic_lines_ok M s'"
proof -
  have "(sy_int_status s g OR push_bit b 1) AND sy_int_enabled s g \<noteq> 0" if "bit (sy_int_enabled s g) b"
  proof
    assume "(sy_int_status s g OR push_bit b 1) AND sy_int_enabled s g = 0"
    from arg_cong [OF this, of "\<lambda>w. bit w b"] that show False
      using bit_imp_le_length [OF that] by (simp add: wbits)
  qed
  then show ?thesis
    using assms by (auto simp: sysic_raise_def sysic_lines_ok_def sysic_line_def)
qed

lemma sysic_board_inv:
  assumes "sysic_lines_ok M s" "g < GPIO_NUMINTGROUPS"
  shows "g \<in> M \<Longrightarrow> \<exists>s'. sysic_button s g b l = Some s' \<and> sysic_lines_ok M s'"
    and "\<exists>s'. sysic_i2s_ready s g b = Some s' \<and> sysic_lines_ok M s'"
proof -
  have "sysic_lines_ok M (s\<lparr>sy_int_level := il\<rparr>)" for il
    using assms(1) by (auto simp: sysic_lines_ok_def sysic_line_def)
  then show "\<exists>s'. sysic_button s g b l = Some s' \<and> sysic_lines_ok M s'" if "g \<in> M"
    using sysic_raise_inv that assms(2) by (simp add: sysic_button_def)
  show "\<exists>s'. sysic_i2s_ready s g b = Some s' \<and> sysic_lines_ok M s'"
    using sysic_raise_inv [OF assms] assms by (simp add: sysic_i2s_ready_def and_exp_eq_0_iff_not_bit)
qed

fun sysic_button_in :: "nat set \<Rightarrow> sysic_ext bus_event \<Rightarrow> bool" where
  "sysic_button_in M (Ext (SysicButton g b l)) = (g \<in> M)"
| "sysic_button_in M _ = True"

interpretation sysic: guest_device sysic_step "sysic_lines_ok M"
  "\<lambda>e. in_region SYSIC_SIZE sysic_ext_ok e \<and> sysic_button_in M e" for M
proof unfold_locales
  fix s and e :: "sysic_ext bus_event"
  assume inv: "sysic_lines_ok M s" and ok: "in_region SYSIC_SIZE sysic_ext_ok e \<and> sysic_button_in M e"
  show "\<exists>s' r. sysic_step s e = Some (s', r) \<and> sysic_lines_ok M s'"
  proof (cases e)
    case (MRead a) then show ?thesis using inv sysic_read_total [of s a] by auto
  next
    case (MWrite a v) then show ?thesis using sysic_write_inv [OF inv, of a v] by auto
  next
    case DevReset then show ?thesis by (simp add: sysic_reset_inv)
  next
    case (Ext x)
    show ?thesis
    proof (cases x)
      case (SysicEdge g b) with Ext show ?thesis using sysic_edge_inv [OF inv, of g b] by auto
    next
      case (SysicPad i l) with Ext show ?thesis using sysic_set_pad_inv [OF inv, of i l] by auto
    next
      case (SysicInput p l) with Ext ok show ?thesis using sysic_input_inv [OF inv, of p l] by auto
    next
      case (SysicButton g b l) with Ext ok show ?thesis using sysic_board_inv(1) [OF inv, of g b l] by auto
    next
      case (SysicReady g b) with Ext ok show ?thesis using sysic_board_inv(2) [OF inv, of g b] by auto
    qed
  qed
qed

section \<open>What the registers mean\<close>

text \<open>Offsets \<open>base + 4 g\<close> reach group \<open>g\<close> of their bank.\<close>

lemma sysic_group_cases:
  "g < GPIO_NUMINTGROUPS \<longleftrightarrow> g = 0 \<or> g = 1 \<or> g = 2 \<or> g = 3 \<or> g = 4 \<or> g = 5 \<or> g = 6"
  by (auto simp: GPIO_NUMINTGROUPS_def)

lemma sysic_group_at:
  assumes "g < GPIO_NUMINTGROUPS"
  shows "sysic_group base (base + 4 * of_nat g) = g"
  using assms unfolding sysic_group_cases by (elim disjE) (simp_all add: sysic_group_def)

lemma sysic_write_decode:
  assumes "g < GPIO_NUMINTGROUPS"
  shows "ipod_touch_sysic_write s (GPIO_INTLEVEL + 4 * of_nat g) v = sysic_write_level s g (ucast v)"
    and "ipod_touch_sysic_write s (GPIO_INTSTAT + 4 * of_nat g) v = sysic_write_stat s g (ucast v)"
    and "ipod_touch_sysic_write s (GPIO_INTEN + 4 * of_nat g) v = sysic_write_en s g (ucast v)"
    and "ipod_touch_sysic_write s (GPIO_INTTYPE + 4 * of_nat g) v = sysic_write_type s g (ucast v)"
  using assms unfolding ipod_touch_sysic_write_def sysic_group_at [OF assms]
  by (auto simp only: sysic_group_cases)
    (simp_all add: sysic_consts sysic_in_bank_def GPIO_NUMINTGROUPS_def)

text \<open>
  C18. From reset on, whatever the guest stores and whatever the input lines, pads, edge requests,
  buttons and the sound block do, the controller never faults; every connected group line is high
  while an enabled source of its group is pending, so no enabled request is lost; and it is high
  only then, except on a group whose line a button event raised past the mask.
\<close>

theorem sysic_lines_track_status:
  assumes "list_all (in_region SYSIC_SIZE sysic_ext_ok) es"
  shows "\<exists>s' rs. dev_run sysic_step (ipod_touch_sysic_reset s) es = Some (s', rs)
     \<and> (\<forall>g < GPIO_NUMINTGROUPS. \<forall>l. sy_gpio_irqs s' g = Some l \<longrightarrow>
           (sy_int_status s' g AND sy_int_enabled s' g \<noteq> 0 \<longrightarrow> l) \<and>
           ((\<nexists>b v. Ext (SysicButton g b v) \<in> set es) \<longrightarrow> l = (sy_int_status s' g AND sy_int_enabled s' g \<noteq> 0)))"
proof -
  let ?M = "{g. \<exists>b v. Ext (SysicButton g b v) \<in> set es}"
  have "sysic_button_in ?M e" if "e \<in> set es" for e
    using that by (cases "(?M, e)" rule: sysic_button_in.cases) auto
  with assms have "list_all (\<lambda>e. in_region SYSIC_SIZE sysic_ext_ok e \<and> sysic_button_in ?M e) es"
    by (simp add: list_all_iff)
  from sysic.run_total [OF sysic_reset_inv this, of s] show ?thesis
    unfolding sysic_lines_ok_def sysic_line_def by (elim exE conjE, intro exI conjI) (assumption, blast)
qed

lemma sysic_update_frame:
  "g < GPIO_NUMINTGROUPS \<Longrightarrow> sysic_update_gpio_irq s g = Some
     (s\<lparr>sy_gpio_irqs := (sy_gpio_irqs s)
        (g := map_option (\<lambda>_. sy_int_status s g AND sy_int_enabled s g \<noteq> 0) (sy_gpio_irqs s g))\<rparr>)"
  by (cases "sy_gpio_irqs s g") (simp_all add: sysic_update_gpio_irq_def fun_upd_idem)

text \<open>
  C19. A level request survives its acknowledge: while the device behind source \<open>n\<close> still
  asserts it, a store to the status register leaves it pending if it is enabled and
  clears it (when the store names it) if it is masked; enabling it again makes it pending
  again, whatever was acknowledged in between.
\<close>

theorem sysic_level_ack:
  assumes "g < GPIO_NUMINTGROUPS" "n < 32" "bit (sy_level_pending s g) n"
  shows "\<exists>s1. ipod_touch_sysic_write s (GPIO_INTSTAT + 4 * of_nat g) ack = Some s1
     \<and> (bit (sy_int_enabled s g) n \<longrightarrow> bit (sy_int_status s1 g) n)
     \<and> (\<not> bit (sy_int_enabled s g) n \<and> bit ack n \<longrightarrow> \<not> bit (sy_int_status s1 g) n)
     \<and> (\<forall>en. bit en n \<longrightarrow> (\<exists>s2. ipod_touch_sysic_write s1 (GPIO_INTEN + 4 * of_nat g) en = Some s2
           \<and> bit (sy_int_status s2 g) n))"
  using assms
  by (auto simp: sysic_write_decode sysic_write_stat_def sysic_write_en_def sysic_update_frame wbits)

text \<open>
  C20. An edge source driven by a pad latches exactly when the pad starts to match the
  programmed polarity: after the pad moves, the source is pending if it was before, or if
  pad and polarity match now and the (driven) pad did not match before.
\<close>

theorem sysic_pad_edge:
  assumes "irq div 32 = g" "irq mod 32 = n" "g < GPIO_NUMINTGROUPS" "\<not> bit (sy_int_type s g) n"
  shows "\<exists>s'. ipod_touch_sysic_set_pad s irq level = Some s'
     \<and> bit (sy_int_status s' g) n =
         (bit (sy_int_status s g) n \<or>
          level = bit (sy_int_level s g) n \<and>
          \<not> (bit (sy_pad_driven s g) n \<and> bit (sy_pad_level s g) n = bit (sy_int_level s g) n))
     \<and> (\<forall>m. m \<noteq> n \<longrightarrow> \<not> bit (sy_int_type s g) m \<longrightarrow> bit (sy_int_status s' g) m = bit (sy_int_status s g) m)"
proof -
  have "n < 32" using assms(2) by auto
  then show ?thesis
    using assms
    by (auto simp: ipod_touch_sysic_set_pad_def Let_def sysic_pad_match_def sysic_pad_eval_def
        sysic_update_frame wbits dest: bit_imp_le_length)
qed

text \<open>A controller with line 3 connected, a level source asserted and enabled.\<close>

definition sysic_sample :: sysic where
  "sysic_sample = \<lparr>sy_direct_boot = False, sy_epoch = 4, sy_s5l8900 = False,
     sy_gpio_irqs = (\<lambda>_. None)(3 := Some False), sy_power_id = 0, sy_power_state = 0,
     sy_int_level = (\<lambda>_. 0)(2 := 32), sy_int_status = (\<lambda>_. 0), sy_int_enabled = (\<lambda>_. 0)(3 := 1),
     sy_int_type = (\<lambda>_. 0), sy_level_pending = (\<lambda>_. 0)(3 := 1),
     sy_pad_level = (\<lambda>_. 0), sy_pad_driven = (\<lambda>_. 0)\<rparr>"

theorem sysic_lines_track_status_witness:
  "\<exists>s' rs. dev_run sysic_step (ipod_touch_sysic_reset sysic_sample)
       [Ext (SysicInput 97 True), MWrite 0xcc 2, MRead 0xac] = Some (s', rs)
     \<and> sy_gpio_irqs s' 3 = Some True \<and> rs ! 2 = 2"
proof -
  let ?es = "[Ext (SysicInput 97 True), MWrite 0xcc 2, MRead 0xac] :: sysic_ext bus_event list"
  have "list_all (in_region SYSIC_SIZE sysic_ext_ok) ?es"
    by (simp add: SYSIC_SIZE_def GPIO_NUMINTGROUPS_def)
  from sysic_lines_track_status [OF this, of sysic_sample] obtain s' rs where
    run: "dev_run sysic_step (ipod_touch_sysic_reset sysic_sample) ?es = Some (s', rs)"
    and line: "\<forall>l. sy_gpio_irqs s' 3 = Some l \<longrightarrow> (sy_int_status s' 3 AND sy_int_enabled s' 3 \<noteq> 0 \<longrightarrow> l)"
    by (auto simp: GPIO_NUMINTGROUPS_def)
  have "sy_int_status s' 3 = 2 \<and> sy_int_enabled s' 3 = 2 \<and> sy_gpio_irqs s' 3 \<noteq> None \<and> rs ! 2 = 2"
    using run by (auto simp: sysic_sample_def ipod_touch_sysic_reset_def sysic_gpio_irq_input_def Let_def
        sysic_update_frame ipod_touch_sysic_write_def ipod_touch_sysic_read_def sysic_consts
        sysic_in_bank_def sysic_group_def sysic_write_en_def sysic_bank_read_def GPIO_NUMINTGROUPS_def)
  with run line show ?thesis by auto
qed

theorem sysic_level_ack_witness:
  "\<exists>s1. ipod_touch_sysic_write sysic_sample (GPIO_INTSTAT + 4 * of_nat 3) 1 = Some s1
     \<and> bit (sy_int_status s1 3) 0"
  using sysic_level_ack [of 3 0 sysic_sample 1]
  by (auto simp: sysic_sample_def GPIO_NUMINTGROUPS_def)

theorem sysic_pad_edge_witness:
  "\<exists>s'. ipod_touch_sysic_set_pad sysic_sample 69 True = Some s' \<and> bit (sy_int_status s' 2) 5"
proof -
  have "bit (32 :: u32) 5" by simp
  then show ?thesis
    using sysic_pad_edge [of 69 2 5 sysic_sample True]
    by (auto simp: sysic_sample_def GPIO_NUMINTGROUPS_def)
qed

end
