(* ===== verification/Fifo8.thy ===== *)
theory Fifo8
  imports Prelude
begin

text \<open>
  The byte FIFO of \<open>util/fifo8.c\<close>: a circular buffer of \<open>capacity\<close> bytes from which \<open>num\<close>
  bytes starting at \<open>head\<close> are queued. A pointer into the buffer is its index; the asserts
  of the source and the bounds of the allocation are failures of the option type. The
  buffer refines a list of bytes, and the contract \<open>bounded_fifo\<close> that this gives is what
  clients of the FIFO rely on.
\<close>

record fifo8 =
  f8_data :: "u8 carray"
  f8_capacity :: u32
  f8_head :: u32
  f8_num :: u32

definition fifo8_reset :: "fifo8 \<Rightarrow> fifo8" where
  "fifo8_reset f = f\<lparr>f8_num := 0, f8_head := 0\<rparr>"

text \<open>\<open>g_new\<close> leaves the bytes unspecified: the caller names them.\<close>

definition fifo8_create :: "u8 carray \<Rightarrow> u32 \<Rightarrow> fifo8" where
  "fifo8_create garbage capacity =
     fifo8_reset \<lparr>f8_data = garbage, f8_capacity = capacity, f8_head = 0, f8_num = 0\<rparr>"

text \<open>\<open>%\<close> on \<open>uint32_t\<close>: a failure when the divisor is 0.\<close>

definition umod :: "u32 \<Rightarrow> u32 \<Rightarrow> u32 option" where
  "umod a b = (if b = 0 then None else Some (a mod b))"

definition fifo8_push :: "fifo8 \<Rightarrow> u8 \<Rightarrow> fifo8 option" where
  "fifo8_push f d =
     do { cassert (f8_num f < f8_capacity f);
          i \<leftarrow> umod (f8_head f + f8_num f) (f8_capacity f);
          a \<leftarrow> aset (unat (f8_capacity f)) (f8_data f) (unat i) d;
          Some (f\<lparr>f8_data := a, f8_num := f8_num f + 1\<rparr>) }"

text \<open>The source buffer of the copy must hold \<open>num\<close> bytes.\<close>

definition fifo8_push_all :: "fifo8 \<Rightarrow> u8 list \<Rightarrow> u32 \<Rightarrow> fifo8 option" where
  "fifo8_push_all f d num =
     do { cassert (f8_num f + num \<le> f8_capacity f);
          cassert (unat num \<le> length d);
          start \<leftarrow> umod (f8_head f + f8_num f) (f8_capacity f);
          a \<leftarrow> (if start + num \<le> f8_capacity f
               then aput (unat (f8_capacity f)) (f8_data f) (unat start) (take (unat num) d)
               else do { let avail = f8_capacity f - start;
                         a1 \<leftarrow> aput (unat (f8_capacity f)) (f8_data f) (unat start) (take (unat avail) d);
                         aput (unat (f8_capacity f)) a1 0
                           (take (unat (num - avail)) (drop (unat avail) d)) });
          Some (f\<lparr>f8_data := a, f8_num := f8_num f + num\<rparr>) }"

definition fifo8_pop :: "fifo8 \<Rightarrow> (u8 \<times> fifo8) option" where
  "fifo8_pop f =
     do { cassert (f8_num f > 0);
          ret \<leftarrow> aget (unat (f8_capacity f)) (f8_data f) (unat (f8_head f));
          h \<leftarrow> umod (f8_head f + 1) (f8_capacity f);
          Some (ret, f\<lparr>f8_head := h, f8_num := f8_num f - 1\<rparr>) }"

definition fifo8_peek :: "fifo8 \<Rightarrow> u8 option" where
  "fifo8_peek f =
     do { cassert (f8_num f > 0);
          aget (unat (f8_capacity f)) (f8_data f) (unat (f8_head f)) }"

text \<open>The result: the index of the returned pointer, its count, and the FIFO.\<close>

definition fifo8_peekpop_bufptr :: "fifo8 \<Rightarrow> u32 \<Rightarrow> u32 \<Rightarrow> bool \<Rightarrow> (nat \<times> u32 \<times> fifo8) option" where
  "fifo8_peekpop_bufptr f mx skip do_pop =
     do { cassert (mx > 0 \<and> mx \<le> f8_num f);
          cassert (skip \<le> f8_num f);
          head \<leftarrow> umod (f8_head f + skip) (f8_capacity f);
          let num = min (f8_capacity f - head) mx;
          h \<leftarrow> umod (head + num) (f8_capacity f);
          Some (unat head, num,
            if do_pop then f\<lparr>f8_head := h, f8_num := f8_num f - num\<rparr> else f) }"

definition fifo8_peek_bufptr :: "fifo8 \<Rightarrow> u32 \<Rightarrow> (nat \<times> u32 \<times> fifo8) option" where
  "fifo8_peek_bufptr f mx = fifo8_peekpop_bufptr f mx 0 False"

definition fifo8_pop_bufptr :: "fifo8 \<Rightarrow> u32 \<Rightarrow> (nat \<times> u32 \<times> fifo8) option" where
  "fifo8_pop_bufptr f mx = fifo8_peekpop_bufptr f mx 0 True"

definition fifo8_is_empty :: "fifo8 \<Rightarrow> bool" where
  "fifo8_is_empty f = (f8_num f = 0)"

definition fifo8_is_full :: "fifo8 \<Rightarrow> bool" where
  "fifo8_is_full f = (f8_num f = f8_capacity f)"

definition fifo8_num_free :: "fifo8 \<Rightarrow> u32" where
  "fifo8_num_free f = f8_capacity f - f8_num f"

definition fifo8_num_used :: "fifo8 \<Rightarrow> u32" where
  "fifo8_num_used f = f8_num f"

text \<open>The bytes a \<open>memcpy\<close> to the destination takes, in order, and the FIFO.\<close>

definition fifo8_peekpop_buf :: "fifo8 \<Rightarrow> u32 \<Rightarrow> bool \<Rightarrow> (u8 list \<times> fifo8) option" where
  "fifo8_peekpop_buf f destlen do_pop =
     (if destlen = 0 then Some ([], f)
      else do { (p1, n1, f1) \<leftarrow> fifo8_peekpop_bufptr f destlen 0 do_pop;
                b1 \<leftarrow> agets (unat (f8_capacity f)) (f8_data f) p1 (unat n1);
                let len = min (destlen - n1) (fifo8_num_used f1);
                if len \<noteq> 0
                then do { (p2, n2, f2) \<leftarrow> fifo8_peekpop_bufptr f1 len (if do_pop then 0 else n1) do_pop;
                          b2 \<leftarrow> agets (unat (f8_capacity f)) (f8_data f) p2 (unat n2);
                          Some (b1 @ b2, f2) }
                else Some (b1, f1) })"

definition fifo8_pop_buf :: "fifo8 \<Rightarrow> u32 \<Rightarrow> (u8 list \<times> fifo8) option" where
  "fifo8_pop_buf f destlen = fifo8_peekpop_buf f destlen True"

definition fifo8_peek_buf :: "fifo8 \<Rightarrow> u32 \<Rightarrow> (u8 list \<times> fifo8) option" where
  "fifo8_peek_buf f destlen = fifo8_peekpop_buf f destlen False"

definition fifo8_drop :: "fifo8 \<Rightarrow> u32 \<Rightarrow> fifo8 option" where
  "fifo8_drop f len =
     do { (b, f') \<leftarrow> fifo8_pop_buf f len;
          cassert (len - of_nat (length b) = 0);
          Some f' }"

section \<open>The contract of a bounded FIFO\<close>

locale bounded_fifo =
  fixes inv :: "'q \<Rightarrow> bool"
    and items :: "'q \<Rightarrow> 'a list"
    and room :: "'q \<Rightarrow> nat"
    and push :: "'q \<Rightarrow> 'a \<Rightarrow> 'q option"
    and pop :: "'q \<Rightarrow> ('a \<times> 'q) option"
  assumes push_law: "inv q \<Longrightarrow> 0 < room q \<Longrightarrow>
      \<exists>q'. push q x = Some q' \<and> inv q' \<and> items q' = items q @ [x] \<and> Suc (room q') = room q"
    and pop_law: "inv q \<Longrightarrow> items q = x # xs \<Longrightarrow>
      \<exists>q'. pop q = Some (x, q') \<and> inv q' \<and> items q' = xs \<and> room q' = Suc (room q)"
begin

fun pushes :: "'q \<Rightarrow> 'a list \<Rightarrow> 'q option" where
  "pushes q [] = Some q"
| "pushes q (x # xs) = push q x \<bind> (\<lambda>q'. pushes q' xs)"

fun pops :: "'q \<Rightarrow> nat \<Rightarrow> ('a list \<times> 'q) option" where
  "pops q 0 = Some ([], q)"
| "pops q (Suc n) = do { (x, q1) \<leftarrow> pop q; (xs, q2) \<leftarrow> pops q1 n; Some (x # xs, q2) }"

lemma pushes_law:
  "inv q \<Longrightarrow> length xs \<le> room q \<Longrightarrow>
     \<exists>q'. pushes q xs = Some q' \<and> inv q' \<and> items q' = items q @ xs \<and> room q' + length xs = room q"
proof (induction xs arbitrary: q)
  case Nil
  then show ?case by simp
next
  case (Cons x xs)
  then obtain q1 where 1: "push q x = Some q1" "inv q1" "items q1 = items q @ [x]" "Suc (room q1) = room q"
    using push_law [of q x] by auto
  with Cons.prems have "length xs \<le> room q1" by simp
  from Cons.IH [OF 1(2) this] 1 show ?case by auto
qed

lemma pops_law:
  "inv q \<Longrightarrow> items q = xs @ ys \<Longrightarrow>
     \<exists>q'. pops q (length xs) = Some (xs, q') \<and> inv q' \<and> items q' = ys \<and> room q' = room q + length xs"
proof (induction xs arbitrary: q)
  case Nil
  then show ?case by simp
next
  case (Cons x xs)
  then obtain q1 where 1: "pop q = Some (x, q1)" "inv q1" "items q1 = xs @ ys" "room q1 = Suc (room q)"
    using pop_law [of q x "xs @ ys"] by auto
  from Cons.IH [OF 1(2,3)] 1 show ?case by auto
qed

lemma fifo_order:
  assumes "inv q" "length xs \<le> room q"
  shows "\<exists>q1 q2. pushes q xs = Some q1 \<and> pops q1 (length (items q @ xs)) = Some (items q @ xs, q2) \<and> items q2 = []"
proof -
  from pushes_law [OF assms] obtain q1 where
    1: "pushes q xs = Some q1" "inv q1" "items q1 = items q @ xs" by blast
  from pops_law [OF 1(2), of "items q @ xs" "[]"] 1(3) have
    "\<exists>q2. pops q1 (length (items q @ xs)) = Some (items q @ xs, q2) \<and> items q2 = []" by auto
  with 1(1) show ?thesis by blast
qed

end

section \<open>The ring refines a list of bytes\<close>

definition fifo8_inv :: "fifo8 \<Rightarrow> bool" where
  "fifo8_inv f = (unat (f8_capacity f) \<le> 2 ^ 31 \<and> unat (f8_head f) < unat (f8_capacity f)
     \<and> unat (f8_num f) \<le> unat (f8_capacity f))"

definition fifo8_items :: "fifo8 \<Rightarrow> u8 list" where
  "fifo8_items f =
     map (\<lambda>i. f8_data f ((unat (f8_head f) + i) mod unat (f8_capacity f))) [0 ..< unat (f8_num f)]"

definition fifo8_room :: "fifo8 \<Rightarrow> nat" where
  "fifo8_room f = unat (f8_capacity f) - unat (f8_num f)"

lemma ring_inj:
  fixes h i j n :: nat
  assumes "(h + i) mod n = (h + j) mod n" "i < n" "j < n"
  shows "i = j"
proof -
  have *: "x = y" if "(h + x) mod n = (h + y) mod n" "y < n" "x \<le> y" for x y
    using that mod_eq_dvd_iff_nat [of "h + x" "h + y" n] dvd_imp_le [of n "y - x"]
    by (cases "x = y") auto
  show ?thesis
    using * [of i j] * [of j i] assms by (cases "i \<le> j") auto
qed

lemma length_fifo8_items [simp]: "length (fifo8_items f) = unat (f8_num f)"
  by (simp add: fifo8_items_def)

lemma nth_fifo8_items [simp]:
  "i < unat (f8_num f) \<Longrightarrow>
     fifo8_items f ! i = f8_data f ((unat (f8_head f) + i) mod unat (f8_capacity f))"
  by (simp add: fifo8_items_def)

lemma umod_ring:
  assumes "unat n \<le> 2 ^ 31" "unat h < unat n" "unat i \<le> unat n"
  shows "\<exists>k. umod (h + i) n = Some k \<and> unat k = (unat h + unat i) mod unat n \<and> unat k < unat n"
proof -
  have "unat (h + i) = unat h + unat i"
    using assms by (intro unat_add_small) simp
  moreover have "n \<noteq> 0" using assms by auto
  ultimately show ?thesis
    using assms by (simp add: umod_def unat_mod_word)
qed

lemma fifo8_push_items:
  assumes "fifo8_inv f" "0 < fifo8_room f"
  shows "\<exists>f'. fifo8_push f d = Some f' \<and> fifo8_inv f' \<and> fifo8_items f' = fifo8_items f @ [d]
     \<and> Suc (fifo8_room f') = fifo8_room f \<and> f8_capacity f' = f8_capacity f"
proof -
  let ?n = "unat (f8_capacity f)" and ?h = "unat (f8_head f)" and ?m = "unat (f8_num f)"
  have inv: "?n \<le> 2 ^ 31" "?h < ?n" "?m < ?n"
    using assms by (auto simp: fifo8_inv_def fifo8_room_def)
  obtain k where k: "umod (f8_head f + f8_num f) (f8_capacity f) = Some k"
    "unat k = (?h + ?m) mod ?n" "unat k < ?n"
    using umod_ring [of "f8_capacity f" "f8_head f" "f8_num f"] inv by auto
  have m1: "unat (f8_num f + 1) = ?m + 1"
    using inv by (intro unat_Suc_word) simp
  define f' where "f' = f\<lparr>f8_data := (f8_data f)(unat k := d), f8_num := f8_num f + 1\<rparr>"
  have run: "fifo8_push f d = Some f'"
    using inv k by (simp add: fifo8_push_def f'_def word_less_nat_alt)
  have inv': "fifo8_inv f'"
    using inv m1 by (simp add: fifo8_inv_def f'_def)
  have "fifo8_items f' = fifo8_items f @ [d]"
  proof (rule nth_equalityI)
    fix i assume "i < length (fifo8_items f')"
    then have "i < ?m + 1" by (simp add: f'_def m1)
    then show "fifo8_items f' ! i = (fifo8_items f @ [d]) ! i"
      using inv k(2) m1 ring_inj [of ?h i ?n ?m] by (cases "i = ?m") (auto simp: f'_def nth_append)
  qed (simp add: f'_def m1)
  with run inv' show ?thesis
    using inv m1 by (auto simp: fifo8_room_def f'_def)
qed

text \<open>The head moved past \<open>k\<close> queued bytes.\<close>

lemma fifo8_advance:
  assumes "fifo8_inv f" "unat n \<le> unat (f8_num f)"
    and "unat h = (unat (f8_head f) + unat n) mod unat (f8_capacity f)"
  shows "fifo8_inv (f\<lparr>f8_head := h, f8_num := f8_num f - n\<rparr>)"
    and "fifo8_items (f\<lparr>f8_head := h, f8_num := f8_num f - n\<rparr>) = drop (unat n) (fifo8_items f)"
    and "unat (f8_num f - n) = unat (f8_num f) - unat n"
proof -
  show m: "unat (f8_num f - n) = unat (f8_num f) - unat n"
    using assms(2) by (intro unat_sub_le) (simp add: word_le_nat_alt)
  show "fifo8_inv (f\<lparr>f8_head := h, f8_num := f8_num f - n\<rparr>)"
    using assms m by (auto simp: fifo8_inv_def)
  show "fifo8_items (f\<lparr>f8_head := h, f8_num := f8_num f - n\<rparr>) = drop (unat n) (fifo8_items f)"
    using m assms(2,3) by (intro nth_equalityI) (auto simp: mod_add_left_eq add.assoc)
qed

lemma fifo8_pop_items:
  assumes "fifo8_inv f" "fifo8_items f = x # xs"
  shows "\<exists>f'. fifo8_pop f = Some (x, f') \<and> fifo8_inv f' \<and> fifo8_items f' = xs
     \<and> fifo8_room f' = Suc (fifo8_room f) \<and> f8_capacity f' = f8_capacity f"
proof -
  let ?n = "unat (f8_capacity f)" and ?h = "unat (f8_head f)" and ?m = "unat (f8_num f)"
  have m: "?m = Suc (length xs)"
    using assms(2) length_fifo8_items [of f] by simp
  have inv: "?n \<le> 2 ^ 31" "?h < ?n" "?m \<le> ?n"
    using assms(1) by (auto simp: fifo8_inv_def)
  obtain k where k: "umod (f8_head f + 1) (f8_capacity f) = Some k" "unat k = (?h + unat (1 :: u32)) mod ?n"
    using umod_ring [of "f8_capacity f" "f8_head f" 1] inv m by auto
  have "x = f8_data f ?h"
    using nth_fifo8_items [of 0 f] assms(2) m inv by simp
  then have run: "fifo8_pop f = Some (x, f\<lparr>f8_head := k, f8_num := f8_num f - 1\<rparr>)"
    using inv k(1) m by (simp add: fifo8_pop_def word_less_nat_alt)
  have "unat (1 :: u32) \<le> ?m" using m by simp
  from fifo8_advance [OF assms(1) this k(2)] run m inv assms(2) show ?thesis
    by (auto simp: fifo8_room_def)
qed

interpretation fifo8: bounded_fifo fifo8_inv fifo8_items fifo8_room fifo8_push fifo8_pop
proof unfold_locales
  fix q d assume "fifo8_inv q" "0 < fifo8_room q"
  from fifo8_push_items [OF this]
  show "\<exists>q'. fifo8_push q d = Some q' \<and> fifo8_inv q' \<and> fifo8_items q' = fifo8_items q @ [d]
      \<and> Suc (fifo8_room q') = fifo8_room q" by blast
next
  fix q x xs assume "fifo8_inv q" "fifo8_items q = x # xs"
  from fifo8_pop_items [OF this]
  show "\<exists>q'. fifo8_pop q = Some (x, q') \<and> fifo8_inv q' \<and> fifo8_items q' = xs
      \<and> fifo8_room q' = Suc (fifo8_room q)" by blast
qed

lemma fifo8_create_inv:
  "0 < capacity \<Longrightarrow> unat capacity \<le> 2 ^ 31 \<Longrightarrow>
     fifo8_inv (fifo8_create g capacity) \<and> fifo8_items (fifo8_create g capacity) = []
     \<and> f8_capacity (fifo8_create g capacity) = capacity"
  by (simp add: fifo8_create_def fifo8_reset_def fifo8_inv_def fifo8_items_def word_less_nat_alt)

lemma fifo8_reset_inv:
  "fifo8_inv f \<Longrightarrow> fifo8_inv (fifo8_reset f) \<and> fifo8_items (fifo8_reset f) = []"
  by (auto simp: fifo8_reset_def fifo8_inv_def fifo8_items_def)

lemma fifo8_is_empty_items: "fifo8_is_empty f \<longleftrightarrow> fifo8_items f = []"
  by (simp add: fifo8_is_empty_def fifo8_items_def unat_eq_0)

lemma fifo8_is_full_room: "fifo8_inv f \<Longrightarrow> fifo8_is_full f \<longleftrightarrow> fifo8_room f = 0"
  by (auto simp: fifo8_is_full_def fifo8_inv_def fifo8_room_def word_unat_eq_iff)

text \<open>A window of the queue that does not wrap is a window of the buffer.\<close>

lemma fifo8_window:
  assumes "s + n \<le> unat (f8_num f)" "(unat (f8_head f) + s) mod unat (f8_capacity f) + n \<le> unat (f8_capacity f)"
  shows "slice (f8_data f) ((unat (f8_head f) + s) mod unat (f8_capacity f)) n
       = take n (drop s (fifo8_items f))"
proof (rule nth_equalityI)
  let ?p = "(unat (f8_head f) + s) mod unat (f8_capacity f)"
  fix i assume "i < length (slice (f8_data f) ?p n)"
  then have i: "i < n" by simp
  then have "(unat (f8_head f) + (s + i)) mod unat (f8_capacity f) = ?p + i"
    using assms(2) mod_add_left_eq [of "unat (f8_head f) + s" "unat (f8_capacity f)" i]
    by (simp add: add.assoc)
  then show "slice (f8_data f) ?p n ! i = take n (drop s (fifo8_items f)) ! i"
    using i assms(1) by simp
qed (use assms in simp)

text \<open>
  A pointer into the buffer reaches to the end of the queued window or of the buffer,
  whichever is first.
\<close>

lemma fifo8_bufptr_run:
  assumes "fifo8_inv f" "0 < unat mx" "unat skip + unat mx \<le> unat (f8_num f)"
  defines "p \<equiv> (unat (f8_head f) + unat skip) mod unat (f8_capacity f)"
  shows "\<exists>n h. fifo8_peekpop_bufptr f mx skip do_pop =
        Some (p, n, if do_pop then f\<lparr>f8_head := h, f8_num := f8_num f - n\<rparr> else f)
     \<and> unat n = min (unat (f8_capacity f) - p) (unat mx)
     \<and> unat h = (p + unat n) mod unat (f8_capacity f)"
proof -
  let ?n = "unat (f8_capacity f)" and ?h = "unat (f8_head f)" and ?m = "unat (f8_num f)"
  have inv: "?n \<le> 2 ^ 31" "?h < ?n" "?m \<le> ?n"
    using assms(1) by (auto simp: fifo8_inv_def)
  obtain k where k: "umod (f8_head f + skip) (f8_capacity f) = Some k" "unat k = p" "p < ?n"
    using umod_ring [of "f8_capacity f" "f8_head f" skip] inv assms(3) by (auto simp: p_def)
  define n where "n = min (f8_capacity f - k) mx"
  have n: "unat n = min (?n - p) (unat mx)"
    using k by (auto simp: n_def min_def word_le_nat_alt unat_sub_le)
  then have "unat n \<le> ?n" by simp
  then obtain h where h: "umod (k + n) (f8_capacity f) = Some h" "unat h = (p + unat n) mod ?n"
    using umod_ring [of "f8_capacity f" k n] inv k by auto
  show ?thesis
    using k h n assms(2,3)
    by (intro exI [of _ n] exI [of _ h])
      (simp add: fifo8_peekpop_bufptr_def word_less_nat_alt word_le_nat_alt flip: n_def)
qed


lemma fifo8_pop_bufptr_items:
  assumes "fifo8_inv f" "0 < unat mx" "unat mx \<le> unat (f8_num f)"
  shows "\<exists>n f'. fifo8_pop_bufptr f mx = Some (unat (f8_head f), n, f')
     \<and> unat n = min (unat (f8_capacity f) - unat (f8_head f)) (unat mx)
     \<and> slice (f8_data f) (unat (f8_head f)) (unat n) = take (unat n) (fifo8_items f)
     \<and> fifo8_inv f' \<and> f8_data f' = f8_data f \<and> f8_capacity f' = f8_capacity f
     \<and> unat (f8_num f') = unat (f8_num f) - unat n
     \<and> fifo8_items f' = drop (unat n) (fifo8_items f)
     \<and> unat (f8_head f') = (unat (f8_head f) + unat n) mod unat (f8_capacity f)"
proof -
  let ?n = "unat (f8_capacity f)" and ?h = "unat (f8_head f)"
  have h: "?h < ?n" using assms(1) by (simp add: fifo8_inv_def)
  from fifo8_bufptr_run [OF assms(1,2), of 0 True] assms(3) h
  obtain n k where run: "fifo8_pop_bufptr f mx = Some (?h, n, f\<lparr>f8_head := k, f8_num := f8_num f - n\<rparr>)"
    and n: "unat n = min (?n - ?h) (unat mx)" and k: "unat k = (?h + unat n) mod ?n"
    by (auto simp: fifo8_pop_bufptr_def)
  have nm: "unat n \<le> unat (f8_num f)" using n assms(3) by simp
  have "slice (f8_data f) ?h (unat n) = take (unat n) (fifo8_items f)"
    using fifo8_window [of 0 "unat n" f] n nm h by simp
  with run n k fifo8_advance [OF assms(1) nm k] show ?thesis by auto
qed

text \<open>A second pointer is only needed when the first reached the end of the buffer.\<close>

lemma fifo8_pop_buf_items:
  assumes "fifo8_inv f" "unat len \<le> unat (f8_num f)"
  shows "\<exists>f'. fifo8_pop_buf f len = Some (take (unat len) (fifo8_items f), f')
     \<and> fifo8_inv f' \<and> fifo8_items f' = drop (unat len) (fifo8_items f)"
proof (cases "len = 0")
  case True
  with assms(1) show ?thesis by (simp add: fifo8_pop_buf_def fifo8_peekpop_buf_def)
next
  case False
  let ?n = "unat (f8_capacity f)" and ?h = "unat (f8_head f)" and ?q = "fifo8_items f"
  have inv: "?h < ?n" "unat (f8_num f) \<le> ?n" using assms(1) by (auto simp: fifo8_inv_def)
  have pos: "0 < unat len" using False by (simp add: unat_gt_0)
  from fifo8_pop_bufptr_items [OF assms(1) pos assms(2)] obtain n1 f1 where
    1: "fifo8_peekpop_bufptr f len 0 True = Some (?h, n1, f1)" "unat n1 = min (?n - ?h) (unat len)"
      "slice (f8_data f) ?h (unat n1) = take (unat n1) ?q" "fifo8_inv f1"
      "f8_data f1 = f8_data f" "f8_capacity f1 = f8_capacity f"
      "unat (f8_num f1) = unat (f8_num f) - unat n1" "fifo8_items f1 = drop (unat n1) ?q"
      "unat (f8_head f1) = (?h + unat n1) mod ?n"
    unfolding fifo8_pop_bufptr_def by blast
  have rest: "unat (len - n1) = unat len - unat n1"
    using 1(2) by (intro unat_sub_le) (simp add: word_le_nat_alt)
  then have le: "min (len - n1) (f8_num f1) = len - n1"
    using 1(7) assms(2) by (simp add: min_def word_le_nat_alt diff_le_mono)
  have w1: "agets ?n (f8_data f) ?h (unat n1) = Some (take (unat n1) ?q)"
    using 1(2,3) inv by (simp add: agets_def)
  show ?thesis
  proof (cases "len = n1")
    case True
    then show ?thesis
      using 1 w1 False by (simp add: fifo8_pop_buf_def fifo8_peekpop_buf_def)
  next
    case More: False
    then have pos1: "0 < unat (len - n1)" by (simp add: unat_gt_0)
    have "unat (len - n1) \<le> unat (f8_num f1)" using rest 1(7) assms(2) by simp
    from fifo8_pop_bufptr_items [OF 1(4) pos1 this] obtain n2 f2 where
      2: "fifo8_peekpop_bufptr f1 (len - n1) 0 True = Some (unat (f8_head f1), n2, f2)"
        "unat n2 = min (?n - unat (f8_head f1)) (unat (len - n1))"
        "slice (f8_data f) (unat (f8_head f1)) (unat n2) = take (unat n2) (drop (unat n1) ?q)"
        "fifo8_inv f2" "fifo8_items f2 = drop (unat n2) (drop (unat n1) ?q)"
      unfolding fifo8_pop_bufptr_def 1(5,6,8) by blast
    have "unat n1 = ?n - ?h" using 1(2) rest pos1 by auto
    then have "unat (f8_head f1) = 0" using 1(9) inv by simp
    then have n2: "unat n1 + unat n2 = unat len"
      and w2: "agets ?n (f8_data f) (unat (f8_head f1)) (unat n2) = Some (take (unat n2) (drop (unat n1) ?q))"
      using 2(2,3) rest inv assms(2) pos1 by (simp_all add: agets_def)
    have "take (unat n1) ?q @ take (unat n2) (drop (unat n1) ?q) = take (unat len) ?q"
      using take_add [of "unat n1" "unat n2" ?q] n2 by simp
    then show ?thesis
      using 1(1) 2(1,4,5) w1 w2 le More False n2
      by (simp add: fifo8_pop_buf_def fifo8_peekpop_buf_def fifo8_num_used_def add.commute)
  qed
qed

text \<open>
  Copying a block in two parts around the end of the buffer writes position \<open>j\<close> of the
  block at ring position \<open>j\<close> and leaves the rest of the buffer alone.
\<close>

definition ring_put :: "nat \<Rightarrow> 'a carray \<Rightarrow> nat \<Rightarrow> 'a list \<Rightarrow> 'a carray" where
  "ring_put n a start xs =
     (if start + length xs \<le> n then copy_in a start xs
      else copy_in (copy_in a start (take (n - start) xs)) 0 (drop (n - start) xs))"

lemma ring_put_at:
  assumes "start < n" "length xs \<le> n" "j < length xs"
  shows "ring_put n a start xs ((start + j) mod n) = xs ! j"
proof (cases "start + j < n")
  case True
  then show ?thesis using assms by (auto simp: ring_put_def copy_in_def)
next
  case False
  then have "(start + j) mod n = start + j - n" using assms by (simp add: mod_if)
  with False show ?thesis using assms by (auto simp: ring_put_def copy_in_def)
qed

lemma ring_put_other:
  assumes "start < n" "length xs \<le> j" "j < n"
  shows "ring_put n a start xs ((start + j) mod n) = a ((start + j) mod n)"
proof (cases "start + j < n")
  case True
  then show ?thesis using assms by (auto simp: ring_put_def copy_in_def)
next
  case False
  then have "(start + j) mod n = start + j - n" using assms by (simp add: mod_if)
  with False show ?thesis using assms by (auto simp: ring_put_def copy_in_def)
qed

lemma fifo8_push_all_run:
  assumes "fifo8_inv f" "unat num \<le> fifo8_room f" "unat num = length xs"
  shows "fifo8_push_all f xs num = Some (f\<lparr>f8_data := ring_put (unat (f8_capacity f)) (f8_data f)
       ((unat (f8_head f) + unat (f8_num f)) mod unat (f8_capacity f)) xs, f8_num := f8_num f + num\<rparr>)
     \<and> unat (f8_num f + num) = unat (f8_num f) + length xs"
proof -
  let ?n = "unat (f8_capacity f)" and ?h = "unat (f8_head f)" and ?m = "unat (f8_num f)"
  have inv: "?n \<le> 2 ^ 31" "?h < ?n" "?m + length xs \<le> ?n"
    using assms by (auto simp: fifo8_inv_def fifo8_room_def)
  have m: "unat (f8_num f + num) = ?m + length xs"
    using inv assms(3) unat_add_small [of "f8_num f" num] by simp
  obtain k where k: "umod (f8_head f + f8_num f) (f8_capacity f) = Some k"
    "unat k = (?h + ?m) mod ?n" "unat k < ?n"
    using umod_ring [of "f8_capacity f" "f8_head f" "f8_num f"] inv by auto
  have s: "unat (k + num) = unat k + length xs"
    using inv k(3) assms(3) unat_add_small [of k num] by simp
  have a: "unat (f8_capacity f - k) = ?n - unat k"
    using k(3) by (intro unat_sub_le) (simp add: word_le_nat_alt)
  have r: "unat (num - (f8_capacity f - k)) = length xs - (?n - unat k)" if "\<not> unat k + length xs \<le> ?n"
    using that a assms(3) unat_sub_le [of "f8_capacity f - k" num] by (simp add: word_le_nat_alt)
  show ?thesis
    using k(1,3) m inv assms(3) s a r
    by (simp add: fifo8_push_all_def word_le_nat_alt ring_put_def flip: k(2))
qed

lemma fifo8_push_all_items:
  assumes "fifo8_inv f" "unat num \<le> fifo8_room f" "unat num = length xs"
  shows "\<exists>f'. fifo8_push_all f xs num = Some f' \<and> fifo8_inv f' \<and> fifo8_items f' = fifo8_items f @ xs
     \<and> f8_capacity f' = f8_capacity f"
proof -
  let ?n = "unat (f8_capacity f)" and ?h = "unat (f8_head f)" and ?m = "unat (f8_num f)"
  define a where "a = ring_put ?n (f8_data f) ((?h + ?m) mod ?n) xs"
  define f' where "f' = f\<lparr>f8_data := a, f8_num := f8_num f + num\<rparr>"
  note run = fifo8_push_all_run [OF assms, folded a_def f'_def]
  have inv: "0 < ?n" "?m + length xs \<le> ?n" "?m \<le> ?n"
    using assms by (auto simp: fifo8_inv_def fifo8_room_def)
  have new: "a ((?h + (?m + j)) mod ?n) = xs ! j" if "j < length xs" for j
    using that inv ring_put_at [of "(?h + ?m) mod ?n" ?n xs j "f8_data f"]
    by (simp add: a_def mod_add_left_eq add.assoc)
  have old: "a ((?h + i) mod ?n) = f8_data f ((?h + i) mod ?n)" if "i < ?m" for i
  proof -
    have "(?h + ?m + (?n - ?m + i)) mod ?n = (?h + i) mod ?n"
      using inv that mod_add_self2 [of "?h + i" ?n] by (simp add: ac_simps)
    moreover have "((?h + ?m) mod ?n + (?n - ?m + i)) mod ?n = (?h + ?m + (?n - ?m + i)) mod ?n"
      by (simp only: mod_add_left_eq)
    ultimately show ?thesis
      using inv that ring_put_other [of "(?h + ?m) mod ?n" ?n xs "?n - ?m + i" "f8_data f"]
      by (simp add: a_def)
  qed
  have "fifo8_items f' = fifo8_items f @ xs"
  proof (rule nth_equalityI)
    fix i assume "i < length (fifo8_items f')"
    then have "i < ?m + length xs" using run by (simp add: f'_def)
    then show "fifo8_items f' ! i = (fifo8_items f @ xs) ! i"
      using run old [of i] new [of "i - ?m"] by (auto simp: f'_def nth_append)
  qed (use run in \<open>simp add: f'_def\<close>)
  moreover have "fifo8_inv f'"
    using assms(1) run inv by (simp add: fifo8_inv_def f'_def)
  ultimately show ?thesis using run by (auto simp: f'_def)
qed

text \<open>Peeking copies the same bytes and leaves the FIFO as it is.\<close>

lemma fifo8_peek_buf_items:
  assumes "fifo8_inv f" "unat len \<le> unat (f8_num f)"
  shows "fifo8_peek_buf f len = Some (take (unat len) (fifo8_items f), f)"
proof (cases "len = 0")
  case True
  then show ?thesis by (simp add: fifo8_peek_buf_def fifo8_peekpop_buf_def)
next
  case False
  let ?n = "unat (f8_capacity f)" and ?h = "unat (f8_head f)" and ?q = "fifo8_items f"
  have inv: "?h < ?n" "unat (f8_num f) \<le> ?n" using assms(1) by (auto simp: fifo8_inv_def)
  have pos: "0 < unat len" using False by (simp add: unat_gt_0)
  from fifo8_bufptr_run [OF assms(1) pos, of 0 False] assms(2) inv obtain n1 where
    1: "fifo8_peekpop_bufptr f len 0 False = Some (?h, n1, f)" "unat n1 = min (?n - ?h) (unat len)"
    by auto
  have w1: "agets ?n (f8_data f) ?h (unat n1) = Some (take (unat n1) ?q)"
    using fifo8_window [of 0 "unat n1" f] 1(2) inv assms(2) by (simp add: agets_def)
  have rest: "unat (len - n1) = unat len - unat n1"
    using 1(2) by (intro unat_sub_le) (simp add: word_le_nat_alt)
  have "unat (len - n1) \<le> unat (f8_num f)" using rest assms(2) by linarith
  then have le: "min (len - n1) (f8_num f) = len - n1"
    by (simp add: min_def word_le_nat_alt)
  show ?thesis
  proof (cases "len = n1")
    case True
    then show ?thesis
      using 1 w1 False by (simp add: fifo8_peek_buf_def fifo8_peekpop_buf_def)
  next
    case More: False
    then have pos1: "0 < unat (len - n1)" by (simp add: unat_gt_0)
    have n1: "unat n1 = ?n - ?h" using 1(2) rest pos1 by auto
    have p: "(?h + unat n1) mod ?n = 0" using n1 inv by simp
    from fifo8_bufptr_run [OF assms(1) pos1, of n1 False] rest 1(2) assms(2) p obtain n2 where
      2: "fifo8_peekpop_bufptr f (len - n1) n1 False = Some (0, n2, f)" "unat n2 = min ?n (unat len - unat n1)"
      by auto
    have n2: "unat n1 + unat n2 = unat len" using 2(2) 1(2) inv assms(2) by simp
    then have w2: "agets ?n (f8_data f) 0 (unat n2) = Some (take (unat n2) (drop (unat n1) ?q))"
      using fifo8_window [of "unat n1" "unat n2" f] p 2(2) assms(2) by (simp add: agets_def)
    show ?thesis
      using 1(1) 2(1) w1 w2 le More False n2 take_add [of "unat n1" "unat n2" ?q]
      by (simp add: fifo8_peek_buf_def fifo8_peekpop_buf_def fifo8_num_used_def)
  qed
qed

lemma fifo8_drop_items:
  assumes "fifo8_inv f" "unat len \<le> unat (f8_num f)"
  shows "\<exists>f'. fifo8_drop f len = Some f' \<and> fifo8_inv f' \<and> fifo8_items f' = drop (unat len) (fifo8_items f)"
  using fifo8_pop_buf_items [OF assms] assms(2) by (auto simp: fifo8_drop_def min_absorb1)

text \<open>
  C31. The ring buffer is a bounded queue: pushing a block of bytes (which the code copies
  in up to two parts around the end of the buffer) and popping everything that is queued
  returns exactly what was queued before followed by the block, in order, and leaves
  the FIFO empty; peeking first does not disturb it.
\<close>

theorem fifo8_block_roundtrip:
  assumes "fifo8_inv f" "length xs \<le> fifo8_room f"
  shows "\<exists>f1 f2. fifo8_push_all f xs (of_nat (length xs)) = Some f1
     \<and> fifo8_peek_buf f1 (fifo8_num_used f1) = Some (fifo8_items f @ xs, f1)
     \<and> fifo8_pop_buf f1 (fifo8_num_used f1) = Some (fifo8_items f @ xs, f2)
     \<and> fifo8_inv f2 \<and> fifo8_is_empty f2"
proof -
  have "length xs < 2 ^ 32"
    using assms by (auto simp: fifo8_inv_def fifo8_room_def)
  then have n: "unat (of_nat (length xs) :: u32) = length xs"
    by (simp add: unat_of_nat)
  from fifo8_push_all_items [OF assms(1) _ n] assms(2) n obtain f1 where
    1: "fifo8_push_all f xs (of_nat (length xs)) = Some f1" "fifo8_inv f1"
      "fifo8_items f1 = fifo8_items f @ xs"
    by auto
  have u: "unat (fifo8_num_used f1) = length (fifo8_items f1)" "unat (fifo8_num_used f1) \<le> unat (f8_num f1)"
    by (simp_all add: fifo8_num_used_def)
  from fifo8_peek_buf_items [OF 1(2) u(2)] fifo8_pop_buf_items [OF 1(2) u(2)] 1 u(1)
  show ?thesis by (auto simp: fifo8_is_empty_items simp del: length_fifo8_items)
qed

text \<open>A four-byte FIFO with two bytes queued across its end.\<close>

definition fifo8_sample :: fifo8 where
  "fifo8_sample = \<lparr>f8_data = (\<lambda>_. 0)(3 := 0x11, 0 := 0x22), f8_capacity = 4, f8_head = 3, f8_num = 2\<rparr>"

theorem fifo8_block_roundtrip_witness:
  "\<exists>f1 f2. fifo8_push_all fifo8_sample [0x33, 0x44] (of_nat 2) = Some f1
     \<and> fifo8_pop_buf f1 (fifo8_num_used f1) = Some ([0x11, 0x22, 0x33, 0x44], f2)
     \<and> fifo8_is_empty f2"
proof -
  have "fifo8_items fifo8_sample = [0x11, 0x22]"
    by (simp add: fifo8_items_def fifo8_sample_def upt_rec)
  moreover have "fifo8_inv fifo8_sample" "length [0x33 :: u8, 0x44] \<le> fifo8_room fifo8_sample"
    by (simp_all add: fifo8_inv_def fifo8_room_def fifo8_sample_def)
  ultimately show ?thesis
    using fifo8_block_roundtrip [of fifo8_sample "[0x33, 0x44]"] by auto
qed

end
