(* ===== verification/SSI.thy ===== *)
theory SSI
  imports Prelude
begin

text \<open>
  The synchronous serial bus of \<open>hw/ssi/ssi.c\<close>. A bus is the list of its children; a
  child carries its class (the functions the device implements), its chip select level
  and the state of its device. The device functions return \<open>None\<close> where the device
  would fail.
\<close>

datatype SSICSMode = SSI_CS_NONE | SSI_CS_LOW | SSI_CS_HIGH

record 'p ssi_class =
  ssc_transfer :: "'p \<Rightarrow> u32 \<Rightarrow> (u32 \<times> 'p) option"
  ssc_set_cs :: "('p \<Rightarrow> bool \<Rightarrow> 'p option) option"
  ssc_cs_polarity :: SSICSMode

record 'p ssi_peripheral =
  ssi_spc :: "'p ssi_class"
  ssi_cs :: bool
  ssi_dev :: 'p

definition ssi_cs_default :: "'p ssi_peripheral \<Rightarrow> nat \<Rightarrow> bool \<Rightarrow> 'p ssi_peripheral option" where
  "ssi_cs_default s n level =
     do { let cs = level;
          cassert (n = 0);
          s1 \<leftarrow> (if ssi_cs s \<noteq> cs
                then (case ssc_set_cs (ssi_spc s) of
                        None \<Rightarrow> Some s
                      | Some set_cs \<Rightarrow> map_option (\<lambda>d. s\<lparr>ssi_dev := d\<rparr>) (set_cs (ssi_dev s) cs))
                else Some s);
          Some (s1\<lparr>ssi_cs := cs\<rparr>) }"

definition ssi_transfer_raw_default :: "'p ssi_peripheral \<Rightarrow> u32 \<Rightarrow> (u32 \<times> 'p ssi_peripheral) option" where
  "ssi_transfer_raw_default dev val =
     (if (ssi_cs dev \<and> ssc_cs_polarity (ssi_spc dev) = SSI_CS_HIGH) \<or>
         (\<not> ssi_cs dev \<and> ssc_cs_polarity (ssi_spc dev) = SSI_CS_LOW) \<or>
         ssc_cs_polarity (ssi_spc dev) = SSI_CS_NONE
      then map_option (\<lambda>(r, d). (r, dev\<lparr>ssi_dev := d\<rparr>)) (ssc_transfer (ssi_spc dev) (ssi_dev dev) val)
      else Some (0, dev))"

fun ssi_transfer :: "'p ssi_peripheral list \<Rightarrow> u32 \<Rightarrow> (u32 \<times> 'p ssi_peripheral list) option" where
  "ssi_transfer [] val = Some (0, [])"
| "ssi_transfer (p # ps) val =
     do { (r1, p') \<leftarrow> ssi_transfer_raw_default p val;
          (r2, ps') \<leftarrow> ssi_transfer ps val;
          Some (r1 OR r2, p' # ps') }"

text \<open>A sequence of words clocked through the bus: the words received, in order.\<close>

fun ssi_exchange :: "'p ssi_peripheral list \<Rightarrow> u32 list \<Rightarrow> (u32 list \<times> 'p ssi_peripheral list) option" where
  "ssi_exchange bus [] = Some ([], bus)"
| "ssi_exchange bus (x # xs) =
     do { (y, bus1) \<leftarrow> ssi_transfer bus x; (ys, bus2) \<leftarrow> ssi_exchange bus1 xs; Some (y # ys, bus2) }"

lemma ssi_exchange_append:
  "ssi_exchange bus (xs @ ys) =
     do { (rx, bus1) \<leftarrow> ssi_exchange bus xs; (ry, bus2) \<leftarrow> ssi_exchange bus1 ys; Some (rx @ ry, bus2) }"
  by (induction xs arbitrary: bus) (auto split: Option.bind_split)

lemma ssi_exchange_length: "ssi_exchange bus xs = Some (ys, bus') \<Longrightarrow> length ys = length xs"
  by (induction xs arbitrary: bus ys) (auto simp: bind_eq_Some_conv)

section \<open>What a peripheral promises the bus\<close>

locale ssi_slave =
  fixes cls :: "'p ssi_class" and dev_inv :: "'p \<Rightarrow> bool"
  assumes transfer_total: "dev_inv d \<Longrightarrow> \<exists>r d'. ssc_transfer cls d val = Some (r, d') \<and> dev_inv d'"
    and set_cs_total: "dev_inv d \<Longrightarrow> ssc_set_cs cls = Some set_cs \<Longrightarrow> \<exists>d'. set_cs d lv = Some d' \<and> dev_inv d'"
begin

definition kid_ok :: "'p ssi_peripheral \<Rightarrow> bool" where
  "kid_ok p = (ssi_spc p = cls \<and> dev_inv (ssi_dev p))"

lemma raw_total: "kid_ok p \<Longrightarrow> \<exists>r p'. ssi_transfer_raw_default p val = Some (r, p') \<and> kid_ok p'"
  using transfer_total [of "ssi_dev p" val] by (auto simp: ssi_transfer_raw_default_def kid_ok_def)

lemma cs_total: "kid_ok p \<Longrightarrow> \<exists>p'. ssi_cs_default p 0 lv = Some p' \<and> kid_ok p' \<and> ssi_cs p' = lv"
  using set_cs_total [of "ssi_dev p" _ lv]
  by (cases "ssc_set_cs cls") (auto simp: ssi_cs_default_def kid_ok_def)

lemma bus_total:
  "list_all kid_ok bus \<Longrightarrow> \<exists>r bus'. ssi_transfer bus val = Some (r, bus') \<and> list_all kid_ok bus'"
proof (induction bus)
  case Nil
  then show ?case by simp
next
  case (Cons p bus)
  then show ?case using raw_total [of p val] by fastforce
qed

lemma exchange_total:
  "list_all kid_ok bus \<Longrightarrow> \<exists>ys bus'. ssi_exchange bus xs = Some (ys, bus') \<and> list_all kid_ok bus'"
proof (induction xs arbitrary: bus)
  case Nil
  then show ?case by simp
next
  case (Cons x xs)
  then show ?case using bus_total [of bus x] by fastforce
qed

end

end
