(* ===== verification/SPI.thy ===== *)
theory SPI
  imports SSI Fifo8
begin

text \<open>
  The SPI controller of \<open>hw/arm/ipod_touch_spi.c\<close> with its two byte FIFOs and the bus it
  masters. \<open>spi_irq\<close> is the level last driven on the interrupt line. The FIFO and
  register copies through \<open>memcpy\<close> are those of a little-endian host. Tracing is left
  out, and so is \<open>apple_spi_update_cs\<close>, which only traces.
\<close>

definition R_CTRL :: u64 where "R_CTRL = 0x000"
definition R_CTRL_RUN :: u32 where "R_CTRL_RUN = push_bit 0 1"
definition R_CTRL_TX_RESET :: u32 where "R_CTRL_TX_RESET = push_bit 2 1"
definition R_CTRL_RX_RESET :: u32 where "R_CTRL_RX_RESET = push_bit 3 1"
definition R_CFG :: u64 where "R_CFG = 0x004"
definition R_CFG_AGD :: u32 where "R_CFG_AGD = push_bit 0 1"
definition R_CFG_IE_RXREADY :: u32 where "R_CFG_IE_RXREADY = push_bit 7 1"
definition R_CFG_IE_TXEMPTY :: u32 where "R_CFG_IE_TXEMPTY = push_bit 8 1"
definition R_CFG_WORD_SIZE :: "u32 \<Rightarrow> u32" where "R_CFG_WORD_SIZE x = drop_bit 15 x AND 0x3"
definition R_CFG_IE_COMPLETE :: u32 where "R_CFG_IE_COMPLETE = push_bit 21 1"
definition R_STATUS :: u64 where "R_STATUS = 0x008"
definition R_STATUS_RXREADY :: u32 where "R_STATUS_RXREADY = push_bit 0 1"
definition R_STATUS_TXEMPTY :: u32 where "R_STATUS_TXEMPTY = push_bit 1 1"
definition R_STATUS_RXOVERFLOW :: u32 where "R_STATUS_RXOVERFLOW = push_bit 3 1"
definition R_STATUS_COMPLETE :: u32 where "R_STATUS_COMPLETE = push_bit 22 1"
definition R_STATUS_TXFIFO_SHIFT :: nat where "R_STATUS_TXFIFO_SHIFT = 6"
definition R_STATUS_RXFIFO_SHIFT :: nat where "R_STATUS_RXFIFO_SHIFT = 11"
definition R_PIN :: u64 where "R_PIN = 0x00c"
definition R_PIN_CS :: u32 where "R_PIN_CS = push_bit 1 1"
definition R_TXDATA :: u64 where "R_TXDATA = 0x010"
definition R_RXDATA :: u64 where "R_RXDATA = 0x020"
definition R_RXCNT :: u64 where "R_RXCNT = 0x034"
definition R_TXCNT :: u64 where "R_TXCNT = 0x04c"
definition R_FIFO_RX_DEPTH :: u32 where "R_FIFO_RX_DEPTH = 16"
definition SPI_MMIO_SIZE :: u64 where "SPI_MMIO_SIZE = 0x100"

lemmas spi_offsets = R_CTRL_def R_CFG_def R_STATUS_def R_PIN_def R_TXDATA_def R_RXDATA_def
  R_RXCNT_def R_TXCNT_def SPI_MMIO_SIZE_def

lemmas spi_flags = R_CTRL_RUN_def R_CTRL_TX_RESET_def R_CTRL_RX_RESET_def R_CFG_AGD_def
  R_CFG_IE_RXREADY_def R_CFG_IE_TXEMPTY_def R_CFG_IE_COMPLETE_def R_STATUS_RXREADY_def
  R_STATUS_TXEMPTY_def R_STATUS_RXOVERFLOW_def R_STATUS_COMPLETE_def

record 'p spi =
  spi_bus :: "'p ssi_peripheral list"
  spi_irq :: bool
  spi_last_irq :: u32
  spi_regs :: "u32 carray"
  spi_s5l8900 :: bool
  spi_rx_fifo :: fifo8
  spi_tx_fifo :: fifo8

text \<open>
  \<open>REG\<close>: the register at an offset. The offsets it is used with are constants below
  \<open>SPI_MMIO_SIZE\<close>; accesses at a guest's offset go through \<open>aget\<close> and \<open>aset\<close>.
\<close>

definition REG :: "'p spi \<Rightarrow> u64 \<Rightarrow> u32" where
  "REG s v = spi_regs s (unat (v div 4))"

definition REG_set :: "'p spi \<Rightarrow> u64 \<Rightarrow> u32 \<Rightarrow> 'p spi" where
  "REG_set s v x = s\<lparr>spi_regs := (spi_regs s)(unat (v div 4) := x)\<rparr>"

definition SPI_REGS :: nat where "SPI_REGS = unat (SPI_MMIO_SIZE div 4)"

definition apple_spi_word_size :: "'p spi \<Rightarrow> u32" where
  "apple_spi_word_size s =
     (let w = R_CFG_WORD_SIZE (REG s R_CFG) in
      if w = 0 then 1 else if w = 1 then 2 else if w = 2 then 4 else 1)"

definition apple_spi_update_xfer_tx :: "'p spi \<Rightarrow> 'p spi" where
  "apple_spi_update_xfer_tx s =
     (if fifo8_is_empty (spi_tx_fifo s) then REG_set s R_STATUS (REG s R_STATUS OR R_STATUS_TXEMPTY) else s)"

definition apple_spi_update_xfer_rx :: "'p spi \<Rightarrow> 'p spi" where
  "apple_spi_update_xfer_rx s =
     (if \<not> fifo8_is_empty (spi_rx_fifo s) then REG_set s R_STATUS (REG s R_STATUS OR R_STATUS_RXREADY) else s)"

text \<open>The status bits the configuration lets interrupt.\<close>

definition spi_irq_mask :: "'p spi \<Rightarrow> u32" where
  "spi_irq_mask s =
     (if REG s R_CFG AND R_CFG_IE_RXREADY \<noteq> 0 then R_STATUS_RXREADY else 0) OR
     (if REG s R_CFG AND R_CFG_IE_TXEMPTY \<noteq> 0 then R_STATUS_TXEMPTY else 0) OR
     (if REG s R_CFG AND R_CFG_IE_COMPLETE \<noteq> 0 then R_STATUS_COMPLETE else 0)"

definition apple_spi_update_irq :: "'p spi \<Rightarrow> 'p spi" where
  "apple_spi_update_irq s =
     (let irq = (if REG s R_STATUS AND spi_irq_mask s \<noteq> 0 then 1 else 0) in
      if irq \<noteq> spi_last_irq s then s\<lparr>spi_last_irq := irq, spi_irq := (irq \<noteq> 0)\<rparr> else s)"

definition apple_spi_cs_set :: "'p spi \<Rightarrow> bool \<Rightarrow> 'p spi" where
  "apple_spi_cs_set s level =
     (if level then REG_set s R_PIN (REG s R_PIN OR R_PIN_CS)
      else REG_set s R_PIN (REG s R_PIN AND NOT R_PIN_CS))"

section \<open>The transfer engine\<close>

text \<open>The body of the transmit loop.\<close>

definition spi_tx_body :: "'p spi \<Rightarrow> 'p spi option" where
  "spi_tx_body s =
     do { (tx, txf) \<leftarrow> fifo8_pop (spi_tx_fifo s);
          (rx, bus) \<leftarrow> ssi_transfer (spi_bus s) (ucast tx);
          let s1 = s\<lparr>spi_tx_fifo := txf, spi_bus := bus\<rparr>;
          let s2 = (if REG s1 R_TXCNT \<noteq> 0 then REG_set s1 R_TXCNT (REG s1 R_TXCNT - 1) else s1);
          let s3 = apple_spi_update_xfer_tx s2;
          if REG s3 R_RXCNT > 0 then
            (if fifo8_is_full (spi_rx_fifo s3)
             then Some (REG_set s3 R_STATUS (REG s3 R_STATUS OR R_STATUS_RXOVERFLOW))
             else do { rxf \<leftarrow> fifo8_push (spi_rx_fifo s3) (ucast rx);
                       let s4 = s3\<lparr>spi_rx_fifo := rxf\<rparr>;
                       let s5 = REG_set s4 R_RXCNT (REG s4 R_RXCNT - 1);
                       Some (apple_spi_update_xfer_rx s5) })
          else Some s3 }"

text \<open>The body of the receive loop, which clocks out sentinel bytes.\<close>

definition spi_rx_body :: "'p spi \<Rightarrow> 'p spi option" where
  "spi_rx_body s =
     do { (rx, bus) \<leftarrow> ssi_transfer (spi_bus s) 0xff;
          rxf \<leftarrow> fifo8_push (spi_rx_fifo s) (ucast rx);
          let s1 = s\<lparr>spi_bus := bus, spi_rx_fifo := rxf\<rparr>;
          let s2 = REG_set s1 R_RXCNT (REG s1 R_RXCNT - 1);
          Some (apple_spi_update_xfer_rx s2) }"

definition spi_tx_more :: "bool \<Rightarrow> 'p spi \<Rightarrow> bool" where
  "spi_tx_more drain_tx s = ((REG s R_TXCNT \<noteq> 0 \<or> drain_tx) \<and> \<not> fifo8_is_empty (spi_tx_fifo s))"

definition spi_rx_more :: "'p spi \<Rightarrow> bool" where
  "spi_rx_more s = (\<not> fifo8_is_full (spi_rx_fifo s) \<and> REG s R_RXCNT > 0 \<and> REG s R_CFG AND R_CFG_AGD \<noteq> 0)"

lemma REG_REG_set [simp]:
  "REG (REG_set s a v) b = (if unat (a div 4) = unat (b div 4) then v else REG s b)"
  by (simp add: REG_def REG_set_def)

lemma REG_set_frame [simp]:
  "spi_bus (REG_set s a v) = spi_bus s" "spi_irq (REG_set s a v) = spi_irq s"
  "spi_last_irq (REG_set s a v) = spi_last_irq s" "spi_s5l8900 (REG_set s a v) = spi_s5l8900 s"
  "spi_rx_fifo (REG_set s a v) = spi_rx_fifo s" "spi_tx_fifo (REG_set s a v) = spi_tx_fifo s"
  by (simp_all add: REG_set_def)

lemma REG_frame [simp]:
  "REG (s\<lparr>spi_bus := b\<rparr>) a = REG s a" "REG (s\<lparr>spi_irq := i\<rparr>) a = REG s a"
  "REG (s\<lparr>spi_last_irq := l\<rparr>) a = REG s a" "REG (s\<lparr>spi_rx_fifo := f\<rparr>) a = REG s a"
  "REG (s\<lparr>spi_tx_fifo := f\<rparr>) a = REG s a"
  by (simp_all add: REG_def)

lemma spi_update_xfer_frame [simp]:
  "spi_bus (apple_spi_update_xfer_tx s) = spi_bus s" "spi_bus (apple_spi_update_xfer_rx s) = spi_bus s"
  "spi_irq (apple_spi_update_xfer_tx s) = spi_irq s" "spi_irq (apple_spi_update_xfer_rx s) = spi_irq s"
  "spi_last_irq (apple_spi_update_xfer_tx s) = spi_last_irq s"
  "spi_last_irq (apple_spi_update_xfer_rx s) = spi_last_irq s"
  "spi_s5l8900 (apple_spi_update_xfer_tx s) = spi_s5l8900 s"
  "spi_s5l8900 (apple_spi_update_xfer_rx s) = spi_s5l8900 s"
  "spi_rx_fifo (apple_spi_update_xfer_tx s) = spi_rx_fifo s"
  "spi_rx_fifo (apple_spi_update_xfer_rx s) = spi_rx_fifo s"
  "spi_tx_fifo (apple_spi_update_xfer_tx s) = spi_tx_fifo s"
  "spi_tx_fifo (apple_spi_update_xfer_rx s) = spi_tx_fifo s"
  by (simp_all add: apple_spi_update_xfer_tx_def apple_spi_update_xfer_rx_def)

lemma spi_update_xfer_REG [simp]:
  "unat (a div 4) \<noteq> 2 \<Longrightarrow> REG (apple_spi_update_xfer_tx s) a = REG s a"
  "unat (a div 4) \<noteq> 2 \<Longrightarrow> REG (apple_spi_update_xfer_rx s) a = REG s a"
  by (auto simp: apple_spi_update_xfer_tx_def apple_spi_update_xfer_rx_def R_STATUS_def)

text \<open>Both loops end: a transmit turn takes a byte off its FIFO, a receive turn counts down.\<close>

lemma fifo8_pop_shrinks: "fifo8_pop f = Some (x, f') \<Longrightarrow> unat (f8_num f') < unat (f8_num f)"
  by (auto simp: fifo8_pop_def bind_eq_Some_conv cassert_Some_iff word_less_nat_alt unat_dec_word unat_gt_0)

lemma spi_tx_body_shrinks:
  "spi_tx_body s = Some s' \<Longrightarrow> unat (f8_num (spi_tx_fifo s')) < unat (f8_num (spi_tx_fifo s))"
  by (auto simp: spi_tx_body_def bind_eq_Some_conv Let_def dest!: fifo8_pop_shrinks split: if_splits)

lemma spi_rx_body_shrinks:
  "spi_rx_more s \<Longrightarrow> spi_rx_body s = Some s' \<Longrightarrow> unat (REG s' R_RXCNT) < unat (REG s R_RXCNT)"
  by (auto simp: spi_rx_body_def spi_rx_more_def bind_eq_Some_conv Let_def spi_offsets
      word_less_nat_alt unat_dec_word unat_gt_0)

function spi_tx_loop :: "bool \<Rightarrow> 'p spi \<Rightarrow> 'p spi option" where
  "spi_tx_loop drain_tx s =
     (if spi_tx_more drain_tx s
      then (case spi_tx_body s of None \<Rightarrow> None | Some s' \<Rightarrow> spi_tx_loop drain_tx s')
      else Some s)"
  by pat_completeness auto
termination
  by (relation "measure (\<lambda>(d, s). unat (f8_num (spi_tx_fifo s)))") (auto dest: spi_tx_body_shrinks)

function spi_rx_loop :: "'p spi \<Rightarrow> 'p spi option" where
  "spi_rx_loop s =
     (if spi_rx_more s
      then (case spi_rx_body s of None \<Rightarrow> None | Some s' \<Rightarrow> spi_rx_loop s')
      else Some s)"
  by pat_completeness auto
termination
  by (relation "measure (\<lambda>s. unat (REG s R_RXCNT))") (auto dest: spi_rx_body_shrinks)

declare spi_tx_loop.simps [simp del] spi_rx_loop.simps [simp del]

definition apple_spi_run :: "'p spi \<Rightarrow> 'p spi option" where
  "apple_spi_run s =
     (if REG s R_CTRL AND R_CTRL_RUN = 0 then Some s
      else let drain_tx = (spi_s5l8900 s \<and> \<not> fifo8_is_empty (spi_tx_fifo s)) in
      if REG s R_RXCNT = 0 \<and> REG s R_TXCNT = 0 \<and> \<not> drain_tx then Some s
      else do { let s1 = apple_spi_update_xfer_tx s;
                s2 \<leftarrow> spi_tx_loop drain_tx s1;
                s3 \<leftarrow> spi_rx_loop s2;
                Some (if REG s3 R_RXCNT = 0 \<and> REG s3 R_TXCNT = 0
                      then REG_set s3 R_STATUS (REG s3 R_STATUS OR R_STATUS_COMPLETE) else s3) })"

section \<open>The register interface\<close>

text \<open>The low bytes of a word overwritten by a copy, and its bytes as they are stored.\<close>

definition put_bytes :: "u32 \<Rightarrow> u8 list \<Rightarrow> u32" where
  "put_bytes r bs =
     (let b = (\<lambda>i. if i < length bs then bs ! i else byte_of r i) in le32 (b 0) (b 1) (b 2) (b 3))"

definition word_bytes :: "u32 \<Rightarrow> u8 list" where
  "word_bytes r = [byte_of r 0, byte_of r 1, byte_of r 2, byte_of r 3]"

definition spi_read_rxdata :: "'p spi \<Rightarrow> u32 \<Rightarrow> (u32 \<times> 'p spi \<times> bool) option" where
  "spi_read_rxdata s r =
     (if fifo8_is_empty (spi_rx_fifo s) then Some (0, s, True)
      else do { (p, num, rxf) \<leftarrow> fifo8_pop_bufptr (spi_rx_fifo s) (apple_spi_word_size s);
                bs \<leftarrow> agets (unat (f8_capacity rxf)) (f8_data rxf) p (unat num);
                cassert (unat num \<le> 4);
                Some (put_bytes r bs, s\<lparr>spi_rx_fifo := rxf\<rparr>, fifo8_is_empty rxf) })"

definition spi_status_counts :: "'p spi \<Rightarrow> u32" where
  "spi_status_counts s =
     (if spi_s5l8900 s
      then push_bit 4 (fifo8_num_used (spi_tx_fifo s)) OR push_bit 8 (fifo8_num_used (spi_rx_fifo s))
      else push_bit R_STATUS_TXFIFO_SHIFT (fifo8_num_used (spi_tx_fifo s)) OR
           push_bit R_STATUS_RXFIFO_SHIFT (fifo8_num_used (spi_rx_fifo s)))"

definition ipod_touch_spi_read :: "'p spi \<Rightarrow> u64 \<Rightarrow> (u64 \<times> 'p spi) option" where
  "ipod_touch_spi_read s addr =
     do { r \<leftarrow> aget SPI_REGS (spi_regs s) (unat (addr div 4));
          (r1, s1, run) \<leftarrow> (if addr = R_RXDATA then spi_read_rxdata s r
                           else if addr = R_STATUS then Some (r OR spi_status_counts s, s, False)
                           else Some (r, s, False));
          s2 \<leftarrow> (if run then apple_spi_run s1 else Some s1);
          Some (ucast r1, apple_spi_update_irq s2) }"

text \<open>The switch of the write handler: the value to store, the state, and whether to run.\<close>

definition spi_write_switch :: "'p spi \<Rightarrow> u64 \<Rightarrow> u32 \<Rightarrow> u32 \<Rightarrow> (u32 \<times> 'p spi \<times> bool) option" where
  "spi_write_switch s addr r old =
     (if addr = R_CTRL then
        let s1 = (if r AND R_CTRL_TX_RESET \<noteq> 0 then s\<lparr>spi_tx_fifo := fifo8_reset (spi_tx_fifo s)\<rparr> else s);
            s2 = (if r AND R_CTRL_RX_RESET \<noteq> 0 then s1\<lparr>spi_rx_fifo := fifo8_reset (spi_rx_fifo s1)\<rparr> else s1)
        in Some (r, s2, r AND R_CTRL_RUN \<noteq> 0 \<and>
             (REG s2 R_CFG AND R_CFG_AGD \<noteq> 0 \<or> \<not> fifo8_is_empty (spi_tx_fifo s2)))
      else if addr = R_STATUS then Some (old AND NOT r, s, True)
      else if addr = R_PIN then Some (r, s, False)
      else if R_TXDATA \<le> addr \<and> addr \<le> R_TXDATA + 3 then
        let word_size = apple_spi_word_size s in
        if fifo8_is_full (spi_tx_fifo s) \<or> fifo8_num_free (spi_tx_fifo s) < word_size then Some (r, s, False)
        else do { txf \<leftarrow> fifo8_push_all (spi_tx_fifo s) (take (unat word_size) (word_bytes r)) word_size;
                  Some (r, s\<lparr>spi_tx_fifo := txf\<rparr>, False) }
      else if addr = R_CFG then Some (r, s, True)
      else Some (r, s, False))"

definition ipod_touch_spi_write :: "'p spi \<Rightarrow> u64 \<Rightarrow> u64 \<Rightarrow> 'p spi option" where
  "ipod_touch_spi_write s addr data =
     do { old \<leftarrow> aget SPI_REGS (spi_regs s) (unat (addr div 4));
          (r, s1, run) \<leftarrow> spi_write_switch s addr (ucast data) old;
          regs \<leftarrow> aset SPI_REGS (spi_regs s1) (unat (addr div 4)) r;
          let s2 = s1\<lparr>spi_regs := regs\<rparr>;
          s3 \<leftarrow> (if run then apple_spi_run s2 else Some s2);
          let s4 = (if addr = R_STATUS \<and> \<not> spi_s5l8900 s3
                    then apple_spi_update_xfer_rx (apple_spi_update_xfer_tx s3) else s3);
          Some (apple_spi_update_irq s4) }"

definition ipod_touch_spi_reset :: "'p spi \<Rightarrow> 'p spi" where
  "ipod_touch_spi_reset s =
     s\<lparr>spi_regs := (\<lambda>_. 0), spi_tx_fifo := fifo8_reset (spi_tx_fifo s),
       spi_rx_fifo := fifo8_reset (spi_rx_fifo s), spi_last_irq := 0, spi_irq := False\<rparr>"

text \<open>
  The state \<open>realize\<close> sets up: the FIFOs at their depths over uninitialised memory, and
  the bus with the peripheral named by the board (none: an empty bus).
\<close>

definition ipod_touch_spi_realize ::
  "u8 carray \<Rightarrow> u8 carray \<Rightarrow> 'p ssi_peripheral list \<Rightarrow> bool \<Rightarrow> u32 \<Rightarrow> 'p spi" where
  "ipod_touch_spi_realize garbage_tx garbage_rx bus s5l8900 tx_fifo_depth =
     \<lparr>spi_bus = bus, spi_irq = False, spi_last_irq = 0, spi_regs = (\<lambda>_. 0), spi_s5l8900 = s5l8900,
      spi_rx_fifo = fifo8_create garbage_rx R_FIFO_RX_DEPTH,
      spi_tx_fifo = fifo8_create garbage_tx tx_fifo_depth\<rparr>"

text \<open>A restored state is refused or its line is driven.\<close>

definition ipod_touch_spi_post_load :: "'p spi \<Rightarrow> errno + 'p spi" where
  "ipod_touch_spi_post_load s =
     (if f8_head (spi_rx_fifo s) \<ge> f8_capacity (spi_rx_fifo s) \<or>
         f8_num (spi_rx_fifo s) > f8_capacity (spi_rx_fifo s) \<or>
         f8_head (spi_tx_fifo s) \<ge> f8_capacity (spi_tx_fifo s) \<or>
         f8_num (spi_tx_fifo s) > f8_capacity (spi_tx_fifo s)
      then Inl EINVAL else Inr (s\<lparr>spi_irq := (spi_last_irq s \<noteq> 0)\<rparr>))"

datatype spi_ext = SpiCsSet bool

fun spi_step :: "'p spi \<Rightarrow> spi_ext bus_event \<Rightarrow> ('p spi \<times> u64) option" where
  "spi_step s (MRead a) = map_option (\<lambda>(v, s'). (s', v)) (ipod_touch_spi_read s a)"
| "spi_step s (MWrite a v) = map_option (\<lambda>s'. (s', 0)) (ipod_touch_spi_write s a v)"
| "spi_step s DevReset = Some (ipod_touch_spi_reset s, 0)"
| "spi_step s (Ext (SpiCsSet l)) = Some (apple_spi_cs_set s l, 0)"

section \<open>Every access completes and the line follows the status\<close>

definition spi_fifos_ok :: "'p spi \<Rightarrow> bool" where
  "spi_fifos_ok s = (fifo8_inv (spi_rx_fifo s) \<and> fifo8_inv (spi_tx_fifo s))"

definition spi_shadow_ok :: "'p spi \<Rightarrow> bool" where
  "spi_shadow_ok s = (spi_last_irq s = (if spi_irq s then 1 else 0))"

definition spi_line_ok :: "'p spi \<Rightarrow> bool" where
  "spi_line_ok s = (spi_irq s = (REG s R_STATUS AND spi_irq_mask s \<noteq> 0) \<and> spi_shadow_ok s)"

text \<open>What the transfer engine leaves alone.\<close>

definition spi_keeps :: "'p spi \<Rightarrow> 'p spi \<Rightarrow> bool" where
  "spi_keeps s s' = (REG s' R_CFG = REG s R_CFG \<and> spi_irq s' = spi_irq s
     \<and> spi_last_irq s' = spi_last_irq s \<and> spi_s5l8900 s' = spi_s5l8900 s)"

lemma spi_keeps_refl [simp]: "spi_keeps s s"
  by (simp add: spi_keeps_def)

lemma spi_keeps_trans: "spi_keeps s1 s2 \<Longrightarrow> spi_keeps s2 s3 \<Longrightarrow> spi_keeps s1 s3"
  by (simp add: spi_keeps_def)

lemma spi_update_irq_line: "spi_shadow_ok s \<Longrightarrow> spi_line_ok (apple_spi_update_irq s)"
  by (simp add: spi_line_ok_def spi_shadow_ok_def apple_spi_update_irq_def spi_irq_mask_def Let_def)

lemma spi_update_irq_frame [simp]:
  "spi_bus (apple_spi_update_irq s) = spi_bus s" "spi_rx_fifo (apple_spi_update_irq s) = spi_rx_fifo s"
  "spi_tx_fifo (apple_spi_update_irq s) = spi_tx_fifo s" "REG (apple_spi_update_irq s) a = REG s a"
  by (simp_all add: apple_spi_update_irq_def Let_def)

lemma fifo8_push_not_full:
  assumes "fifo8_inv f" "\<not> fifo8_is_full f"
  shows "\<exists>f'. fifo8_push f d = Some f' \<and> fifo8_inv f' \<and> fifo8_items f' = fifo8_items f @ [d]
     \<and> Suc (fifo8_room f') = fifo8_room f"
  using fifo8_push_items [OF assms(1)] assms by (auto simp: fifo8_is_full_room)

lemma fifo8_pop_not_empty:
  assumes "fifo8_inv f" "\<not> fifo8_is_empty f"
  shows "\<exists>f'. fifo8_pop f = Some (hd (fifo8_items f), f') \<and> fifo8_inv f' \<and> fifo8_items f' = tl (fifo8_items f)"
  using fifo8_pop_items [OF assms(1), of "hd (fifo8_items f)" "tl (fifo8_items f)"] assms(2)
  by (auto simp: fifo8_is_empty_items)

text \<open>The accesses of a guest that keeps to 8-bit words (a reserved word size counts as 8 bits).\<close>

fun spi_byte_words :: "spi_ext bus_event \<Rightarrow> bool" where
  "spi_byte_words (MWrite a v) = (a < SPI_MMIO_SIZE \<and>
     (unat (a div 4) = 1 \<longrightarrow> R_CFG_WORD_SIZE (ucast v) = 0 \<or> R_CFG_WORD_SIZE (ucast v) = 3))"
| "spi_byte_words (MRead a) = (a < SPI_MMIO_SIZE)"
| "spi_byte_words _ = True"

context ssi_slave
begin

definition spi_ok :: "'p spi \<Rightarrow> bool" where
  "spi_ok s = (spi_fifos_ok s \<and> list_all kid_ok (spi_bus s))"

lemma tx_body_total:
  assumes "spi_ok s" "\<not> fifo8_is_empty (spi_tx_fifo s)"
  shows "\<exists>s'. spi_tx_body s = Some s' \<and> spi_ok s' \<and> spi_keeps s s'"
proof -
  from assms obtain txf where pop: "fifo8_pop (spi_tx_fifo s) = Some (hd (fifo8_items (spi_tx_fifo s)), txf)"
    "fifo8_inv txf"
    using fifo8_pop_not_empty by (auto simp: spi_ok_def spi_fifos_ok_def)
  from assms(1) obtain rx bus where
    bus: "ssi_transfer (spi_bus s) (ucast (hd (fifo8_items (spi_tx_fifo s)))) = Some (rx, bus)"
      "list_all kid_ok bus"
    using bus_total [of "spi_bus s" "ucast (hd (fifo8_items (spi_tx_fifo s)))"] by (auto simp: spi_ok_def)
  show ?thesis
  proof (cases "fifo8_is_full (spi_rx_fifo s)")
    case True
    then show ?thesis
      using assms(1) pop bus by (auto simp: spi_tx_body_def Let_def spi_ok_def spi_fifos_ok_def spi_keeps_def spi_offsets)
  next
    case False
    with assms(1) obtain rxf where "fifo8_push (spi_rx_fifo s) (ucast rx) = Some rxf" "fifo8_inv rxf"
      using fifo8_push_not_full by (fastforce simp: spi_ok_def spi_fifos_ok_def)
    with False show ?thesis
      using assms(1) pop bus by (auto simp: spi_tx_body_def Let_def spi_ok_def spi_fifos_ok_def spi_keeps_def spi_offsets)
  qed
qed

lemma rx_body_total:
  assumes "spi_ok s" "spi_rx_more s"
  shows "\<exists>s'. spi_rx_body s = Some s' \<and> spi_ok s' \<and> spi_keeps s s'"
proof -
  from assms obtain rx bus where bus: "ssi_transfer (spi_bus s) 0xff = Some (rx, bus)" "list_all kid_ok bus"
    using bus_total [of "spi_bus s" "0xff"] by (auto simp: spi_ok_def)
  from assms obtain rxf where "fifo8_push (spi_rx_fifo s) (ucast rx) = Some rxf" "fifo8_inv rxf"
    using fifo8_push_not_full by (fastforce simp: spi_ok_def spi_fifos_ok_def spi_rx_more_def)
  with assms(1) bus show ?thesis
    by (auto simp: spi_rx_body_def spi_ok_def spi_fifos_ok_def spi_keeps_def spi_offsets)
qed

lemma tx_loop_total: "spi_ok s \<Longrightarrow> \<exists>s'. spi_tx_loop d s = Some s' \<and> spi_ok s' \<and> spi_keeps s s'"
proof (induction d s rule: spi_tx_loop.induct)
  case (1 d s)
  show ?case
  proof (cases "spi_tx_more d s")
    case True
    then obtain s1 where s1: "spi_tx_body s = Some s1" "spi_ok s1" "spi_keeps s s1"
      using tx_body_total [OF 1(2)] by (auto simp: spi_tx_more_def)
    from 1(1) [OF True s1(1,2)] s1 True show ?thesis
      by (auto simp: spi_tx_loop.simps [of d s] intro: spi_keeps_trans)
  qed (use 1(2) in \<open>simp add: spi_tx_loop.simps [of d s]\<close>)
qed

lemma rx_loop_total: "spi_ok s \<Longrightarrow> \<exists>s'. spi_rx_loop s = Some s' \<and> spi_ok s' \<and> spi_keeps s s'"
proof (induction s rule: spi_rx_loop.induct)
  case (1 s)
  show ?case
  proof (cases "spi_rx_more s")
    case True
    then obtain s1 where s1: "spi_rx_body s = Some s1" "spi_ok s1" "spi_keeps s s1"
      using rx_body_total [OF 1(2)] by auto
    from 1(1) [OF True s1(1,2)] s1 True show ?thesis
      by (auto simp: spi_rx_loop.simps [of s] intro: spi_keeps_trans)
  qed (use 1(2) in \<open>simp add: spi_rx_loop.simps [of s]\<close>)
qed

lemma spi_ok_frame:
  "spi_ok s \<Longrightarrow> spi_bus s' = spi_bus s \<Longrightarrow> spi_rx_fifo s' = spi_rx_fifo s \<Longrightarrow> spi_tx_fifo s' = spi_tx_fifo s
     \<Longrightarrow> spi_ok s'"
  by (simp add: spi_ok_def spi_fifos_ok_def)

lemma run_ok: "spi_ok s \<Longrightarrow> \<exists>s'. apple_spi_run s = Some s' \<and> spi_ok s' \<and> spi_keeps s s'"
proof -
  assume ok: "spi_ok s"
  let ?d = "spi_s5l8900 s \<and> \<not> fifo8_is_empty (spi_tx_fifo s)" and ?s1 = "apple_spi_update_xfer_tx s"
  have k1: "spi_ok ?s1" "spi_keeps s ?s1"
    using ok by (auto intro: spi_ok_frame simp: spi_keeps_def R_CFG_def)
  obtain s2 where 2: "spi_tx_loop ?d ?s1 = Some s2" "spi_ok s2" "spi_keeps ?s1 s2"
    using tx_loop_total [OF k1(1)] by blast
  obtain s3 where 3: "spi_rx_loop s2 = Some s3" "spi_ok s3" "spi_keeps s2 s3"
    using rx_loop_total [OF 2(2)] by blast
  have k3: "spi_keeps s s3" using k1(2) 2(3) 3(3) by (blast intro: spi_keeps_trans)
  let ?s4 = "REG_set s3 R_STATUS (REG s3 R_STATUS OR R_STATUS_COMPLETE)"
  have "spi_ok ?s4" "spi_keeps s ?s4"
    using 3(2) k3 by (auto intro: spi_ok_frame simp: spi_keeps_def spi_offsets)
  with ok 2(1) 3(1,2) k3 show ?thesis
    by (auto simp: apple_spi_run_def Let_def)
qed

text \<open>
  The receive register takes a word's worth of bytes off the FIFO by a call that asserts
  they are there: the read completes when the FIFO is empty or holds that many, and only then.
\<close>

lemma rxdata_ok:
  assumes "spi_ok s" "fifo8_is_empty (spi_rx_fifo s) \<or> apple_spi_word_size s \<le> fifo8_num_used (spi_rx_fifo s)"
  shows "\<exists>r' s' run. spi_read_rxdata s r = Some (r', s', run) \<and> spi_ok s' \<and> spi_keeps s s'"
proof (cases "fifo8_is_empty (spi_rx_fifo s)")
  case True
  then show ?thesis using assms(1) by (auto simp: spi_read_rxdata_def)
next
  case False
  let ?w = "apple_spi_word_size s"
  have inv: "fifo8_inv (spi_rx_fifo s)" using assms(1) by (simp add: spi_ok_def spi_fifos_ok_def)
  have "unat ?w \<le> unat (f8_num (spi_rx_fifo s))" using False assms(2) by (simp add: fifo8_num_used_def word_le_nat_alt)
  moreover have w: "0 < unat ?w" "unat ?w \<le> 4" by (simp_all add: apple_spi_word_size_def Let_def)
  ultimately obtain n rxf where
    pop: "fifo8_pop_bufptr (spi_rx_fifo s) ?w = Some (unat (f8_head (spi_rx_fifo s)), n, rxf)"
      "unat n = min (unat (f8_capacity (spi_rx_fifo s)) - unat (f8_head (spi_rx_fifo s))) (unat ?w)"
      "fifo8_inv rxf" "f8_capacity rxf = f8_capacity (spi_rx_fifo s)"
    using fifo8_pop_bufptr_items [OF inv, of ?w] by auto
  have "unat n \<le> 4" "unat (f8_head (spi_rx_fifo s)) + unat n \<le> unat (f8_capacity rxf)"
    using pop(2,4) inv w(2) by (auto simp: fifo8_inv_def)
  then show ?thesis
    using False assms pop(1,3)
    by (simp add: spi_read_rxdata_def spi_ok_def spi_fifos_ok_def spi_keeps_def)
qed

lemma rxdata_short:
  assumes "\<not> fifo8_is_empty (spi_rx_fifo s)" "fifo8_num_used (spi_rx_fifo s) < apple_spi_word_size s"
  shows "spi_read_rxdata s r = None"
proof -
  have "\<not> apple_spi_word_size s \<le> f8_num (spi_rx_fifo s)" using assms(2) by (simp add: fifo8_num_used_def not_le)
  then show ?thesis
    using assms(1) by (simp add: spi_read_rxdata_def fifo8_pop_bufptr_def fifo8_peekpop_bufptr_def cassert_def)
qed

lemma rxdata_read_iff:
  assumes "spi_ok s"
  shows "ipod_touch_spi_read s R_RXDATA = None \<longleftrightarrow>
     \<not> fifo8_is_empty (spi_rx_fifo s) \<and> fifo8_num_used (spi_rx_fifo s) < apple_spi_word_size s"
proof (cases "fifo8_is_empty (spi_rx_fifo s) \<or> apple_spi_word_size s \<le> fifo8_num_used (spi_rx_fifo s)")
  case True
  obtain r1 s1 run where 1: "spi_read_rxdata s (spi_regs s (unat (R_RXDATA div 4))) = Some (r1, s1, run)" "spi_ok s1"
    using rxdata_ok [OF assms True] by blast
  obtain s2 where "(if run then apple_spi_run s1 else Some s1) = Some s2" using run_ok [OF 1(2)] by (cases run) auto
  with 1(1) True show ?thesis by (simp add: ipod_touch_spi_read_def aget_def SPI_REGS_def spi_offsets not_less)
next
  case False
  then show ?thesis using rxdata_short [of s] by (simp add: ipod_touch_spi_read_def aget_def not_le)
qed

definition spi_inv :: "'p spi \<Rightarrow> bool" where
  "spi_inv s = (spi_ok s \<and> spi_line_ok s \<and> apple_spi_word_size s = 1)"

lemma word_size_keeps: "spi_keeps s s' \<Longrightarrow> apple_spi_word_size s' = apple_spi_word_size s"
  by (simp add: spi_keeps_def apple_spi_word_size_def)

lemma shadow_keeps: "spi_keeps s s' \<Longrightarrow> spi_shadow_ok s' = spi_shadow_ok s"
  by (simp add: spi_keeps_def spi_shadow_ok_def)

lemma update_irq_inv:
  "spi_ok s \<Longrightarrow> spi_shadow_ok s \<Longrightarrow> apple_spi_word_size s = 1 \<Longrightarrow> spi_inv (apple_spi_update_irq s)"
  using spi_update_irq_line [of s]
  by (simp add: spi_inv_def spi_ok_def spi_fifos_ok_def apple_spi_word_size_def)

lemma spi_index: "addr < SPI_MMIO_SIZE \<Longrightarrow> unat (addr div 4) < SPI_REGS"
  by (simp add: SPI_MMIO_SIZE_def SPI_REGS_def unat_div_word word_less_nat_alt)

lemma read_inv:
  assumes "spi_inv s" "addr < SPI_MMIO_SIZE"
  shows "\<exists>v s'. ipod_touch_spi_read s addr = Some (v, s') \<and> spi_inv s'"
proof -
  let ?r = "spi_regs s (unat (addr div 4))"
  have ok: "spi_ok s" "apple_spi_word_size s = 1" "spi_shadow_ok s"
    using assms(1) by (auto simp: spi_inv_def spi_line_ok_def)
  have "\<exists>r1 s1 run. (if addr = R_RXDATA then spi_read_rxdata s ?r
      else if addr = R_STATUS then Some (?r OR spi_status_counts s, s, False)
      else Some (?r, s, False)) = Some (r1, s1, run) \<and> spi_ok s1 \<and> spi_keeps s s1"
    using ok rxdata_ok [OF ok(1), of ?r] by (auto simp: fifo8_is_empty_def fifo8_num_used_def word_le_nat_alt unat_gt_0 Suc_le_eq)
  then obtain r1 s1 run where 1: "(if addr = R_RXDATA then spi_read_rxdata s ?r
      else if addr = R_STATUS then Some (?r OR spi_status_counts s, s, False)
      else Some (?r, s, False)) = Some (r1, s1, run)" "spi_ok s1" "spi_keeps s s1"
    by blast
  obtain s2 where 2: "(if run then apple_spi_run s1 else Some s1) = Some s2" "spi_ok s2" "spi_keeps s1 s2"
    using run_ok [OF 1(2)] 1(2) by (cases run) auto
  have k: "spi_keeps s s2" using 1(3) 2(3) by (rule spi_keeps_trans)
  show ?thesis
    using update_irq_inv [OF 2(2)] ok(2,3) word_size_keeps [OF k] shadow_keeps [OF k]
      spi_index [OF assms(2)] 1(1) 2(1)
    by (simp add: ipod_touch_spi_read_def del: split_paired_Ex)
qed

lemma reset_fifo_ok:
  "fifo8_inv f \<Longrightarrow> fifo8_inv (fifo8_reset f)"
  by (simp add: fifo8_reset_inv)

lemma txdata_push:
  assumes "fifo8_inv f" "\<not> fifo8_is_full f"
  shows "\<exists>f'. fifo8_push_all f [byte_of r 0] 1 = Some f' \<and> fifo8_inv f'"
  using fifo8_push_all_items [of f 1 "[byte_of r 0]"] assms
  by (auto simp: fifo8_is_full_room)

lemma switch_ok:
  assumes "spi_ok s" "apple_spi_word_size s = 1"
  shows "\<exists>r' s' run. spi_write_switch s addr r old = Some (r', s', run) \<and> spi_ok s' \<and> spi_keeps s s'
     \<and> spi_regs s' = spi_regs s \<and> (addr \<noteq> R_STATUS \<longrightarrow> r' = r)"
proof (cases "R_TXDATA \<le> addr \<and> addr \<le> R_TXDATA + 3 \<and> \<not> fifo8_is_full (spi_tx_fifo s)")
  case True
  moreover from True assms(1) obtain f' where
    "fifo8_push_all (spi_tx_fifo s) [byte_of r 0] 1 = Some f'" "fifo8_inv f'"
    using txdata_push [of "spi_tx_fifo s" r] by (auto simp: spi_ok_def spi_fifos_ok_def)
  moreover have "addr \<noteq> R_CTRL" "addr \<noteq> R_STATUS" "addr \<noteq> R_PIN"
    using True by (auto simp: spi_offsets)
  ultimately show ?thesis
    using assms by (auto simp: spi_write_switch_def word_bytes_def spi_ok_def spi_fifos_ok_def spi_keeps_def)
next
  case False
  then show ?thesis
    using assms reset_fifo_ok
    by (auto simp: spi_write_switch_def Let_def spi_ok_def spi_fifos_ok_def spi_keeps_def)
qed

lemma write_inv:
  assumes "spi_inv s" "spi_byte_words (MWrite addr v)"
  shows "\<exists>s'. ipod_touch_spi_write s addr v = Some s' \<and> spi_inv s'"
proof -
  let ?i = "unat (addr div 4)"
  have ok: "spi_ok s" "apple_spi_word_size s = 1" "spi_shadow_ok s"
    using assms(1) by (auto simp: spi_inv_def spi_line_ok_def)
  have i: "?i < SPI_REGS" using assms(2) spi_index by simp
  obtain r s1 run where 1: "spi_write_switch s addr (ucast v) (spi_regs s ?i) = Some (r, s1, run)"
    "spi_ok s1" "spi_keeps s s1" "spi_regs s1 = spi_regs s" "addr \<noteq> R_STATUS \<longrightarrow> r = ucast v"
    using switch_ok [OF ok(1,2), of addr "ucast v" "spi_regs s ?i"] by blast
  define s2 where "s2 = s1\<lparr>spi_regs := (spi_regs s1)(?i := r)\<rparr>"
  have ok2: "spi_ok s2" "spi_shadow_ok s2"
    using 1(2,3) ok(3) by (auto simp: s2_def spi_ok_def spi_fifos_ok_def spi_shadow_ok_def spi_keeps_def)
  have "addr \<noteq> R_STATUS" if "?i = 1" using that by (auto simp: R_STATUS_def)
  then have ws2: "apple_spi_word_size s2 = 1"
    using 1(4,5) ok(2) assms(2)
    by (auto simp: s2_def apple_spi_word_size_def REG_def R_CFG_def Let_def split: if_splits)
  obtain s3 where 3: "(if run then apple_spi_run s2 else Some s2) = Some s3" "spi_ok s3" "spi_keeps s2 s3"
    using run_ok [OF ok2(1)] ok2(1) by (cases run) auto
  define s4 where "s4 = (if addr = R_STATUS \<and> \<not> spi_s5l8900 s3
    then apple_spi_update_xfer_rx (apple_spi_update_xfer_tx s3) else s3)"
  have k4: "spi_ok s4" "spi_keeps s3 s4"
    using 3(2) by (auto simp: s4_def spi_keeps_def R_CFG_def intro: spi_ok_frame)
  have k: "spi_keeps s2 s4" using 3(3) k4(2) by (rule spi_keeps_trans)
  have "spi_inv (apple_spi_update_irq s4)"
    using update_irq_inv [OF k4(1)] ok2(2) ws2 word_size_keeps [OF k] shadow_keeps [OF k] by simp
  moreover have "ipod_touch_spi_write s addr v = Some (apple_spi_update_irq s4)"
    using i 1(1) 3(1) by (cases run) (simp_all add: ipod_touch_spi_write_def s4_def flip: s2_def)
  ultimately show ?thesis by blast
qed

lemma reset_inv: "spi_ok s \<Longrightarrow> spi_inv (ipod_touch_spi_reset s)"
  by (auto simp: spi_inv_def spi_ok_def spi_fifos_ok_def ipod_touch_spi_reset_def fifo8_reset_inv
      spi_line_ok_def spi_shadow_ok_def apple_spi_word_size_def REG_def R_CFG_WORD_SIZE_def)

lemma cs_set_inv: "spi_inv s \<Longrightarrow> spi_inv (apple_spi_cs_set s l)"
  by (auto simp: spi_inv_def spi_ok_def spi_fifos_ok_def apple_spi_cs_set_def spi_line_ok_def
      spi_shadow_ok_def spi_irq_mask_def apple_spi_word_size_def spi_offsets)

lemma spi_step_inv:
  "spi_inv s \<Longrightarrow> spi_byte_words e \<Longrightarrow> \<exists>s' r. spi_step s e = Some (s', r) \<and> spi_inv s'"
proof (induction s e rule: spi_step.induct)
  case (1 s a)
  then show ?case using read_inv [of s a] by auto
next
  case (2 s a v)
  then show ?case using write_inv [of s a v] by (simp del: spi_byte_words.simps)
next
  case (3 s)
  then show ?case using reset_inv by (simp add: spi_inv_def)
next
  case (4 s l)
  then show ?case using cs_set_inv by simp
qed

end

text \<open>So a controller whose bus carries such a peripheral is itself a well-behaved device.\<close>

sublocale ssi_slave \<subseteq> spi_dev: guest_device spi_step spi_inv spi_byte_words
  by unfold_locales (rule spi_step_inv)

section \<open>A transfer exchanges the queued bytes with the peripheral\<close>

lemma spi_tx_body_exchange:
  assumes "spi_fifos_ok s" "fifo8_items (spi_tx_fifo s) = x # xs" "REG s R_TXCNT \<noteq> 0"
    and "REG s R_RXCNT \<noteq> 0" "0 < fifo8_room (spi_rx_fifo s)" "ssi_transfer (spi_bus s) (ucast x) = Some (y, bus)"
  shows "\<exists>s'. spi_tx_body s = Some s' \<and> spi_fifos_ok s' \<and> spi_keeps s s' \<and> spi_bus s' = bus
     \<and> fifo8_items (spi_tx_fifo s') = xs \<and> fifo8_items (spi_rx_fifo s') = fifo8_items (spi_rx_fifo s) @ [ucast y]
     \<and> Suc (fifo8_room (spi_rx_fifo s')) = fifo8_room (spi_rx_fifo s)
     \<and> REG s' R_TXCNT = REG s R_TXCNT - 1 \<and> REG s' R_RXCNT = REG s R_RXCNT - 1"
proof -
  have inv: "fifo8_inv (spi_rx_fifo s)" "fifo8_inv (spi_tx_fifo s)"
    using assms(1) by (auto simp: spi_fifos_ok_def)
  obtain txf where pop: "fifo8_pop (spi_tx_fifo s) = Some (x, txf)" "fifo8_inv txf" "fifo8_items txf = xs"
    using fifo8.pop_law [OF inv(2) assms(2)] by blast
  obtain rxf where push: "fifo8_push (spi_rx_fifo s) (ucast y) = Some rxf" "fifo8_inv rxf"
    "fifo8_items rxf = fifo8_items (spi_rx_fifo s) @ [ucast y]" "Suc (fifo8_room rxf) = fifo8_room (spi_rx_fifo s)"
    using fifo8.push_law [OF inv(1) assms(5)] by blast
  have "\<not> fifo8_is_full (spi_rx_fifo s)" "0 < REG s R_RXCNT"
    using assms(4,5) fifo8_is_full_room [OF inv(1)] by (auto simp: word_neq_0_conv)
  then show ?thesis
    using pop push assms(3,6)
    by (auto simp: spi_tx_body_def Let_def spi_fifos_ok_def spi_keeps_def spi_offsets)
qed

lemma spi_tx_loop_exchange:
  assumes "spi_fifos_ok s" "fifo8_items (spi_tx_fifo s) = xs" "unat (REG s R_TXCNT) = length xs"
    and "length xs \<le> unat (REG s R_RXCNT)" "length xs \<le> fifo8_room (spi_rx_fifo s)"
    and "ssi_exchange (spi_bus s) (map ucast xs) = Some (ys, bus)"
  shows "\<exists>s'. spi_tx_loop d s = Some s' \<and> spi_fifos_ok s' \<and> spi_keeps s s' \<and> spi_bus s' = bus
     \<and> fifo8_items (spi_tx_fifo s') = [] \<and> fifo8_items (spi_rx_fifo s') = fifo8_items (spi_rx_fifo s) @ map ucast ys
     \<and> fifo8_room (spi_rx_fifo s') + length xs = fifo8_room (spi_rx_fifo s)
     \<and> REG s' R_TXCNT = 0 \<and> unat (REG s' R_RXCNT) + length xs = unat (REG s R_RXCNT)"
  using assms
proof (induction xs arbitrary: s ys)
  case Nil
  then show ?case
    by (simp add: spi_tx_loop.simps [of d s] spi_tx_more_def fifo8_is_empty_items unat_eq_0)
next
  case (Cons x xs)
  from Cons.prems(6) obtain y bus1 ys1 where ex: "ssi_transfer (spi_bus s) (ucast x) = Some (y, bus1)"
    "ssi_exchange bus1 (map ucast xs) = Some (ys1, bus)" "ys = y # ys1"
    by (auto simp: bind_eq_Some_conv)
  have nz: "REG s R_TXCNT \<noteq> 0" "REG s R_RXCNT \<noteq> 0" "0 < fifo8_room (spi_rx_fifo s)"
    using Cons.prems(3,4,5) by auto
  obtain s1 where s1: "spi_tx_body s = Some s1" "spi_fifos_ok s1" "spi_keeps s s1" "spi_bus s1 = bus1"
    "fifo8_items (spi_tx_fifo s1) = xs" "fifo8_items (spi_rx_fifo s1) = fifo8_items (spi_rx_fifo s) @ [ucast y]"
    "Suc (fifo8_room (spi_rx_fifo s1)) = fifo8_room (spi_rx_fifo s)"
    "REG s1 R_TXCNT = REG s R_TXCNT - 1" "REG s1 R_RXCNT = REG s R_RXCNT - 1"
    using spi_tx_body_exchange [OF Cons.prems(1,2) nz ex(1)] by blast
  have cnt: "unat (REG s1 R_TXCNT) = length xs" "length xs \<le> unat (REG s1 R_RXCNT)"
    "Suc (unat (REG s1 R_RXCNT)) = unat (REG s R_RXCNT)"
    using nz(1,2) Cons.prems(3,4) s1(8,9) by (simp_all add: unat_dec_word)
  have "length xs \<le> fifo8_room (spi_rx_fifo s1)" using s1(7) Cons.prems(5) by simp
  from Cons.IH [OF s1(2,5) cnt(1,2) this] ex(2) s1(4) obtain s2 where
    s2: "spi_tx_loop d s1 = Some s2" "spi_fifos_ok s2" "spi_keeps s1 s2" "spi_bus s2 = bus"
      "fifo8_items (spi_tx_fifo s2) = []" "fifo8_items (spi_rx_fifo s2) = fifo8_items (spi_rx_fifo s1) @ map ucast ys1"
      "fifo8_room (spi_rx_fifo s2) + length xs = fifo8_room (spi_rx_fifo s1)"
      "REG s2 R_TXCNT = 0" "unat (REG s2 R_RXCNT) + length xs = unat (REG s1 R_RXCNT)"
    by auto
  have "spi_tx_loop d s = Some s2"
    using s1(1) s2(1) nz(1) Cons.prems(2)
    by (simp add: spi_tx_loop.simps [of d s] spi_tx_more_def fifo8_is_empty_items)
  then show ?case
    using s1 s2 ex(3) cnt(3) by (auto intro: spi_keeps_trans)
qed

lemma spi_rx_loop_exchange:
  assumes "spi_fifos_ok s" "unat (REG s R_RXCNT) = n" "n \<le> fifo8_room (spi_rx_fifo s)"
    and "REG s R_CFG AND R_CFG_AGD \<noteq> 0" "ssi_exchange (spi_bus s) (replicate n 0xff) = Some (ys, bus)"
  shows "\<exists>s'. spi_rx_loop s = Some s' \<and> spi_fifos_ok s' \<and> spi_keeps s s' \<and> spi_bus s' = bus
     \<and> spi_tx_fifo s' = spi_tx_fifo s \<and> fifo8_items (spi_rx_fifo s') = fifo8_items (spi_rx_fifo s) @ map ucast ys
     \<and> REG s' R_RXCNT = 0 \<and> REG s' R_TXCNT = REG s R_TXCNT"
  using assms
proof (induction n arbitrary: s ys)
  case 0
  then show ?case by (simp add: spi_rx_loop.simps [of s] spi_rx_more_def unat_eq_0)
next
  case (Suc n)
  from Suc.prems(5) obtain y bus1 ys1 where ex: "ssi_transfer (spi_bus s) 0xff = Some (y, bus1)"
    "ssi_exchange bus1 (replicate n 0xff) = Some (ys1, bus)" "ys = y # ys1"
    by (auto simp: bind_eq_Some_conv)
  have inv: "fifo8_inv (spi_rx_fifo s)" "0 < fifo8_room (spi_rx_fifo s)" "REG s R_RXCNT \<noteq> 0"
    using Suc.prems(1,2,3) by (auto simp: spi_fifos_ok_def)
  obtain rxf where push: "fifo8_push (spi_rx_fifo s) (ucast y) = Some rxf" "fifo8_inv rxf"
    "fifo8_items rxf = fifo8_items (spi_rx_fifo s) @ [ucast y]" "Suc (fifo8_room rxf) = fifo8_room (spi_rx_fifo s)"
    using fifo8.push_law [OF inv(1,2)] by blast
  define s1 where "s1 = apple_spi_update_xfer_rx
    (REG_set (s\<lparr>spi_bus := bus1, spi_rx_fifo := rxf\<rparr>) R_RXCNT (REG s R_RXCNT - 1))"
  have s1: "spi_rx_body s = Some s1" "spi_fifos_ok s1" "spi_keeps s s1" "spi_bus s1 = bus1" "spi_rx_fifo s1 = rxf"
    "spi_tx_fifo s1 = spi_tx_fifo s" "REG s1 R_RXCNT = REG s R_RXCNT - 1" "REG s1 R_TXCNT = REG s R_TXCNT"
    "REG s1 R_CFG = REG s R_CFG"
    using ex(1) push(1,2) Suc.prems(1)
    by (auto simp: spi_rx_body_def s1_def spi_fifos_ok_def spi_keeps_def spi_offsets)
  have cnt: "unat (REG s1 R_RXCNT) = n" using s1(7) inv(3) Suc.prems(2) by (simp add: unat_dec_word)
  have more: "spi_rx_more s"
    using inv Suc.prems(4) fifo8_is_full_room [OF inv(1)] by (simp add: spi_rx_more_def word_neq_0_conv)
  have "n \<le> fifo8_room (spi_rx_fifo s1)" using push(4) s1(5) Suc.prems(3) by simp
  from Suc.IH [OF s1(2) cnt this] ex(2) s1(4,9) Suc.prems(4) obtain s2 where
    "spi_rx_loop s1 = Some s2" "spi_fifos_ok s2" "spi_keeps s1 s2" "spi_bus s2 = bus" "spi_tx_fifo s2 = spi_tx_fifo s1"
    "fifo8_items (spi_rx_fifo s2) = fifo8_items (spi_rx_fifo s1) @ map ucast ys1" "REG s2 R_RXCNT = 0"
    "REG s2 R_TXCNT = REG s1 R_TXCNT"
    by auto
  moreover have "spi_rx_loop s = spi_rx_loop s1"
    using s1(1) more by (simp add: spi_rx_loop.simps [of s])
  ultimately show ?case
    using s1 push(3) ex(3) by (auto intro: spi_keeps_trans)
qed

lemma spi_update_xfer_tx_keeps [simp]: "spi_keeps s (apple_spi_update_xfer_tx s)"
  by (simp add: spi_keeps_def R_CFG_def)

text \<open>
  C10. A started transfer is a full-duplex exchange: with the transmit count equal to the
  queued bytes and a receive count the receive FIFO has room for, the controller clocks
  exactly the queued bytes, then sentinel bytes \<open>0xff\<close> up to the receive count, through
  the peripheral in order; the bytes received, in order, are what the receive FIFO
  gains, both counts end at 0 and the transfer is flagged complete.
\<close>

theorem spi_run_exchange:
  assumes "spi_fifos_ok s" "REG s R_CTRL AND R_CTRL_RUN \<noteq> 0" "REG s R_CFG AND R_CFG_AGD \<noteq> 0"
    and "fifo8_items (spi_tx_fifo s) = xs" "unat (REG s R_TXCNT) = length xs"
    and "unat (REG s R_RXCNT) = length xs + n" "0 < length xs + n" "length xs + n \<le> fifo8_room (spi_rx_fifo s)"
    and "ssi_exchange (spi_bus s) (map ucast xs @ replicate n 0xff) = Some (ys, bus)"
  shows "\<exists>s'. apple_spi_run s = Some s' \<and> spi_bus s' = bus \<and> fifo8_is_empty (spi_tx_fifo s')
     \<and> fifo8_items (spi_rx_fifo s') = fifo8_items (spi_rx_fifo s) @ map ucast ys
     \<and> REG s' R_RXCNT = 0 \<and> REG s' R_TXCNT = 0 \<and> REG s' R_STATUS AND R_STATUS_COMPLETE \<noteq> 0"
proof -
  let ?d = "spi_s5l8900 s \<and> \<not> fifo8_is_empty (spi_tx_fifo s)" and ?s1 = "apple_spi_update_xfer_tx s"
  from assms(9) obtain ys1 bus1 ys2 where ex: "ssi_exchange (spi_bus s) (map ucast xs) = Some (ys1, bus1)"
    "ssi_exchange bus1 (replicate n 0xff) = Some (ys2, bus)" "ys = ys1 @ ys2"
    by (auto simp: ssi_exchange_append bind_eq_Some_conv)
  have regs: "REG ?s1 R_TXCNT = REG s R_TXCNT" "REG ?s1 R_RXCNT = REG s R_RXCNT"
    by (simp_all add: spi_offsets)
  have "spi_fifos_ok ?s1" using assms(1) by (simp add: spi_fifos_ok_def)
  from spi_tx_loop_exchange [OF this, of xs ys1 bus1 ?d] assms(4,5,6,8) ex(1) regs obtain s2 where
    s2: "spi_tx_loop ?d ?s1 = Some s2" "spi_fifos_ok s2" "spi_keeps ?s1 s2" "spi_bus s2 = bus1"
      "fifo8_items (spi_tx_fifo s2) = []" "fifo8_items (spi_rx_fifo s2) = fifo8_items (spi_rx_fifo s) @ map ucast ys1"
      "fifo8_room (spi_rx_fifo s2) + length xs = fifo8_room (spi_rx_fifo s)"
      "REG s2 R_TXCNT = 0" "unat (REG s2 R_RXCNT) + length xs = unat (REG s R_RXCNT)"
    by auto
  have agd: "REG s2 R_CFG AND R_CFG_AGD \<noteq> 0"
    using spi_keeps_trans [OF spi_update_xfer_tx_keeps s2(3)] assms(3) by (simp add: spi_keeps_def)
  have "unat (REG s2 R_RXCNT) = n" "n \<le> fifo8_room (spi_rx_fifo s2)"
    using s2(7,9) assms(6,8) by simp_all
  from spi_rx_loop_exchange [OF s2(2) this agd] ex(2) s2(4) obtain s3 where
    s3: "spi_rx_loop s2 = Some s3" "spi_bus s3 = bus" "spi_tx_fifo s3 = spi_tx_fifo s2"
      "fifo8_items (spi_rx_fifo s3) = fifo8_items (spi_rx_fifo s2) @ map ucast ys2" "REG s3 R_RXCNT = 0"
      "REG s3 R_TXCNT = 0"
    using s2(8) by auto
  have "REG s R_RXCNT \<noteq> 0"
    using assms(6,7) by auto
  then have run: "apple_spi_run s = Some (REG_set s3 R_STATUS (REG s3 R_STATUS OR R_STATUS_COMPLETE))"
    using assms(2) s2(1) s3(1,5,6) by (simp add: apple_spi_run_def Let_def)
  have "bit ((REG s3 R_STATUS OR R_STATUS_COMPLETE) AND R_STATUS_COMPLETE) 22"
    by (simp add: R_STATUS_COMPLETE_def wbits)
  then have "(REG s3 R_STATUS OR R_STATUS_COMPLETE) AND R_STATUS_COMPLETE \<noteq> 0"
    by (metis bit_0_eq bot_apply bot_bool_def)
  then show ?thesis
    using run s2 s3 ex(3) by (simp add: fifo8_is_empty_items spi_offsets)
qed

text \<open>A controller with nothing on its bus, one byte queued and a receive count of 3.\<close>

definition spi_sample :: "unit spi" where
  "spi_sample =
     (ipod_touch_spi_realize (\<lambda>_. 0x9f) (\<lambda>_. 0) [] False 50000)
       \<lparr>spi_regs := (\<lambda>_. 0)(0 := 1, 1 := 1, 13 := 3, 19 := 1),
        spi_tx_fifo := \<lparr>f8_data = (\<lambda>_. 0x9f), f8_capacity = 50000, f8_head = 0, f8_num = 1\<rparr>\<rparr>"

theorem spi_run_exchange_witness:
  "\<exists>s'. apple_spi_run spi_sample = Some s' \<and> fifo8_items (spi_rx_fifo s') = [0, 0, 0] \<and> REG s' R_RXCNT = 0"
proof -
  have tx: "fifo8_items (spi_tx_fifo spi_sample) = [0x9f]"
    by (simp add: spi_sample_def fifo8_items_def)
  have rx: "fifo8_items (spi_rx_fifo spi_sample) = []" "fifo8_room (spi_rx_fifo spi_sample) = 16"
    by (simp_all add: spi_sample_def ipod_touch_spi_realize_def fifo8_create_def fifo8_reset_def
        fifo8_items_def fifo8_room_def R_FIFO_RX_DEPTH_def)
  have regs: "REG spi_sample R_CTRL = 1" "REG spi_sample R_CFG = 1" "REG spi_sample R_TXCNT = 1"
    "REG spi_sample R_RXCNT = 3"
    by (simp_all add: spi_sample_def ipod_touch_spi_realize_def REG_def spi_offsets)
  have ok: "spi_fifos_ok spi_sample"
    by (simp add: spi_fifos_ok_def spi_sample_def ipod_touch_spi_realize_def fifo8_create_def
        fifo8_reset_def fifo8_inv_def R_FIFO_RX_DEPTH_def)
  have "spi_bus spi_sample = []"
    by (simp add: spi_sample_def ipod_touch_spi_realize_def)
  then have "ssi_exchange (spi_bus spi_sample) (map ucast [0x9f :: u8] @ replicate 2 0xff) = Some ([0, 0, 0], [])"
    by (simp add: numeral_eq_Suc)
  from spi_run_exchange [OF ok _ _ tx, of 2, OF _ _ _ _ _ _ this] show ?thesis
    unfolding regs rx spi_flags by auto
qed

end
