(* ===== verification/Block.thy ===== *)
theory Block
  imports Prelude
begin

text \<open>
  The part of the block layer (\<open>block/block-backend.c\<close>) that the storage models call:
  reading, writing and zeroing a byte range of a backend. The driver below the backend
  is a parameter, the record \<open>bdrv_ops\<close>; what is relied on is the locale \<open>block_driver\<close>:
  a request that succeeds has done what it was asked to, a request may fail, and the
  length never changes. Draining, throttling and the cache flags only delay a request
  and are left out. Offsets and byte counts are the \<open>int64_t\<close> of the source, as integers.
\<close>

record 'd bdrv_ops =
  bdrv_getlength :: "'d \<Rightarrow> errno + int"
  bdrv_preadv :: "'d \<Rightarrow> int \<Rightarrow> int \<Rightarrow> errno + u8 list"
  bdrv_pwritev :: "'d \<Rightarrow> int \<Rightarrow> u8 list \<Rightarrow> errno option \<times> 'd"
  bdrv_pwrite_zeroes :: "'d \<Rightarrow> int \<Rightarrow> int \<Rightarrow> errno option \<times> 'd"

record 'd block_backend =
  blk_available :: bool
  blk_allow_write_beyond_eof :: bool
  blk_root :: 'd

text \<open>
  A backend as it is opened: the parameter is the driver's node that \<open>bdrv_open\<close> returned
  and the new backend took as its root, \<open>None\<close> when either failed.
\<close>

definition blk_new_open :: "'d option \<Rightarrow> 'd block_backend option" where
  "blk_new_open bs = map_option (\<lambda>d. \<lparr>blk_available = True, blk_allow_write_beyond_eof = False, blk_root = d\<rparr>) bs"

definition blk_getlength :: "'d bdrv_ops \<Rightarrow> 'd block_backend \<Rightarrow> errno + int" where
  "blk_getlength drv blk = (if \<not> blk_available blk then Inl ENOMEDIUM else bdrv_getlength drv (blk_root blk))"

text \<open>The result \<open>None\<close> is the 0 of the source.\<close>

definition blk_check_byte_request :: "'d bdrv_ops \<Rightarrow> 'd block_backend \<Rightarrow> int \<Rightarrow> int \<Rightarrow> errno option" where
  "blk_check_byte_request drv blk offset bytes =
     (if bytes < 0 then Some EIO
      else if \<not> blk_available blk then Some ENOMEDIUM
      else if offset < 0 then Some EIO
      else if \<not> blk_allow_write_beyond_eof blk then
        (case bdrv_getlength drv (blk_root blk) of
           Inl e \<Rightarrow> Some e
         | Inr len \<Rightarrow> if offset > len \<or> len - offset < bytes then Some EIO else None)
      else None)"

definition blk_pread :: "'d bdrv_ops \<Rightarrow> 'd block_backend \<Rightarrow> int \<Rightarrow> int \<Rightarrow> errno + u8 list" where
  "blk_pread drv blk offset bytes =
     (case blk_check_byte_request drv blk offset bytes of
        Some e \<Rightarrow> Inl e
      | None \<Rightarrow> bdrv_preadv drv (blk_root blk) offset bytes)"

definition blk_pwrite ::
  "'d bdrv_ops \<Rightarrow> 'd block_backend \<Rightarrow> int \<Rightarrow> u8 list \<Rightarrow> errno option \<times> 'd block_backend" where
  "blk_pwrite drv blk offset buf =
     (case blk_check_byte_request drv blk offset (int (length buf)) of
        Some e \<Rightarrow> (Some e, blk)
      | None \<Rightarrow> (case bdrv_pwritev drv (blk_root blk) offset buf of (r, d) \<Rightarrow> (r, blk\<lparr>blk_root := d\<rparr>)))"

definition blk_pwrite_zeroes ::
  "'d bdrv_ops \<Rightarrow> 'd block_backend \<Rightarrow> int \<Rightarrow> int \<Rightarrow> errno option \<times> 'd block_backend" where
  "blk_pwrite_zeroes drv blk offset bytes =
     (case blk_check_byte_request drv blk offset bytes of
        Some e \<Rightarrow> (Some e, blk)
      | None \<Rightarrow> (case bdrv_pwrite_zeroes drv (blk_root blk) offset bytes of (r, d) \<Rightarrow> (r, blk\<lparr>blk_root := d\<rparr>)))"

section \<open>What a driver promises, and what the backend makes of it\<close>

locale block_driver =
  fixes drv :: "'d bdrv_ops" and cells :: "'d \<Rightarrow> u8 carray" and len :: "'d \<Rightarrow> nat"
  assumes getlength: "bdrv_getlength drv d = Inr (int (len d))"
    and preadv: "bdrv_preadv drv d (int off) (int n) = Inr bs \<Longrightarrow> off + n \<le> len d \<Longrightarrow> bs = slice (cells d) off n"
    and pwritev: "bdrv_pwritev drv d (int off) bs = (None, d') \<Longrightarrow> off + length bs \<le> len d \<Longrightarrow>
      cells d' = copy_in (cells d) off bs"
    and pwritev_len: "bdrv_pwritev drv d (int off) bs = (r, d') \<Longrightarrow> off + length bs \<le> len d \<Longrightarrow> len d' = len d"
    and zeroes: "bdrv_pwrite_zeroes drv d (int off) (int n) = (None, d') \<Longrightarrow> off + n \<le> len d \<Longrightarrow>
      cells d' = fill_range (cells d) off n 0"
    and zeroes_len: "bdrv_pwrite_zeroes drv d (int off) (int n) = (r, d') \<Longrightarrow> off + n \<le> len d \<Longrightarrow> len d' = len d"
begin

definition blk_ok :: "'d block_backend \<Rightarrow> bool" where
  "blk_ok blk = (blk_available blk \<and> \<not> blk_allow_write_beyond_eof blk)"

definition blk_cells :: "'d block_backend \<Rightarrow> u8 carray" where
  "blk_cells blk = cells (blk_root blk)"

definition blk_len :: "'d block_backend \<Rightarrow> nat" where
  "blk_len blk = len (blk_root blk)"

lemma blk_new_open_iff: "blk_new_open (Some d) = Some blk \<longleftrightarrow> blk_ok blk \<and> blk_root blk = d"
  by (auto simp: blk_new_open_def blk_ok_def)

lemma getlength_len: "blk_ok blk \<Longrightarrow> blk_getlength drv blk = Inr (int (blk_len blk))"
  by (simp add: blk_getlength_def blk_ok_def blk_len_def getlength)

lemma check_request:
  "blk_ok blk \<Longrightarrow> blk_check_byte_request drv blk (int off) (int n) = (if off + n \<le> blk_len blk then None else Some EIO)"
  by (simp add: blk_check_byte_request_def blk_ok_def getlength blk_len_def)

lemma pread_slice:
  "blk_ok blk \<Longrightarrow> blk_pread drv blk (int off) (int n) = Inr bs \<Longrightarrow>
     off + n \<le> blk_len blk \<and> bs = slice (blk_cells blk) off n"
  using preadv by (auto simp: blk_pread_def check_request blk_cells_def blk_len_def split: if_splits)

lemma pwrite_copy:
  assumes "blk_ok blk" "blk_pwrite drv blk (int off) bs = (r, blk')"
  shows "blk_ok blk' \<and> blk_len blk' = blk_len blk
     \<and> (r = None \<longrightarrow> off + length bs \<le> blk_len blk \<and> blk_cells blk' = copy_in (blk_cells blk) off bs)"
  using assms pwritev pwritev_len
  by (auto simp: blk_pwrite_def check_request blk_cells_def blk_len_def blk_ok_def split: if_splits prod.splits)

lemma zeroes_fill:
  assumes "blk_ok blk" "blk_pwrite_zeroes drv blk (int off) (int n) = (r, blk')"
  shows "blk_ok blk' \<and> blk_len blk' = blk_len blk
     \<and> (r = None \<longrightarrow> off + n \<le> blk_len blk \<and> blk_cells blk' = fill_range (blk_cells blk) off n 0)"
  using assms zeroes zeroes_len
  by (auto simp: blk_pwrite_zeroes_def check_request blk_cells_def blk_len_def blk_ok_def split: if_splits prod.splits)

end

text \<open>A driver whose reads inside the file always work.\<close>

locale reliable_driver = block_driver +
  assumes preadv_works: "off + n \<le> len d \<Longrightarrow> \<exists>bs. bdrv_preadv drv d (int off) (int n) = Inr bs"
begin

lemma pread_works:
  assumes "blk_ok blk" "off + n \<le> blk_len blk"
  shows "blk_pread drv blk (int off) (int n) = Inr (slice (blk_cells blk) off n)"
  using assms preadv_works [of off n "blk_root blk"] preadv [of "blk_root blk" off n]
  by (auto simp: blk_pread_def check_request blk_cells_def blk_len_def)

end

section \<open>A raw file\<close>

text \<open>
  The driver the stores are opened with: a host file of fixed size. Writes reach the file
  unless the host refuses them (\<open>rf_broken\<close>, a full or failing disk).
\<close>

record raw_file =
  rf_bytes :: "u8 carray"
  rf_size :: nat
  rf_broken :: bool

definition raw_ops :: "raw_file bdrv_ops" where
  "raw_ops = \<lparr>bdrv_getlength = (\<lambda>d. Inr (int (rf_size d))),
     bdrv_preadv = (\<lambda>d off n. Inr (slice (rf_bytes d) (nat off) (nat n))),
     bdrv_pwritev = (\<lambda>d off bs. if rf_broken d then (Some EIO, d)
        else (None, d\<lparr>rf_bytes := copy_in (rf_bytes d) (nat off) bs\<rparr>)),
     bdrv_pwrite_zeroes = (\<lambda>d off n. if rf_broken d then (Some EIO, d)
        else (None, d\<lparr>rf_bytes := fill_range (rf_bytes d) (nat off) (nat n) 0\<rparr>))\<rparr>"

interpretation raw: reliable_driver raw_ops rf_bytes rf_size
  by unfold_locales (auto simp: raw_ops_def split: if_splits)

end
