(* ===== verification/NVRAM.thy ===== *)
theory NVRAM
  imports Prelude
begin

text \<open>
  The NVRAM banks of the NOR image and the boot-args patch that is applied to them when
  the image is loaded (\<open>nvram_checksum\<close>, \<open>nor_set_boot_args\<close> of \<open>hw/arm/ipod_touch_nor_spi.c\<close>).
  A bank is a header, an Adler-32 of the rest, and a sequence of atoms; the variables are
  the NUL-terminated strings of the atom named \<open>common\<close>. zlib's \<open>adler32\<close> is a parameter.
\<close>

definition NVRAM_BANK_SIZE :: nat where "NVRAM_BANK_SIZE = 0x2000"
definition NVRAM_ATOM_HDR :: nat where "NVRAM_ATOM_HDR = 16"

section \<open>Checksums and headers\<close>

text \<open>The end-around carry of the header checksum.\<close>

lemma nvram_carry_less:
  assumes "255 < n"
  shows "n mod 256 + n div 256 < (n :: nat)"
proof -
  have "1 \<le> n div 256" using assms by (simp add: Suc_le_eq div_greater_zero_iff)
  then show ?thesis using div_mult_mod_eq [of n 256] by linarith
qed

function nvram_fold :: "nat \<Rightarrow> nat" where
  "nvram_fold n = (if n > 255 then nvram_fold (n mod 256 + n div 256) else n)"
  by pat_completeness auto
termination
  by (relation "measure id") (auto intro: nvram_carry_less)

declare nvram_fold.simps [simp del]

definition nvram_checksum :: "u8 list \<Rightarrow> u8" where
  "nvram_checksum hdr =
     of_nat (nvram_fold (unat (hdr ! 0) + sum_list (map unat (take (NVRAM_ATOM_HDR - 2) (drop 2 hdr)))))"

definition lduw_le :: "u8 list \<Rightarrow> nat" where
  "lduw_le b = unat (le16 (b ! 0) (b ! 1))"

definition ldl_le :: "u8 list \<Rightarrow> u32" where
  "ldl_le b = le32 (b ! 0) (b ! 1) (b ! 2) (b ! 3)"

text \<open>The C strings of the format: \<open>nvram\<close> and \<open>common\<close> with their terminators, \<open>boot-args=\<close>.\<close>

definition nvram_name :: "u8 list" where "nvram_name = [0x6e, 0x76, 0x72, 0x61, 0x6d, 0]"
definition common_name :: "u8 list" where "common_name = [0x63, 0x6f, 0x6d, 0x6d, 0x6f, 0x6e, 0]"
definition boot_args_key :: "u8 list" where
  "boot_args_key = [0x62, 0x6f, 0x6f, 0x74, 0x2d, 0x61, 0x72, 0x67, 0x73, 0x3d]"

definition strnlen :: "u8 list \<Rightarrow> nat" where
  "strnlen p = length (takeWhile (\<lambda>c. c \<noteq> 0) p)"

text \<open>
  The loop over the variables of a payload: the variables kept so far and the rest of
  the payload where the loop stopped.
\<close>

function nvram_vars :: "u8 list \<Rightarrow> u8 list \<Rightarrow> u8 list \<times> u8 list" where
  "nvram_vars p vars =
     (if p \<noteq> [] \<and> hd p \<noteq> 0 then
        let n = strnlen p in
        if n = length p then (vars, p)
        else nvram_vars (drop (n + 1) p)
               (if n < length boot_args_key \<or> take (length boot_args_key) p \<noteq> boot_args_key
                then vars @ take (n + 1) p else vars)
      else (vars, p))"
  by pat_completeness auto
termination
  by (relation "measure (\<lambda>(p, vars). length p)") auto

declare nvram_vars.simps [simp del]

text \<open>The new contents of a \<open>common\<close> payload, \<open>None\<close> when it is malformed or too small.\<close>

definition nvram_payload :: "u8 list \<Rightarrow> u8 list \<Rightarrow> u8 list option" where
  "nvram_payload args payload =
     (case nvram_vars payload [] of (vars, rest) \<Rightarrow>
        if rest = [] \<or> hd rest \<noteq> 0 then None
        else let vars' = vars @ (boot_args_key @ args @ [0]) @ [0] in
          if length vars' > length payload then None
          else Some (vars' @ replicate (length payload - length vars') 0))"

definition nvram_bank_ok :: "(u32 \<Rightarrow> u8 list \<Rightarrow> u32) \<Rightarrow> u8 list \<Rightarrow> bool" where
  "nvram_bank_ok adler bank =
     (bank ! 0 = 0x5a \<and> take 6 (drop 4 bank) = nvram_name \<and> lduw_le (drop 2 bank) = 2
      \<and> bank ! 1 = nvram_checksum bank
      \<and> ldl_le (drop 16 bank) = adler 1 (take (NVRAM_BANK_SIZE - 20) (drop 20 bank)))"

definition stl_le :: "u8 list \<Rightarrow> nat \<Rightarrow> u32 \<Rightarrow> u8 list" where
  "stl_le b i v = take i b @ [byte_of v 0, byte_of v 1, byte_of v 2, byte_of v 3] @ drop (i + 4) b"

text \<open>The loop over the atoms of a bank, from \<open>pos\<close>.\<close>

function nvram_atoms :: "(u32 \<Rightarrow> u8 list \<Rightarrow> u32) \<Rightarrow> u8 list \<Rightarrow> u8 list \<Rightarrow> nat \<Rightarrow> u8 list" where
  "nvram_atoms adler args bank pos =
     (if pos + NVRAM_ATOM_HDR \<le> NVRAM_BANK_SIZE then
        let hdr = drop pos bank; total = lduw_le (drop 2 hdr) * 16 in
        if hdr ! 1 \<noteq> nvram_checksum hdr \<or> total < NVRAM_ATOM_HDR \<or> total > NVRAM_BANK_SIZE - pos \<or> hdr ! 0 = 0x7f
        then bank
        else if take 7 (drop 4 hdr) \<noteq> common_name then nvram_atoms adler args bank (pos + total)
        else (case nvram_payload args (take (total - NVRAM_ATOM_HDR) (drop NVRAM_ATOM_HDR hdr)) of
                None \<Rightarrow> bank
              | Some payload \<Rightarrow>
                  let bank' = take (pos + NVRAM_ATOM_HDR) bank @ payload @ drop (pos + total) bank in
                  stl_le bank' 16 (adler 1 (take (NVRAM_BANK_SIZE - 20) (drop 20 bank'))))
      else bank)"
  by pat_completeness auto
termination
  by (relation "measure (\<lambda>(adler, args, bank, pos). NVRAM_BANK_SIZE - pos)")
    (auto simp: NVRAM_ATOM_HDR_def)

declare nvram_atoms.simps [simp del]

definition nvram_bank :: "(u32 \<Rightarrow> u8 list \<Rightarrow> u32) \<Rightarrow> u8 list \<Rightarrow> u8 list \<Rightarrow> u8 list" where
  "nvram_bank adler args bank =
     (if nvram_bank_ok adler bank then nvram_atoms adler args bank 32 else bank)"

section \<open>What the patch does to the variables\<close>

text \<open>The variables of a payload: its NUL-terminated strings up to the empty one.\<close>

function nvram_list :: "u8 list \<Rightarrow> u8 list list" where
  "nvram_list p =
     (if p \<noteq> [] \<and> hd p \<noteq> 0 \<and> strnlen p < length p then take (strnlen p) p # nvram_list (drop (strnlen p + 1) p)
      else [])"
  by pat_completeness auto
termination
  by (relation "measure length") auto

declare nvram_list.simps [simp del]

definition is_boot_args :: "u8 list \<Rightarrow> bool" where
  "is_boot_args v = (take (length boot_args_key) v = boot_args_key)"

definition nvram_render :: "u8 list list \<Rightarrow> u8 list" where
  "nvram_render vs = concat (map (\<lambda>v. v @ [0]) vs)"

lemma nvram_render_simps [simp]:
  "nvram_render [] = []" "nvram_render (v # vs) = v @ 0 # nvram_render vs"
  "nvram_render (vs @ ws) = nvram_render vs @ nvram_render ws"
  by (simp_all add: nvram_render_def)

lemma strnlen_le: "strnlen p \<le> length p"
  by (simp add: strnlen_def length_takeWhile_le)

lemma strnlen_append: "0 \<notin> set v \<Longrightarrow> strnlen (v @ 0 # r) = length v"
  by (induction v) (simp_all add: strnlen_def)

lemma strnlen_terminated: "strnlen p < length p \<Longrightarrow> take (strnlen p + 1) p = take (strnlen p) p @ [0]"
  using nth_length_takeWhile [of "\<lambda>c. c \<noteq> 0" p] by (simp add: strnlen_def take_Suc_conv_app_nth)

lemma nvram_list_render:
  "\<forall>v \<in> set vs. v \<noteq> [] \<and> 0 \<notin> set v \<Longrightarrow> nvram_list (nvram_render vs @ 0 # r) = vs"
proof (induction vs)
  case Nil
  then show ?case by (simp add: nvram_list.simps)
next
  case (Cons v vs)
  then have "hd v \<noteq> 0" by (metis list.set_intros(1) hd_in_set)
  with Cons show ?case
    by (subst nvram_list.simps) (simp add: strnlen_append)
qed

lemma nvram_list_wf: "v \<in> set (nvram_list p) \<Longrightarrow> v \<noteq> [] \<and> 0 \<notin> set v"
proof (induction p rule: nvram_list.induct)
  case (1 p)
  show ?case
  proof (cases "p \<noteq> [] \<and> hd p \<noteq> 0 \<and> strnlen p < length p")
    case True
    have "take (strnlen p) p = takeWhile (\<lambda>c. c \<noteq> 0) p"
      by (simp add: strnlen_def takeWhile_eq_take [symmetric])
    moreover have "takeWhile (\<lambda>c. c \<noteq> 0) p \<noteq> []" using True by (cases p) auto
    ultimately show ?thesis
      using 1 True nvram_list.simps [of p] by (auto dest: set_takeWhileD)
  qed (use 1 nvram_list.simps [of p] in auto)
qed

lemma nvram_vars_list:
  "fst (nvram_vars p vars) = vars @ nvram_render (filter (\<lambda>v. \<not> is_boot_args v) (nvram_list p))"
proof (induction p vars rule: nvram_vars.induct)
  case (1 p vars)
  show ?case
  proof (cases "p \<noteq> [] \<and> hd p \<noteq> 0 \<and> strnlen p < length p")
    case True
    have "is_boot_args (take (strnlen p) p) \<longleftrightarrow>
        \<not> (strnlen p < length boot_args_key \<or> take (length boot_args_key) p \<noteq> boot_args_key)"
      using True by (auto simp: is_boot_args_def min_def dest: arg_cong [where f = length])
    with 1 True strnlen_terminated [of p] show ?thesis
      by (subst nvram_vars.simps, subst nvram_list.simps) (auto simp: Let_def)
  next
    case False
    then show ?thesis
      using strnlen_le [of p] by (subst nvram_vars.simps, subst nvram_list.simps) (auto simp: Let_def)
  qed
qed

text \<open>
  C14. The boot-args patch: a payload that can be patched keeps its length, keeps every
  other variable in its order, drops any old boot-args and gains the configured ones.
\<close>

theorem nvram_patch_variables:
  assumes "nvram_payload args payload = Some payload'" "0 \<notin> set args"
  shows "length payload' = length payload
     \<and> nvram_list payload' = filter (\<lambda>v. \<not> is_boot_args v) (nvram_list payload) @ [boot_args_key @ args]"
proof -
  let ?vs = "filter (\<lambda>v. \<not> is_boot_args v) (nvram_list payload) @ [boot_args_key @ args]"
  obtain r where r: "payload' = nvram_render ?vs @ 0 # r" "length payload' = length payload"
    using assms(1) nvram_vars_list [of payload "[]"]
    by (auto simp: nvram_payload_def Let_def split: prod.splits if_splits)
  have "0 \<notin> set boot_args_key" "boot_args_key \<noteq> []" by (simp_all add: boot_args_key_def)
  then have "\<forall>v \<in> set ?vs. v \<noteq> [] \<and> 0 \<notin> set v"
    using nvram_list_wf assms(2) by auto
  with r nvram_list_render show ?thesis by metis
qed

theorem nvram_patch_variables_witness:
  "\<exists>p. nvram_payload [0x2d, 0x76] (nvram_render [[0x61, 0x3d, 0x31], boot_args_key, [0x62]] @ replicate 11 0) = Some p
     \<and> length p = 28 \<and> nvram_list p = [[0x61, 0x3d, 0x31], [0x62], boot_args_key @ [0x2d, 0x76]]"
proof -
  let ?in = "nvram_render [[0x61, 0x3d, 0x31], boot_args_key, [0x62]] @ replicate 11 0"
  have "case nvram_payload [0x2d, 0x76] ?in of None \<Rightarrow> False | Some p \<Rightarrow> True" by code_simp
  then obtain p where p: "nvram_payload [0x2d, 0x76] ?in = Some p" by (auto split: option.splits)
  have "nvram_list ?in = [[0x61, 0x3d, 0x31], boot_args_key, [0x62]] \<and> length ?in = 28" by code_simp
  moreover have "is_boot_args boot_args_key \<and> \<not> is_boot_args [0x61, 0x3d, 0x31] \<and> \<not> is_boot_args [0x62]" by code_simp
  ultimately show ?thesis
    using nvram_patch_variables [OF p] p by simp
qed

section \<open>What the patch does to a bank\<close>

lemma nvram_payload_length: "nvram_payload args payload = Some payload' \<Longrightarrow> length payload' = length payload"
  by (auto simp: nvram_payload_def Let_def split: prod.splits if_splits)

lemma ldl_stl_le:
  assumes "i + 4 \<le> length b"
  shows "ldl_le (drop i (stl_le b i v)) = v"
proof -
  have "drop i (stl_le b i v) = [byte_of v 0, byte_of v 1, byte_of v 2, byte_of v 3] @ drop (i + 4) b"
    using assms by (simp add: stl_le_def)
  then show ?thesis by (simp add: ldl_le_def)
qed

lemma stl_le_length [simp]: "i + 4 \<le> length b \<Longrightarrow> length (stl_le b i v) = length b"
  by (simp add: stl_le_def)

lemma stl_le_after: "i + 4 \<le> n \<Longrightarrow> n \<le> length b \<Longrightarrow> drop n (stl_le b i v) = drop n b"
  using drop_append [of n "take i b @ [byte_of v 0, byte_of v 1, byte_of v 2, byte_of v 3]" "drop (i + 4) b"]
  by (simp add: stl_le_def min_def)

lemma nvram_ok_header:
  assumes "nvram_bank_ok adler bank" "take 16 bank' = take 16 bank" "16 \<le> length bank" "16 \<le> length bank'"
    and "ldl_le (drop 16 bank') = adler 1 (take (NVRAM_BANK_SIZE - 20) (drop 20 bank'))"
  shows "nvram_bank_ok adler bank'"
proof -
  have nth: "bank' ! i = bank ! i" if "i < 16" for i
    using that assms(2) by (metis nth_take)
  have sub: "take k (drop j bank') = take k (drop j bank)" if "j + k \<le> 16" for j k
    using that assms(2) by (metis take_drop take_take min.absorb1 add.commute)
  have sum: "nvram_checksum bank' = nvram_checksum bank"
    unfolding nvram_checksum_def NVRAM_ATOM_HDR_def using nth [of 0] sub [of 2 14] by simp
  have "lduw_le (drop 2 bank') = lduw_le (drop 2 bank)"
    using nth [of 2] nth [of 3] assms(3,4) by (simp add: lduw_le_def)
  then show ?thesis
    using assms(1,5) sum nth [of 0] nth [of 1] sub [of 4 6] by (simp add: nvram_bank_ok_def)
qed

lemma nvram_atoms_ok:
  assumes "length bank = NVRAM_BANK_SIZE" "nvram_bank_ok adler bank" "32 \<le> pos"
  shows "length (nvram_atoms adler args bank pos) = NVRAM_BANK_SIZE
     \<and> nvram_bank_ok adler (nvram_atoms adler args bank pos)"
  using assms
proof (induction adler args bank pos rule: nvram_atoms.induct)
  case (1 adler args bank pos)
  define total where "total = lduw_le (drop 2 (drop pos bank)) * 16"
  let ?hdr = "drop pos bank"
  let ?stop = "?hdr ! 1 \<noteq> nvram_checksum ?hdr \<or> total < NVRAM_ATOM_HDR \<or> total > NVRAM_BANK_SIZE - pos \<or> ?hdr ! 0 = 0x7f"
  show ?case
  proof (cases "pos + NVRAM_ATOM_HDR \<le> NVRAM_BANK_SIZE \<and> \<not> ?stop")
    case False
    then show ?thesis
      using "1.prems" by (subst (1 2) nvram_atoms.simps) (auto simp: Let_def total_def)
  next
    case True
    show ?thesis
    proof (cases "take 7 (drop 4 ?hdr) \<noteq> common_name")
      case skip: True
      then have "nvram_atoms adler args bank pos = nvram_atoms adler args bank (pos + total)"
        using True by (subst nvram_atoms.simps) (simp add: Let_def total_def)
      then show ?thesis
        using "1.IH" True skip "1.prems" by (auto simp: total_def)
    next
      case common: False
      show ?thesis
      proof (cases "nvram_payload args (take (total - NVRAM_ATOM_HDR) (drop NVRAM_ATOM_HDR ?hdr))")
        case None
        then show ?thesis
          using True common "1.prems" by (subst (1 2) nvram_atoms.simps) (simp add: Let_def total_def)
      next
        case (Some payload)
        let ?b = "take (pos + NVRAM_ATOM_HDR) bank @ payload @ drop (pos + total) bank"
        let ?r = "stl_le ?b 16 (adler 1 (take (NVRAM_BANK_SIZE - 20) (drop 20 ?b)))"
        have len: "length ?b = NVRAM_BANK_SIZE"
          using nvram_payload_length [OF Some] True "1.prems"(1) by (auto simp: NVRAM_ATOM_HDR_def)
        have "nvram_atoms adler args bank pos = ?r"
          using True common Some by (subst nvram_atoms.simps) (simp add: Let_def total_def)
        moreover have "nvram_bank_ok adler ?r"
        proof (rule nvram_ok_header [OF "1.prems"(2)])
          show "take 16 ?r = take 16 bank"
            using "1.prems"(1,3) True by (simp add: stl_le_def NVRAM_ATOM_HDR_def NVRAM_BANK_SIZE_def min_def)
          show "ldl_le (drop 16 ?r) = adler 1 (take (NVRAM_BANK_SIZE - 20) (drop 20 ?r))"
            using ldl_stl_le [of 16 ?b] stl_le_after [of 16 20 ?b] len by (simp add: NVRAM_BANK_SIZE_def)
        qed (use len "1.prems"(1) in \<open>simp_all add: NVRAM_BANK_SIZE_def\<close>)
        ultimately show ?thesis using len by (simp add: NVRAM_BANK_SIZE_def)
      qed
    qed
  qed
qed

text \<open>
  C13. A patched bank is still a bank that the boot loader accepts: it has its size, its
  header and header checksum, and the Adler-32 of its new contents.
\<close>

theorem nvram_bank_stays_valid:
  assumes "length bank = NVRAM_BANK_SIZE" "nvram_bank_ok adler bank"
  shows "length (nvram_bank adler args bank) = NVRAM_BANK_SIZE \<and> nvram_bank_ok adler (nvram_bank adler args bank)"
  using nvram_atoms_ok [OF assms] assms by (simp add: nvram_bank_def)

text \<open>A bank with one \<open>common\<close> atom that holds no variables, for a checksum that adds the bytes.\<close>

definition byte_sum :: "u32 \<Rightarrow> u8 list \<Rightarrow> u32" where
  "byte_sum start bs = start + sum_list (map ucast bs)"

definition nvram_sample :: "u8 list" where
  "nvram_sample =
     [0x5a, 0x82, 2, 0, 0x6e, 0x76, 0x72, 0x61, 0x6d, 0, 0, 0, 0, 0, 0, 0,
      0xf9, 3, 0, 0, 0, 0, 0, 0, 0, 0, 0, 0, 0, 0, 0, 0,
      0x70, 0xfd, 2, 0, 0x63, 0x6f, 0x6d, 0x6d, 0x6f, 0x6e, 0, 0, 0, 0, 0, 0] @ replicate 8144 0"

lemma nvram_sample_ok: "length nvram_sample = NVRAM_BANK_SIZE \<and> nvram_bank_ok byte_sum nvram_sample"
proof -
  define z :: "u8 list" where "z = replicate 8144 0"
  have z: "length z = 8144" unfolding z_def by (rule length_replicate)
  note sample = nvram_sample_def [folded z_def]
  have "nvram_fold 640 = 130" by (subst nvram_fold.simps, simp, subst nvram_fold.simps, simp)
  then have "nvram_checksum nvram_sample = 0x82"
    by (simp add: nvram_checksum_def sample NVRAM_ATOM_HDR_def)
  moreover have "take (NVRAM_BANK_SIZE - 20) (drop 20 nvram_sample) = drop 20 nvram_sample"
    by (simp add: sample z NVRAM_BANK_SIZE_def)
  moreover have "sum_list (map ucast z) = (0 :: u32)"
    unfolding z_def by (simp only: map_replicate sum_list_replicate unsigned_0 mult_zero_right)
  ultimately show ?thesis
    by (simp add: nvram_bank_ok_def)
      (simp add: sample z NVRAM_BANK_SIZE_def nvram_name_def lduw_le_def ldl_le_def le16_def le32_def byte_sum_def)
qed

theorem nvram_bank_stays_valid_witness:
  "length (nvram_bank byte_sum [0x2d, 0x76] nvram_sample) = NVRAM_BANK_SIZE
     \<and> nvram_bank_ok byte_sum (nvram_bank byte_sum [0x2d, 0x76] nvram_sample)"
  using nvram_bank_stays_valid [of nvram_sample byte_sum] nvram_sample_ok by simp

end
