(* ===== verification/NOR.thy ===== *)
theory NOR
  imports SPI Block NVRAM
begin

text \<open>
  The serial NOR flash of \<open>hw/arm/ipod_touch_nor_spi.c\<close>: one megabyte of flash behind a
  command protocol framed by the chip select, with an optional writable backend that
  every program or erase is written to, and the boot-args patch of its NVRAM banks.
  Parameters: the block driver, the contents of the base image file and zlib's \<open>adler32\<close>,
  and what the host answers when the backend is opened.
  \<open>ns_io_failed\<close> is the process-wide flag of the source; logging, tracing and the request
  to stop the machine are left out.
\<close>

definition NOR_FLASH_SIZE :: nat where "NOR_FLASH_SIZE = 2 ^ 20"
definition NOR_PAGE_SIZE :: nat where "NOR_PAGE_SIZE = 256"
definition NOR_ERASE_32K :: u32 where "NOR_ERASE_32K = 0x52"
definition NOR_ERASE_64K :: u32 where "NOR_ERASE_64K = 0xd8"
definition NOR_WRITE_TO_STATUS_REG :: u32 where "NOR_WRITE_TO_STATUS_REG = 0x1"
definition NOR_WRITE_DATA_CMD :: u32 where "NOR_WRITE_DATA_CMD = 0x2"
definition NOR_READ_DATA_CMD :: u32 where "NOR_READ_DATA_CMD = 0x3"
definition NOR_DISABLE_WRITE :: u32 where "NOR_DISABLE_WRITE = 0x4"
definition NOR_GET_STATUS_CMD :: u32 where "NOR_GET_STATUS_CMD = 0x5"
definition NOR_ENABLE_WRITE :: u32 where "NOR_ENABLE_WRITE = 0x6"
definition NOR_ERASE_BLOCK :: u32 where "NOR_ERASE_BLOCK = 0x20"
definition NOR_GET_JEDECID :: u32 where "NOR_GET_JEDECID = 0x9F"
definition NOR_STATUS_EPE :: u8 where "NOR_STATUS_EPE = 0x20"
definition NOR_STATUS_SWP :: u8 where "NOR_STATUS_SWP = 0x0c"
definition NOR_STATUS_SPRL :: u8 where "NOR_STATUS_SPRL = 0x80"

lemmas nor_cmds = NOR_ERASE_32K_def NOR_ERASE_64K_def NOR_WRITE_TO_STATUS_REG_def NOR_WRITE_DATA_CMD_def
  NOR_READ_DATA_CMD_def NOR_DISABLE_WRITE_def NOR_GET_STATUS_CMD_def NOR_ENABLE_WRITE_def
  NOR_ERASE_BLOCK_def NOR_GET_JEDECID_def

record 'd nor =
  ns_nor_path :: bool
  ns_blk :: "'d block_backend option"
  ns_restore_pending :: bool
  ns_boot_args :: "u8 list option"
  ns_cur_cmd :: u32
  ns_nor_data :: "u8 carray"
  ns_nor_size :: u32
  ns_write_enabled :: u8
  ns_nor_read_ind :: u32
  ns_address_bytes :: u8
  ns_page_offset :: u8
  ns_stream_offset :: u8
  ns_status :: u8
  ns_data_count :: u16
  ns_page :: "u8 carray"
  ns_command_active :: bool
  ns_nor_initialized :: bool
  ns_io_failed :: bool

record 'd nor_host =
  nh_drv :: "'d bdrv_ops"
  nh_file :: "u8 list option"
  nh_adler32 :: "u32 \<Rightarrow> u8 list \<Rightarrow> u32"

section \<open>The NVRAM banks of the flash\<close>

text \<open>Every whole bank of the flash in turn.\<close>

fun nor_banks :: "(u32 \<Rightarrow> u8 list \<Rightarrow> u32) \<Rightarrow> u8 list \<Rightarrow> u8 carray \<Rightarrow> nat list \<Rightarrow> u8 carray" where
  "nor_banks adler args a [] = a"
| "nor_banks adler args a (off # offs) =
     nor_banks adler args (copy_in a off (nvram_bank adler args (slice a off NVRAM_BANK_SIZE))) offs"

definition nor_set_boot_args :: "'d nor_host \<Rightarrow> u8 list \<Rightarrow> 'd nor \<Rightarrow> nat \<Rightarrow> 'd nor" where
  "nor_set_boot_args h args s norlen =
     s\<lparr>ns_nor_data := nor_banks (nh_adler32 h) args (ns_nor_data s)
         (map (\<lambda>k. k * NVRAM_BANK_SIZE) [0 ..< norlen div NVRAM_BANK_SIZE])\<rparr>"

section \<open>The flash image\<close>

definition nor_blank :: "u8 carray \<Rightarrow> u8 carray" where
  "nor_blank a = fill_range a 0 NOR_FLASH_SIZE 0xff"

definition initialize_nor :: "'d nor_host \<Rightarrow> 'd nor \<Rightarrow> 'd nor" where
  "initialize_nor h s =
     (let s1 = s\<lparr>ns_nor_data := nor_blank (ns_nor_data s), ns_nor_size := 0, ns_nor_initialized := True\<rparr>;
          finish = (\<lambda>data. let s2 = s1\<lparr>ns_nor_data := copy_in (ns_nor_data s1) 0 data,
                                       ns_nor_size := of_nat NOR_FLASH_SIZE\<rparr> in
            (case ns_boot_args s2 of
               Some (c # cs) \<Rightarrow> nor_set_boot_args h (c # cs) s2 NOR_FLASH_SIZE
             | _ \<Rightarrow> s2))
      in case ns_blk s1 of
           Some blk \<Rightarrow> (case blk_pread (nh_drv h) blk 0 (int NOR_FLASH_SIZE) of
                          Inl e \<Rightarrow> s1 | Inr data \<Rightarrow> finish data)
         | None \<Rightarrow> if \<not> ns_nor_path s1 then s1
             else (case nh_file h of
                     None \<Rightarrow> s1
                   | Some data \<Rightarrow> if length data \<noteq> NOR_FLASH_SIZE then s1 else finish data))"

text \<open>
  Opening the writable copy. What the host answers are parameters: the two \<open>stat\<close> calls, the
  node the raw driver opened and whether the device could be attached. The error, if any, comes
  with the chip as it is left.
\<close>

record host_stat =
  st_dev :: u64
  st_ino :: u64
  st_isreg :: bool

datatype nor_open_error =
  NorMustExist errno | NorBaseMustExist errno | NorIsBase | NorNotRegular | NorNotOpened
  | NorNotAttached | NorBadLength | NorNotInitialized

definition ipod_touch_nor_spi_open_overlay ::
  "'d nor_host \<Rightarrow> errno + host_stat \<Rightarrow> errno + host_stat \<Rightarrow> 'd option \<Rightarrow> bool \<Rightarrow> 'd nor \<Rightarrow>
     nor_open_error option \<times> 'd nor" where
  "ipod_touch_nor_spi_open_overlay h writable base node attached s =
     (case writable of Inl e \<Rightarrow> (Some (NorMustExist e), s)
      | Inr w \<Rightarrow>
        (case (if ns_nor_path s then
                 (case base of Inl e \<Rightarrow> Some (NorBaseMustExist e)
                  | Inr b \<Rightarrow> if st_dev b = st_dev w \<and> st_ino b = st_ino w then Some NorIsBase else None)
               else None) of
           Some e \<Rightarrow> (Some e, s)
         | None \<Rightarrow>
             if \<not> st_isreg w then (Some NorNotRegular, s)
             else let s1 = s\<lparr>ns_blk := blk_new_open node\<rparr> in
               (case ns_blk s1 of None \<Rightarrow> (Some NorNotOpened, s1)
                | Some blk \<Rightarrow>
                    if \<not> attached then (Some NorNotAttached, s1)
                    else if blk_getlength (nh_drv h) blk \<noteq> Inr (int NOR_FLASH_SIZE) then (Some NorBadLength, s1)
                    else let s2 = initialize_nor h s1 in
                      (if ns_nor_size s2 \<noteq> of_nat NOR_FLASH_SIZE then Some NorNotInitialized else None, s2))))"

text \<open>The result of the backend write, \<open>None\<close> for 0.\<close>

definition nor_persist :: "'d nor_host \<Rightarrow> 'd nor \<Rightarrow> nat \<Rightarrow> nat \<Rightarrow> (errno option \<times> 'd nor) option" where
  "nor_persist h s start0 length0 =
     (case ns_blk s of
        None \<Rightarrow> Some (None, s)
      | Some blk \<Rightarrow>
          let start = (if ns_restore_pending s then 0 else start0);
              len = (if ns_restore_pending s then NOR_FLASH_SIZE else length0)
          in do { bs \<leftarrow> agets NOR_FLASH_SIZE (ns_nor_data s) start len;
                  Some (case blk_pwrite (nh_drv h) blk (int start) bs of
                          (Some e, blk') \<Rightarrow> (Some e, s\<lparr>ns_blk := Some blk', ns_io_failed := True\<rparr>)
                        | (None, blk') \<Rightarrow> (None, s\<lparr>ns_blk := Some blk', ns_restore_pending := False\<rparr>)) })"

section \<open>The command protocol\<close>

definition nor_reset_transaction :: "'d nor \<Rightarrow> 'd nor" where
  "nor_reset_transaction s =
     s\<lparr>ns_cur_cmd := 0, ns_command_active := False, ns_address_bytes := 0, ns_data_count := 0,
       ns_stream_offset := 0, ns_page_offset := 0\<rparr>"

definition nor_write_status :: "'d nor \<Rightarrow> u8 \<Rightarrow> u8" where
  "nor_write_status s v =
     (let st = (if ns_status s AND NOR_STATUS_SPRL = 0 then
                  (if v AND 0x3c = 0 then ns_status s AND NOT NOR_STATUS_SWP
                   else if v AND 0x3c = 0x3c then ns_status s OR NOR_STATUS_SWP else ns_status s)
                else ns_status s)
      in (st AND NOT NOR_STATUS_SPRL) OR (v AND NOR_STATUS_SPRL))"

text \<open>The size of the range a program or erase command works on.\<close>

definition nor_op_length :: "u32 \<Rightarrow> u32 option" where
  "nor_op_length cmd =
     (if cmd = NOR_WRITE_DATA_CMD then Some (of_nat NOR_PAGE_SIZE)
      else if cmd = NOR_ERASE_BLOCK then Some 4096
      else if cmd = NOR_ERASE_32K then Some 32768
      else if cmd = NOR_ERASE_64K then Some 65536 else None)"

text \<open>The array after the page buffer is ANDed into its page, or the block filled with ones.\<close>

definition nor_new_data :: "'d nor \<Rightarrow> nat \<Rightarrow> nat \<Rightarrow> u8 carray" where
  "nor_new_data s start len =
     (if ns_cur_cmd s = NOR_WRITE_DATA_CMD
      then (\<lambda>i. if start \<le> i \<and> i < start + NOR_PAGE_SIZE
                then ns_nor_data s i AND ns_page s (i - start) else ns_nor_data s i)
      else fill_range (ns_nor_data s) start len 0xff)"

definition nor_apply :: "'d nor_host \<Rightarrow> 'd nor \<Rightarrow> u32 \<Rightarrow> 'd nor option" where
  "nor_apply h s len =
     (let start = unat (ns_nor_read_ind s AND NOT (len - 1)) in
      do { cassert (start + unat len \<le> NOR_FLASH_SIZE);
           (r, s1) \<leftarrow> nor_persist h (s\<lparr>ns_nor_data := nor_new_data s start (unat len)\<rparr>) start (unat len);
           Some (if r \<noteq> None then s1\<lparr>ns_status := ns_status s1 OR NOR_STATUS_EPE\<rparr> else s1) })"

definition nor_finish_transaction :: "'d nor_host \<Rightarrow> 'd nor \<Rightarrow> 'd nor option" where
  "nor_finish_transaction h s =
     (if \<not> ns_command_active s then Some s
      else if ns_cur_cmd s = NOR_ENABLE_WRITE then Some (s\<lparr>ns_write_enabled := 1\<rparr>)
      else if ns_cur_cmd s = NOR_DISABLE_WRITE then Some (s\<lparr>ns_write_enabled := 0\<rparr>)
      else if ns_write_enabled s = 0 then Some s
      else if ns_cur_cmd s = NOR_WRITE_TO_STATUS_REG then
        Some ((if ns_data_count s \<noteq> 0 then s\<lparr>ns_status := nor_write_status s (ns_page s 0)\<rparr> else s)
                \<lparr>ns_write_enabled := 0\<rparr>)
      else case nor_op_length (ns_cur_cmd s) of
          None \<Rightarrow> Some s
        | Some len \<Rightarrow>
            let s1 = s\<lparr>ns_write_enabled := 0\<rparr> in
            if ns_address_bytes s1 \<noteq> 3 \<or>
               (ns_cur_cmd s1 = NOR_WRITE_DATA_CMD \<and> ns_data_count s1 = 0) \<or>
               ns_status s1 AND NOR_STATUS_SWP \<noteq> 0
            then Some s1
            else let s2 = s1\<lparr>ns_status := ns_status s1 AND NOT NOR_STATUS_EPE\<rparr>;
                     s3 = (if \<not> ns_nor_initialized s2 then initialize_nor h s2 else s2)
                 in if ns_nor_size s3 \<noteq> of_nat NOR_FLASH_SIZE
                    then Some (s3\<lparr>ns_status := ns_status s3 OR NOR_STATUS_EPE\<rparr>)
                    else nor_apply h s3 len)"

definition ipod_touch_nor_spi_set_cs :: "'d nor_host \<Rightarrow> 'd nor \<Rightarrow> bool \<Rightarrow> 'd nor option" where
  "ipod_touch_nor_spi_set_cs h s level =
     do { s1 \<leftarrow> (if level then nor_finish_transaction h s else Some s);
          Some (nor_reset_transaction s1) }"

definition ipod_touch_nor_spi_reset :: "'d nor \<Rightarrow> 'd nor" where
  "ipod_touch_nor_spi_reset s =
     (nor_reset_transaction s)\<lparr>ns_write_enabled := 0, ns_status := NOR_STATUS_SWP\<rparr>"

text \<open>The commands that take a three-byte address.\<close>

definition nor_addressed :: "u32 \<Rightarrow> bool" where
  "nor_addressed cmd = (cmd = NOR_READ_DATA_CMD \<or> cmd = NOR_WRITE_DATA_CMD \<or> cmd = NOR_ERASE_BLOCK \<or>
     cmd = NOR_ERASE_32K \<or> cmd = NOR_ERASE_64K)"

definition nor_byte_addressed :: "'d nor_host \<Rightarrow> 'd nor \<Rightarrow> u32 \<Rightarrow> (u32 \<times> 'd nor) option" where
  "nor_byte_addressed h s value =
     (if ns_address_bytes s < 3 then
        let ind = (push_bit 8 (ns_nor_read_ind s) OR value) AND (of_nat NOR_FLASH_SIZE - 1);
            s1 = s\<lparr>ns_nor_read_ind := ind, ns_address_bytes := ns_address_bytes s + 1\<rparr> in
        Some (0, if ns_address_bytes s1 = 3
                 then s1\<lparr>ns_page_offset := ucast (ind AND (of_nat NOR_PAGE_SIZE - 1))\<rparr> else s1)
      else if ns_cur_cmd s = NOR_READ_DATA_CMD then
        let s1 = (if \<not> ns_nor_initialized s then initialize_nor h s else s) in
        do { result \<leftarrow> aget NOR_FLASH_SIZE (ns_nor_data s1) (unat (ns_nor_read_ind s1));
             Some (ucast result, s1\<lparr>ns_nor_read_ind :=
               (ns_nor_read_ind s1 + 1) AND (of_nat NOR_FLASH_SIZE - 1)\<rparr>) }
      else if ns_cur_cmd s = NOR_WRITE_DATA_CMD then
        do { pg \<leftarrow> aset NOR_PAGE_SIZE (ns_page s) (unat (ns_page_offset s)) (ucast value);
             let s1 = s\<lparr>ns_page := pg, ns_page_offset := ns_page_offset s + 1\<rparr>;
             Some (0, if unat (ns_data_count s1) < NOR_PAGE_SIZE
                      then s1\<lparr>ns_data_count := ns_data_count s1 + 1\<rparr> else s1) }
      else Some (0, s))"

definition nor_jedec_id :: "u8 list" where "nor_jedec_id = [0x1f, 0x45, 0x02, 0x00]"

definition nor_data_byte :: "'d nor_host \<Rightarrow> 'd nor \<Rightarrow> u32 \<Rightarrow> (u32 \<times> 'd nor) option" where
  "nor_data_byte h s value =
     (if nor_addressed (ns_cur_cmd s) then nor_byte_addressed h s value
      else if ns_cur_cmd s = NOR_WRITE_TO_STATUS_REG then
        Some (0, if ns_data_count s = 0
                 then s\<lparr>ns_page := (ns_page s)(0 := ucast value), ns_data_count := 1\<rparr> else s)
      else if ns_cur_cmd s = NOR_GET_STATUS_CMD then
        let s1 = s\<lparr>ns_stream_offset := ns_stream_offset s XOR 1\<rparr> in
        Some (if ns_stream_offset s1 \<noteq> 0
              then ucast (ns_status s1) OR 0x10 OR (if ns_write_enabled s1 \<noteq> 0 then 2 else 0) else 0, s1)
      else if ns_cur_cmd s = NOR_GET_JEDECID then
        Some (if unat (ns_stream_offset s) < length nor_jedec_id
              then (ucast (nor_jedec_id ! unat (ns_stream_offset s)),
                    s\<lparr>ns_stream_offset := ns_stream_offset s + 1\<rparr>)
              else (0xff, s))
      else Some (0xff, s))"

definition ipod_touch_nor_spi_transfer :: "'d nor_host \<Rightarrow> 'd nor \<Rightarrow> u32 \<Rightarrow> (u32 \<times> 'd nor) option" where
  "ipod_touch_nor_spi_transfer h s value0 =
     do { (r, s1) \<leftarrow> (if ns_restore_pending s then nor_persist h s 0 NOR_FLASH_SIZE else Some (None, s));
          if r \<noteq> None then Some (0xff, s1\<lparr>ns_status := ns_status s1 OR NOR_STATUS_EPE\<rparr>)
          else let value = value0 AND 0xff in
            if \<not> ns_command_active s1 then
              let s2 = s1\<lparr>ns_command_active := True, ns_cur_cmd := value, ns_nor_read_ind := 0\<rparr> in
              Some (0, if value = NOR_WRITE_DATA_CMD then s2\<lparr>ns_page := (\<lambda>_. 0xff)\<rparr> else s2)
            else nor_data_byte h s1 value }"

definition ipod_touch_nor_spi_realize :: "'d nor \<Rightarrow> 'd nor" where
  "ipod_touch_nor_spi_realize s = s\<lparr>ns_nor_initialized := False\<rparr>"

definition ipod_touch_nor_spi_pre_save :: "'d nor_host \<Rightarrow> 'd nor \<Rightarrow> 'd nor" where
  "ipod_touch_nor_spi_pre_save h s = (if \<not> ns_nor_initialized s then initialize_nor h s else s)"

definition ipod_touch_nor_spi_post_load :: "'d nor_host \<Rightarrow> 'd nor \<Rightarrow> nat \<Rightarrow> errno + 'd nor" where
  "ipod_touch_nor_spi_post_load h s0 version_id =
     (let s = (if version_id < 2
               then (nor_reset_transaction (initialize_nor h s0))\<lparr>ns_status := NOR_STATUS_SWP, ns_nor_read_ind := 0\<rparr>
               else s0) in
      if \<not> ns_nor_initialized s \<or>
         ns_status s AND NOT (NOR_STATUS_SPRL OR NOR_STATUS_SWP OR NOR_STATUS_EPE) \<noteq> 0 \<or>
         unat (ns_nor_read_ind s) \<ge> NOR_FLASH_SIZE \<or> ns_cur_cmd s > 0xff \<or>
         ns_address_bytes s > 3 \<or> unat (ns_data_count s) > NOR_PAGE_SIZE \<or>
         ns_stream_offset s > 4 \<or> ns_write_enabled s > 1 \<or>
         (ns_nor_size s \<noteq> 0 \<and> ns_nor_size s \<noteq> of_nat NOR_FLASH_SIZE)
      then Inl EINVAL
      else Inr (s\<lparr>ns_restore_pending := (ns_blk s \<noteq> None)\<rparr>))"

definition nor_class :: "'d nor_host \<Rightarrow> 'd nor ssi_class" where
  "nor_class h = \<lparr>ssc_transfer = ipod_touch_nor_spi_transfer h,
     ssc_set_cs = Some (ipod_touch_nor_spi_set_cs h), ssc_cs_polarity = SSI_CS_LOW\<rparr>"

section \<open>Every bus transaction completes\<close>

definition nor_inv :: "'d nor \<Rightarrow> bool" where
  "nor_inv s = (unat (ns_nor_read_ind s) < NOR_FLASH_SIZE)"

lemma nor_flash_size_word [simp]: "(of_nat NOR_FLASH_SIZE :: u32) = 0x100000"
  by (simp add: NOR_FLASH_SIZE_def)

lemma nor_page_size_word [simp]: "(of_nat NOR_PAGE_SIZE :: u32) = 256"
  by (simp add: NOR_PAGE_SIZE_def)

lemma nor_start:
  assumes "nor_op_length cmd = Some len"
  shows "unat (ind AND NOT (len - 1)) = unat ind div unat len * unat len" "unat len dvd NOR_FLASH_SIZE" "0 < unat len"
proof -
  have "len = 2 ^ 8 \<and> unat len = 2 ^ 8 \<or> len = 2 ^ 12 \<and> unat len = 2 ^ 12
      \<or> len = 2 ^ 15 \<and> unat len = 2 ^ 15 \<or> len = 2 ^ 16 \<and> unat len = 2 ^ 16"
    using assms by (auto simp: nor_op_length_def nor_cmds split: if_splits)
  then obtain n where n: "len = 2 ^ n" "n \<le> 16" and u: "unat len = 2 ^ n"
    by (auto intro: that [of 8] that [of 12] that [of 15] that [of 16])
  have "len - 1 = mask n" using n by (simp add: mask_eq_exp_minus_1)
  then show "unat (ind AND NOT (len - 1)) = unat ind div unat len * unat len"
    by (simp add: unat_align u)
  show "unat len dvd NOR_FLASH_SIZE" "0 < unat len"
    using le_imp_power_dvd [of n 20 "2 :: nat"] n(2) unfolding u NOR_FLASH_SIZE_def by auto
qed

lemma align_fits:
  assumes "i < (n :: nat)" "k dvd n" "0 < k"
  shows "i div k * k + k \<le> n"
proof -
  obtain m where m: "n = k * m" using assms(2) by blast
  then have "i div k < m" using assms by (simp add: less_mult_imp_div_less mult.commute)
  then have "Suc (i div k) * k \<le> m * k" by (intro mult_le_mono) auto
  then show ?thesis using m by (simp add: mult.commute add.commute)
qed

lemma initialize_nor_frame [simp]:
  "ns_nor_read_ind (initialize_nor h s) = ns_nor_read_ind s"
  "ns_nor_initialized (initialize_nor h s)"
  "ns_cur_cmd (initialize_nor h s) = ns_cur_cmd s" "ns_page (initialize_nor h s) = ns_page s"
  "ns_restore_pending (initialize_nor h s) = ns_restore_pending s" "ns_blk (initialize_nor h s) = ns_blk s"
  "ns_status (initialize_nor h s) = ns_status s" "ns_io_failed (initialize_nor h s) = ns_io_failed s"
  by (auto simp: initialize_nor_def Let_def nor_set_boot_args_def split: option.splits sum.splits list.splits)

lemma nor_persist_total:
  assumes "start + len \<le> NOR_FLASH_SIZE"
  shows "\<exists>r s'. nor_persist h s start len = Some (r, s') \<and> ns_nor_read_ind s' = ns_nor_read_ind s
     \<and> ns_nor_data s' = ns_nor_data s \<and> ns_status s' = ns_status s"
  using assms by (auto simp: nor_persist_def Let_def split: option.splits prod.splits)

lemma nor_apply_total:
  assumes "nor_inv s" "nor_op_length cmd = Some len"
  shows "\<exists>s'. nor_apply h s len = Some s' \<and> nor_inv s'"
proof -
  let ?start = "unat (ns_nor_read_ind s AND NOT (len - 1))"
  let ?d = "nor_new_data s ?start (unat len)"
  have fit: "?start + unat len \<le> NOR_FLASH_SIZE"
    using align_fits [of "unat (ns_nor_read_ind s)" NOR_FLASH_SIZE "unat len"] nor_start [OF assms(2)] assms(1)
    by (simp add: nor_inv_def)
  then obtain r s1 where "nor_persist h (s\<lparr>ns_nor_data := ?d\<rparr>) ?start (unat len) = Some (r, s1)"
    "ns_nor_read_ind s1 = ns_nor_read_ind s"
    using nor_persist_total [OF fit, of h "s\<lparr>ns_nor_data := ?d\<rparr>"] by auto
  with fit assms(1) show ?thesis
    by (simp add: nor_apply_def nor_inv_def)
qed

lemma nor_finish_total:
  assumes "nor_inv s"
  shows "\<exists>s'. nor_finish_transaction h s = Some s' \<and> nor_inv s'"
proof -
  have "\<exists>s'. nor_apply h t len = Some s' \<and> nor_inv s'"
    if "nor_op_length (ns_cur_cmd s) = Some len" "ns_nor_read_ind t = ns_nor_read_ind s" for t len
    using nor_apply_total [of t, OF _ that(1)] that(2) assms by (simp add: nor_inv_def)
  with assms show ?thesis
    by (auto simp: nor_finish_transaction_def Let_def nor_inv_def split: option.split)
qed

lemma nor_index_less [simp]: "unat (w AND (0xfffff :: u32)) < NOR_FLASH_SIZE"
  by (simp add: NOR_FLASH_SIZE_def unat_and_less)

lemma nor_page_index [simp]: "unat (w :: u8) < NOR_PAGE_SIZE"
  using unsigned_less [of w] by (simp add: NOR_PAGE_SIZE_def)

lemma nor_byte_addressed_total:
  "nor_inv s \<Longrightarrow> \<exists>r s'. nor_byte_addressed h s v = Some (r, s') \<and> nor_inv s'"
  by (auto simp: nor_byte_addressed_def Let_def nor_inv_def)

lemma nor_data_byte_total: "nor_inv s \<Longrightarrow> \<exists>r s'. nor_data_byte h s v = Some (r, s') \<and> nor_inv s'"
  using nor_byte_addressed_total [of s h v] by (auto simp: nor_data_byte_def Let_def nor_inv_def)

lemma nor_transfer_total:
  assumes "nor_inv s"
  shows "\<exists>r s'. ipod_touch_nor_spi_transfer h s v = Some (r, s') \<and> nor_inv s'"
proof -
  obtain r s1 where 1: "(if ns_restore_pending s then nor_persist h s 0 NOR_FLASH_SIZE else Some (None, s)) = Some (r, s1)"
    "nor_inv s1"
    using nor_persist_total [of 0 NOR_FLASH_SIZE h s] assms that
    by (cases "ns_restore_pending s") (auto simp: nor_inv_def)
  with nor_data_byte_total [of s1 h "v AND 0xff"] show ?thesis
    by (auto simp: ipod_touch_nor_spi_transfer_def Let_def nor_inv_def NOR_FLASH_SIZE_def)
qed

lemma nor_set_cs_total: "nor_inv s \<Longrightarrow> \<exists>s'. ipod_touch_nor_spi_set_cs h s lv = Some s' \<and> nor_inv s'"
  using nor_finish_total [of s h]
  by (auto simp: ipod_touch_nor_spi_set_cs_def nor_reset_transaction_def nor_inv_def)

interpretation nor: ssi_slave "nor_class h" nor_inv for h
  by unfold_locales (auto simp: nor_class_def nor_transfer_total nor_set_cs_total)

section \<open>Reading, programming and erasing\<close>

text \<open>Bytes clocked through the selected chip, and a whole command framed by the chip select.\<close>

fun nor_bytes :: "'d nor_host \<Rightarrow> 'd nor \<Rightarrow> u8 list \<Rightarrow> (u32 list \<times> 'd nor) option" where
  "nor_bytes h s [] = Some ([], s)"
| "nor_bytes h s (b # bs) =
     do { (r, s1) \<leftarrow> ipod_touch_nor_spi_transfer h s (ucast b);
          (rs, s2) \<leftarrow> nor_bytes h s1 bs;
          Some (r # rs, s2) }"

definition nor_command :: "'d nor_host \<Rightarrow> 'd nor \<Rightarrow> u8 list \<Rightarrow> (u32 list \<times> 'd nor) option" where
  "nor_command h s bytes =
     do { s1 \<leftarrow> ipod_touch_nor_spi_set_cs h s False;
          (rs, s2) \<leftarrow> nor_bytes h s1 bytes;
          s3 \<leftarrow> ipod_touch_nor_spi_set_cs h s2 True;
          Some (rs, s3) }"

definition nor_addr :: "u8 \<Rightarrow> u8 \<Rightarrow> u8 \<Rightarrow> u32" where
  "nor_addr a2 a1 a0 = (ucast a0 OR push_bit 8 (ucast a1) OR push_bit 16 (ucast a2)) AND 0xfffff"

lemma nor_bytes_append:
  "nor_bytes h s (xs @ ys) =
     do { (r1, s1) \<leftarrow> nor_bytes h s xs; (r2, s2) \<leftarrow> nor_bytes h s1 ys; Some (r1 @ r2, s2) }"
  by (induction xs arbitrary: s) (auto split: Option.bind_split)

lemma ucast_byte_and [simp]: "(ucast b :: u32) AND 0xff = ucast b" for b :: u8
proof -
  have m: "(0xff :: u32) = mask 8" by (simp add: mask_eq_exp_minus_1)
  show ?thesis
    unfolding m by (rule bit_eqI) (auto simp: bit_mask_iff bit_and_iff bit_ucast_iff dest: bit_u8_less)
qed

lemma bit_fffff: "bit (0xfffff :: u32) n \<longleftrightarrow> n < 20"
proof -
  have "(0xfffff :: u32) = mask 20" by (simp add: mask_eq_exp_minus_1)
  then show ?thesis by (auto simp only: bit_mask_iff) auto
qed

lemma nor_addr_shift:
  "(push_bit 8 ((push_bit 8 (ucast a2 AND 0xfffff) OR ucast a1) AND 0xfffff) OR ucast a0) AND 0xfffff = nor_addr a2 a1 a0"
  unfolding nor_addr_def by (rule bit_eqI, unfold wbits bit_fffff) (auto dest: bit_u8_less)

definition nor_addressed_state :: "'d nor \<Rightarrow> u8 \<Rightarrow> u32 \<Rightarrow> 'd nor" where
  "nor_addressed_state s c ind =
     (nor_reset_transaction s)\<lparr>ns_command_active := True, ns_cur_cmd := ucast c, ns_nor_read_ind := ind,
        ns_address_bytes := 3, ns_page_offset := ucast (ind AND 0xff),
        ns_page := (if c = 2 then (\<lambda>_. 0xff) else ns_page s)\<rparr>"

lemma nor_transfer_first:
  "\<not> ns_restore_pending s \<Longrightarrow> \<not> ns_command_active s \<Longrightarrow>
     ipod_touch_nor_spi_transfer h s (ucast c) = Some (0, s\<lparr>ns_command_active := True, ns_cur_cmd := ucast c,
        ns_nor_read_ind := 0, ns_page := (if c = 2 then (\<lambda>_. 0xff) else ns_page s)\<rparr>)"
  for c :: u8
  using ucast_u8_inj [of c 2] by (auto simp: ipod_touch_nor_spi_transfer_def Let_def NOR_WRITE_DATA_CMD_def)

lemma nor_transfer_next:
  "\<not> ns_restore_pending s \<Longrightarrow> ns_command_active s \<Longrightarrow>
     ipod_touch_nor_spi_transfer h s (ucast b) = nor_data_byte h s (ucast b)"
  for b :: u8
  by (simp add: ipod_touch_nor_spi_transfer_def Let_def)

lemma nor_address_byte:
  "nor_addressed (ns_cur_cmd s) \<Longrightarrow> ns_address_bytes s < 3 \<Longrightarrow>
     nor_data_byte h s v = Some (0, s\<lparr>ns_nor_read_ind := (push_bit 8 (ns_nor_read_ind s) OR v) AND 0xfffff,
        ns_address_bytes := ns_address_bytes s + 1,
        ns_page_offset := (if ns_address_bytes s + 1 = 3
           then ucast (((push_bit 8 (ns_nor_read_ind s) OR v) AND 0xfffff) AND 0xff) else ns_page_offset s)\<rparr>)"
  by (simp add: nor_data_byte_def nor_byte_addressed_def Let_def)

lemma nor_address_phase:
  assumes "\<not> ns_restore_pending s" "nor_addressed (ucast c)"
  shows "nor_bytes h (nor_reset_transaction s) [c, a2, a1, a0] =
     Some ([0, 0, 0, 0], nor_addressed_state s c (nor_addr a2 a1 a0))"
  using assms
  by (simp add: nor_transfer_first nor_transfer_next nor_address_byte nor_reset_transaction_def
      nor_addressed_state_def nor_addr_shift [simplified])

text \<open>Reading streams the flash from the address on, wrapping at its end.\<close>

lemma nor_read_stream:
  assumes "\<not> ns_restore_pending s" "ns_command_active s" "ns_cur_cmd s = NOR_READ_DATA_CMD"
    and "ns_address_bytes s = 3" "ns_nor_initialized s" "nor_inv s"
  shows "\<exists>ind. nor_bytes h s bs = Some (map (\<lambda>k. ucast (ns_nor_data s
        ((unat (ns_nor_read_ind s) + k) mod NOR_FLASH_SIZE))) [0 ..< length bs], s\<lparr>ns_nor_read_ind := ind\<rparr>)"
  using assms
proof (induction bs arbitrary: s)
  case Nil
  then show ?case by (auto intro: exI [of _ "ns_nor_read_ind s"])
next
  case (Cons b bs)
  let ?i = "(ns_nor_read_ind s + 1) AND 0xfffff" and ?s1 = "s\<lparr>ns_nor_read_ind := (ns_nor_read_ind s + 1) AND 0xfffff\<rparr>"
  have i: "unat ?i = Suc (unat (ns_nor_read_ind s)) mod NOR_FLASH_SIZE"
    using Cons.prems(6) unat_and_mask [of "ns_nor_read_ind s + 1" 20] unat_Suc_word [of "ns_nor_read_ind s"]
    by (simp add: nor_inv_def NOR_FLASH_SIZE_def mask_eq_exp_minus_1)
  have step: "ipod_touch_nor_spi_transfer h s (ucast b) = Some (ucast (ns_nor_data s (unat (ns_nor_read_ind s))), ?s1)"
    using Cons.prems by (simp add: nor_transfer_next nor_data_byte_def nor_byte_addressed_def nor_addressed_def nor_inv_def)
  obtain ind where "nor_bytes h ?s1 bs = Some (map (\<lambda>k. ucast (ns_nor_data s
        ((unat ?i + k) mod NOR_FLASH_SIZE))) [0 ..< length bs], ?s1\<lparr>ns_nor_read_ind := ind\<rparr>)"
    using Cons.IH [of ?s1] Cons.prems by (auto simp: nor_inv_def)
  moreover have "(unat ?i + k) mod NOR_FLASH_SIZE = (unat (ns_nor_read_ind s) + Suc k) mod NOR_FLASH_SIZE" for k
    by (simp add: i mod_simps)
  moreover have "unat (ns_nor_read_ind s) mod NOR_FLASH_SIZE = unat (ns_nor_read_ind s)"
    using Cons.prems(6) by (simp add: nor_inv_def)
  ultimately show ?case
    using step by (auto simp: map_upt_Suc simp del: upt_Suc)
qed

text \<open>Programming collects bytes in the page buffer; the array changes when the chip is released.\<close>

lemma nor_write_stream:
  assumes "\<not> ns_restore_pending s" "ns_command_active s" "ns_cur_cmd s = NOR_WRITE_DATA_CMD"
    and "ns_address_bytes s = 3" "unat (ns_page_offset s) + length bs \<le> NOR_PAGE_SIZE"
  shows "\<exists>off dc. nor_bytes h s bs = Some (replicate (length bs) 0,
        s\<lparr>ns_page := copy_in (ns_page s) (unat (ns_page_offset s)) bs, ns_page_offset := off, ns_data_count := dc\<rparr>)
     \<and> (bs \<noteq> [] \<or> ns_data_count s \<noteq> 0 \<longrightarrow> dc \<noteq> 0)"
  using assms
proof (induction bs arbitrary: s)
  case Nil
  then show ?case by (auto intro!: exI [of _ "ns_page_offset s"] exI [of _ "ns_data_count s"])
next
  case (Cons b bs)
  let ?dc = "if unat (ns_data_count s) < NOR_PAGE_SIZE then ns_data_count s + 1 else ns_data_count s"
  let ?s1 = "s\<lparr>ns_page := (ns_page s)(unat (ns_page_offset s) := b), ns_page_offset := ns_page_offset s + 1,
     ns_data_count := ?dc\<rparr>"
  have dc: "?dc \<noteq> 0"
  proof (cases "unat (ns_data_count s) < NOR_PAGE_SIZE")
    case True
    then have "unat (ns_data_count s + 1) = unat (ns_data_count s) + 1"
      by (intro unat_Suc_word) (simp add: NOR_PAGE_SIZE_def)
    with True show ?thesis by auto
  qed (auto simp: NOR_PAGE_SIZE_def)
  have step: "ipod_touch_nor_spi_transfer h s (ucast b) = Some (0, ?s1)"
    using Cons.prems
    by (simp add: nor_transfer_next nor_data_byte_def nor_byte_addressed_def nor_addressed_def nor_cmds Let_def)
  show ?case
  proof (cases bs)
    case Nil
    with step dc show ?thesis
      by (intro exI [of _ "ns_page_offset s + 1"] exI [of _ ?dc]) (simp add: copy_in_Cons [symmetric] fun_upd_def)
  next
    case more: (Cons b' bs')
    have off: "unat (ns_page_offset s + 1) = Suc (unat (ns_page_offset s))"
      using Cons.prems(5) more unat_Suc_word [of "ns_page_offset s"] by (simp add: NOR_PAGE_SIZE_def)
    obtain off' dc' where "nor_bytes h ?s1 bs = Some (replicate (length bs) 0,
        ?s1\<lparr>ns_page := copy_in (ns_page ?s1) (unat (ns_page_offset ?s1)) bs, ns_page_offset := off', ns_data_count := dc'\<rparr>)"
      "dc' \<noteq> 0"
      using Cons.IH [of ?s1] Cons.prems off dc by (auto simp: fun_upd_def)
    with step off show ?thesis
      using copy_in_Cons [of "ns_page s" "unat (ns_page_offset s)" b bs] by (auto simp: fun_upd_def)
  qed
qed

text \<open>A chip that is ready to program: image loaded, unprotected, write latch set.\<close>

definition nor_ready :: "'d nor \<Rightarrow> bool" where
  "nor_ready s = (\<not> ns_restore_pending s \<and> ns_nor_initialized s \<and> ns_nor_size s = of_nat NOR_FLASH_SIZE
     \<and> ns_status s AND NOR_STATUS_SWP = 0)"

lemma nor_unprotect_frame: "st AND NOR_STATUS_SWP = 0 \<Longrightarrow>
    (st AND NOT NOR_STATUS_EPE) AND NOR_STATUS_SWP = 0 \<and> ((st AND NOT NOR_STATUS_EPE) OR NOR_STATUS_EPE) AND NOR_STATUS_SWP = 0"
proof -
  assume a: "st AND NOR_STATUS_SWP = 0"
  have "NOR_STATUS_EPE AND NOR_STATUS_SWP = 0"
    by (simp add: NOR_STATUS_EPE_def NOR_STATUS_SWP_def)
  with a show ?thesis by (simp add: bit_eq_iff wbits) blast
qed

lemma nor_op_applies:
  assumes "nor_ready s" "ns_command_active s" "ns_write_enabled s \<noteq> 0" "nor_op_length (ns_cur_cmd s) = Some len"
    and "ns_address_bytes s = 3" "ns_cur_cmd s = NOR_WRITE_DATA_CMD \<Longrightarrow> ns_data_count s \<noteq> 0" "nor_inv s"
  defines "start \<equiv> unat (ns_nor_read_ind s) div unat len * unat len"
  shows "\<exists>s'. nor_finish_transaction h s = Some s' \<and> nor_ready s' \<and> nor_inv s' \<and> ns_write_enabled s' = 0
     \<and> ns_nor_data s' = (if ns_cur_cmd s = NOR_WRITE_DATA_CMD
          then (\<lambda>i. if start \<le> i \<and> i < start + NOR_PAGE_SIZE then ns_nor_data s i AND ns_page s (i - start)
                    else ns_nor_data s i)
          else fill_range (ns_nor_data s) start (unat len) 0xff)"
proof -
  let ?s2 = "s\<lparr>ns_write_enabled := 0, ns_status := ns_status s AND NOT NOR_STATUS_EPE\<rparr>"
  have cmd: "ns_cur_cmd s \<noteq> NOR_ENABLE_WRITE" "ns_cur_cmd s \<noteq> NOR_DISABLE_WRITE" "ns_cur_cmd s \<noteq> NOR_WRITE_TO_STATUS_REG"
    using assms(4) by (auto simp: nor_op_length_def nor_cmds)
  have "\<not> (ns_cur_cmd s = NOR_WRITE_DATA_CMD \<and> ns_data_count s = 0)"
    using assms(6) by blast
  then have fin: "nor_finish_transaction h s = nor_apply h ?s2 len"
    using assms(1-5) cmd
    by (cases "ns_cur_cmd s = NOR_WRITE_DATA_CMD") (simp_all add: nor_finish_transaction_def nor_ready_def Let_def)
  have st: "unat (ns_nor_read_ind s AND NOT (len - 1)) = start"
    using nor_start(1) [OF assms(4)] by (simp add: start_def)
  have fit: "start + unat len \<le> NOR_FLASH_SIZE"
    using align_fits [of "unat (ns_nor_read_ind s)" NOR_FLASH_SIZE "unat len"] nor_start [OF assms(4)] assms(7)
    by (simp add: nor_inv_def start_def)
  show ?thesis
    unfolding fin using assms(1,7) fit nor_unprotect_frame [of "ns_status s"]
    by (auto simp: nor_apply_def st nor_new_data_def nor_persist_def Let_def nor_ready_def nor_inv_def split: option.split prod.split)
qed

lemma nor_bytes_total: "nor_inv s \<Longrightarrow> \<exists>rs t. nor_bytes h s bs = Some (rs, t) \<and> nor_inv t"
proof (induction bs arbitrary: s)
  case Nil
  then show ?case by simp
next
  case (Cons b bs)
  then show ?case using nor_transfer_total [of s h "ucast b"] by fastforce
qed

lemma nor_command_total:
  assumes "nor_inv s"
  shows "\<exists>rs t. nor_command h s bytes = Some (rs, t) \<and> nor_inv t"
proof -
  obtain s1 where 1: "ipod_touch_nor_spi_set_cs h s False = Some s1" "nor_inv s1"
    using nor_set_cs_total [OF assms] by blast
  obtain rs s2 where 2: "nor_bytes h s1 bytes = Some (rs, s2)" "nor_inv s2"
    using nor_bytes_total [OF 1(2)] by blast
  show ?thesis using 1 2 nor_set_cs_total [OF 2(2), of h True] by (auto simp: nor_command_def)
qed

lemma nor_command_run:
  "nor_bytes h (nor_reset_transaction s) bytes = Some (rs, t) \<Longrightarrow> nor_finish_transaction h t = Some t' \<Longrightarrow>
     nor_command h s bytes = Some (rs, nor_reset_transaction t')"
  by (simp add: nor_command_def ipod_touch_nor_spi_set_cs_def)

lemma nor_reset_transaction_frame [simp]:
  "nor_ready (nor_reset_transaction s) = nor_ready s" "nor_inv (nor_reset_transaction s) = nor_inv s"
  "ns_write_enabled (nor_reset_transaction s) = ns_write_enabled s"
  "ns_nor_data (nor_reset_transaction s) = ns_nor_data s"
  "ns_restore_pending (nor_reset_transaction s) = ns_restore_pending s"
  "ns_nor_initialized (nor_reset_transaction s) = ns_nor_initialized s"
  "ns_status (nor_reset_transaction s) = ns_status s" "ns_blk (nor_reset_transaction s) = ns_blk s"
  "ns_io_failed (nor_reset_transaction s) = ns_io_failed s" "ns_nor_size (nor_reset_transaction s) = ns_nor_size s"
  by (simp_all add: nor_reset_transaction_def nor_ready_def nor_inv_def)

lemma nor_write_enable:
  assumes "nor_ready s"
  shows "\<exists>r s1. nor_command h s [6] = Some (r, s1) \<and> nor_ready s1 \<and> ns_write_enabled s1 = 1
     \<and> ns_nor_data s1 = ns_nor_data s"
proof -
  let ?t = "(nor_reset_transaction s)\<lparr>ns_command_active := True, ns_cur_cmd := 6, ns_nor_read_ind := 0\<rparr>"
  have "nor_bytes h (nor_reset_transaction s) [6] = Some ([0], ?t)"
    using nor_transfer_first [of "nor_reset_transaction s" h 6] assms
    by (simp add: nor_ready_def nor_reset_transaction_def)
  moreover have "nor_finish_transaction h ?t = Some (?t\<lparr>ns_write_enabled := 1\<rparr>)"
    by (simp add: nor_finish_transaction_def nor_cmds)
  ultimately have "nor_command h s [6] = Some ([0], nor_reset_transaction (?t\<lparr>ns_write_enabled := 1\<rparr>))"
    by (rule nor_command_run)
  then show ?thesis
    using assms by (simp add: nor_ready_def)
qed

lemma nor_addr_less: "unat (nor_addr a2 a1 a0) < NOR_FLASH_SIZE"
  by (simp add: nor_addr_def)

lemma nor_page_start:
  "unat (ucast (ind AND (0xff :: u32)) :: u8) = unat ind mod NOR_PAGE_SIZE"
  "unat ind div NOR_PAGE_SIZE * NOR_PAGE_SIZE + unat ind mod NOR_PAGE_SIZE = unat ind"
proof -
  have m: "(0xff :: u32) = mask 8" by (simp add: mask_eq_exp_minus_1)
  have "ucast (ind AND (0xff :: u32)) = (ucast ind :: u8)"
    unfolding m by (rule bit_eqI) (simp add: bit_and_iff bit_ucast_iff bit_mask_iff)
  moreover have "unat (ucast ind :: u8) = unat ind mod 256"
    by (simp add: unsigned_ucast_eq take_bit_eq_mod)
  ultimately show "unat (ucast (ind AND (0xff :: u32)) :: u8) = unat ind mod NOR_PAGE_SIZE"
    by (simp add: NOR_PAGE_SIZE_def)
qed (rule div_mult_mod_eq)

lemma u8_and_ff [simp]: "w AND 0xff = w" for w :: u8
proof -
  have "(0xff :: u8) = - 1" by simp
  then show ?thesis by (simp only: and.right_neutral)
qed

text \<open>A page buffer that is blank but for a window changes only that window.\<close>

lemma nor_page_merge:
  assumes "off + length bs \<le> n"
  shows "(\<lambda>i. if q \<le> i \<and> i < q + n then d i AND copy_in (\<lambda>_. 0xff) off bs (i - q) else d i) =
     (\<lambda>i. if q + off \<le> i \<and> i < q + off + length bs then d i AND bs ! (i - (q + off)) else (d i :: u8))"
proof (rule ext)
  fix i
  show "(if q \<le> i \<and> i < q + n then d i AND copy_in (\<lambda>_. 0xff) off bs (i - q) else d i) =
     (if q + off \<le> i \<and> i < q + off + length bs then d i AND bs ! (i - (q + off)) else d i)"
  proof (cases "q \<le> i")
    case True
    then obtain j where "i = q + j" using le_Suc_ex by blast
    with assms show ?thesis by (auto simp: copy_in_def)
  qed simp
qed

lemma nor_program:
  assumes "nor_ready s" "ns_write_enabled s \<noteq> 0" "bs \<noteq> []"
    and "unat (nor_addr a2 a1 a0) mod NOR_PAGE_SIZE + length bs \<le> NOR_PAGE_SIZE"
  defines "ind \<equiv> unat (nor_addr a2 a1 a0)"
  shows "\<exists>r s'. nor_command h s (2 # a2 # a1 # a0 # bs) = Some (r, s') \<and> nor_ready s' \<and> ns_write_enabled s' = 0
     \<and> ns_nor_data s' = (\<lambda>i. if ind \<le> i \<and> i < ind + length bs then ns_nor_data s i AND bs ! (i - ind)
                             else ns_nor_data s i)"
proof -
  let ?a = "nor_addressed_state s 2 (nor_addr a2 a1 a0)" and ?off = "ind mod NOR_PAGE_SIZE"
  have off: "unat (ns_page_offset ?a) = ?off"
    by (simp add: nor_addressed_state_def nor_page_start(1) ind_def)
  have "nor_bytes h (nor_reset_transaction s) [2, a2, a1, a0] = Some ([0, 0, 0, 0], ?a)"
    using assms(1) by (intro nor_address_phase) (auto simp: nor_ready_def nor_addressed_def nor_cmds)
  moreover obtain off' dc where "nor_bytes h ?a bs = Some (replicate (length bs) 0,
      ?a\<lparr>ns_page := copy_in (ns_page ?a) ?off bs, ns_page_offset := off', ns_data_count := dc\<rparr>)" and dc: "dc \<noteq> 0"
    using nor_write_stream [of ?a bs h] assms off
    by (auto simp: nor_addressed_state_def nor_reset_transaction_def nor_ready_def nor_cmds)
  ultimately have bytes: "nor_bytes h (nor_reset_transaction s) ([2, a2, a1, a0] @ bs) = Some ([0, 0, 0, 0] @ replicate (length bs) 0,
      ?a\<lparr>ns_page := copy_in (ns_page ?a) ?off bs, ns_page_offset := off', ns_data_count := dc\<rparr>)"
    by (simp only: nor_bytes_append) simp
  define t where "t = ?a\<lparr>ns_page := copy_in (ns_page ?a) ?off bs, ns_page_offset := off', ns_data_count := dc\<rparr>"
  have t: "nor_ready t" "ns_command_active t" "ns_write_enabled t \<noteq> 0" "nor_op_length (ns_cur_cmd t) = Some 256"
    "ns_address_bytes t = 3" "ns_data_count t \<noteq> 0" "nor_inv t" "ns_cur_cmd t = NOR_WRITE_DATA_CMD"
    "ns_nor_data t = ns_nor_data s" "unat (ns_nor_read_ind t) = ind" "ns_page t = copy_in (\<lambda>_. 0xff) ?off bs"
    using assms(1,2) dc nor_addr_less [of a2 a1 a0]
    by (simp_all add: t_def nor_ready_def nor_addressed_state_def nor_reset_transaction_def nor_op_length_def
        nor_cmds nor_inv_def ind_def)
  have p: "unat (256 :: u32) = NOR_PAGE_SIZE" by (simp add: NOR_PAGE_SIZE_def)
  from nor_op_applies [OF t(1-5) t(6) t(7), of h, unfolded t(8-11) p]
  obtain s' where s': "nor_finish_transaction h t = Some s'" "nor_ready s'" "ns_write_enabled s' = 0"
    "ns_nor_data s' = (\<lambda>i. if ind div NOR_PAGE_SIZE * NOR_PAGE_SIZE \<le> i \<and> i < ind div NOR_PAGE_SIZE * NOR_PAGE_SIZE + NOR_PAGE_SIZE
       then ns_nor_data s i AND copy_in (\<lambda>_. 0xff) ?off bs (i - ind div NOR_PAGE_SIZE * NOR_PAGE_SIZE) else ns_nor_data s i)"
    by auto
  have "ns_nor_data s' = (\<lambda>i. if ind \<le> i \<and> i < ind + length bs then ns_nor_data s i AND bs ! (i - ind) else ns_nor_data s i)"
    unfolding s'(4)
    using nor_page_merge [OF assms(4) [folded ind_def], of "ind div NOR_PAGE_SIZE * NOR_PAGE_SIZE", unfolded div_mult_mod_eq] .
  with nor_command_run [OF bytes [folded t_def] s'(1)] s'(2,3) show ?thesis by simp
qed

lemma nor_read:
  fixes a2 a1 a0 :: u8
  assumes "nor_ready s"
  defines "ind \<equiv> unat (nor_addr a2 a1 a0)"
  shows "\<exists>s'. nor_command h s (3 # a2 # a1 # a0 # bs) = Some ([0, 0, 0, 0] @
        map (\<lambda>k. ucast (ns_nor_data s ((ind + k) mod NOR_FLASH_SIZE))) [0 ..< length bs], s')
     \<and> nor_ready s' \<and> ns_nor_data s' = ns_nor_data s \<and> ns_write_enabled s' = ns_write_enabled s"
proof -
  let ?a = "nor_addressed_state s 3 (nor_addr a2 a1 a0)"
  have a: "\<not> ns_restore_pending ?a" "ns_command_active ?a" "ns_cur_cmd ?a = NOR_READ_DATA_CMD"
    "ns_address_bytes ?a = 3" "ns_nor_initialized ?a" "nor_inv ?a"
    using assms(1) nor_addr_less [of a2 a1 a0]
    by (simp_all add: nor_addressed_state_def nor_ready_def nor_cmds nor_inv_def)
  have "nor_bytes h (nor_reset_transaction s) [3, a2, a1, a0] = Some ([0, 0, 0, 0], ?a)"
    using assms(1) by (intro nor_address_phase) (auto simp: nor_ready_def nor_addressed_def nor_cmds)
  moreover obtain i where "nor_bytes h ?a bs = Some (map (\<lambda>k. ucast (ns_nor_data s ((ind + k) mod NOR_FLASH_SIZE)))
      [0 ..< length bs], ?a\<lparr>ns_nor_read_ind := i\<rparr>)"
    using nor_read_stream [OF a, of h bs] by (auto simp: nor_addressed_state_def ind_def)
  ultimately have bytes: "nor_bytes h (nor_reset_transaction s) ([3, a2, a1, a0] @ bs) =
      Some ([0, 0, 0, 0] @ map (\<lambda>k. ucast (ns_nor_data s ((ind + k) mod NOR_FLASH_SIZE))) [0 ..< length bs],
        ?a\<lparr>ns_nor_read_ind := i\<rparr>)"
    by (simp only: nor_bytes_append) simp
  have "nor_finish_transaction h (?a\<lparr>ns_nor_read_ind := i\<rparr>) = Some (?a\<lparr>ns_nor_read_ind := i\<rparr>)"
    by (simp add: nor_finish_transaction_def nor_addressed_state_def nor_cmds nor_op_length_def)
  from nor_command_run [OF bytes this] assms(1) show ?thesis
    by (simp add: nor_addressed_state_def nor_ready_def)
qed

lemma nor_erase:
  fixes a2 a1 a0 :: u8
  assumes "nor_ready s" "ns_write_enabled s \<noteq> 0" "nor_op_length (ucast c) = Some len" "c \<noteq> 2"
  defines "start \<equiv> unat (nor_addr a2 a1 a0) div unat len * unat len"
  shows "\<exists>r s'. nor_command h s [c, a2, a1, a0] = Some (r, s') \<and> nor_ready s' \<and> ns_write_enabled s' = 0
     \<and> ns_nor_data s' = fill_range (ns_nor_data s) start (unat len) 0xff"
proof -
  let ?a = "nor_addressed_state s c (nor_addr a2 a1 a0)"
  have ne: "(ucast c :: u32) \<noteq> NOR_WRITE_DATA_CMD"
    using ucast_u8_inj [of c 2] assms(4) by (simp add: nor_cmds)
  have bytes: "nor_bytes h (nor_reset_transaction s) [c, a2, a1, a0] = Some ([0, 0, 0, 0], ?a)"
    using assms(1,3)
    by (intro nor_address_phase) (auto simp: nor_ready_def nor_addressed_def nor_op_length_def nor_cmds split: if_splits)
  have a: "nor_ready ?a" "ns_command_active ?a" "ns_write_enabled ?a \<noteq> 0" "nor_op_length (ns_cur_cmd ?a) = Some len"
    "ns_address_bytes ?a = 3" "nor_inv ?a"
    using assms(1-3) nor_addr_less [of a2 a1 a0]
    by (simp_all add: nor_ready_def nor_addressed_state_def nor_inv_def)
  have f: "ns_cur_cmd ?a = ucast c" "ns_nor_data ?a = ns_nor_data s" "ns_nor_read_ind ?a = nor_addr a2 a1 a0"
    by (simp_all add: nor_addressed_state_def)
  from nor_op_applies [OF a(1-5) _ a(6), of h, unfolded f] ne
  obtain s' where "nor_finish_transaction h ?a = Some s'" "nor_ready s'" "ns_write_enabled s' = 0"
    "ns_nor_data s' = fill_range (ns_nor_data s) start (unat len) 0xff"
    by (auto simp: start_def)
  with nor_command_run [OF bytes this(1)] show ?thesis by auto
qed

text \<open>Clocking bytes only moves the protocol: array, status, latch and backend stay.\<close>

definition nor_same_chip :: "'d nor \<Rightarrow> 'd nor \<Rightarrow> bool" where
  "nor_same_chip s t = (ns_nor_data t = ns_nor_data s \<and> ns_status t = ns_status s
     \<and> ns_write_enabled t = ns_write_enabled s \<and> ns_blk t = ns_blk s \<and> ns_io_failed t = ns_io_failed s
     \<and> ns_nor_initialized t = ns_nor_initialized s \<and> ns_restore_pending t = ns_restore_pending s)"

lemma nor_data_byte_same:
  "ns_nor_initialized s \<Longrightarrow> nor_data_byte h s v = Some (r, t) \<Longrightarrow> nor_same_chip s t"
  by (auto simp: nor_data_byte_def nor_byte_addressed_def Let_def nor_same_chip_def bind_eq_Some_conv
      split: if_splits)

lemma nor_transfer_same:
  "\<not> ns_restore_pending s \<Longrightarrow> ns_nor_initialized s \<Longrightarrow> ipod_touch_nor_spi_transfer h s v = Some (r, t) \<Longrightarrow>
     nor_same_chip s t"
  using nor_data_byte_same [of s h "v AND 0xff" r t]
  by (auto simp: ipod_touch_nor_spi_transfer_def Let_def nor_same_chip_def split: if_splits)

lemma nor_bytes_same:
  assumes "\<not> ns_restore_pending s" "ns_nor_initialized s" "nor_bytes h s bs = Some (rs, t)"
  shows "nor_same_chip s t"
  using assms
proof (induction bs arbitrary: s rs)
  case Nil
  then show ?case by (simp add: nor_same_chip_def)
next
  case (Cons b bs)
  then obtain r s1 rs1 where 1: "ipod_touch_nor_spi_transfer h s (ucast b) = Some (r, s1)" "nor_bytes h s1 bs = Some (rs1, t)"
    by (auto simp: bind_eq_Some_conv)
  have "nor_same_chip s s1" using nor_transfer_same Cons.prems(1,2) 1(1) by blast
  with Cons.IH [OF _ _ 1(2)] Cons.prems(1,2) show ?case by (simp add: nor_same_chip_def)
qed

lemma nor_finish_locked:
  assumes "ns_write_enabled s = 0 \<or> ns_status s AND NOR_STATUS_SWP \<noteq> 0" "nor_finish_transaction h s = Some t"
  shows "ns_nor_data t = ns_nor_data s \<and> ns_blk t = ns_blk s"
  using assms by (auto simp: nor_finish_transaction_def Let_def split: if_splits option.splits)

text \<open>
  C15. Program, then read back: with the chip unprotected, \<open>write enable\<close> followed by a
  page program of some bytes that stay inside their page leaves, at their addresses, the
  old contents ANDed with the new bytes, which a read command then returns, and changes
  nothing else in the array.
\<close>

theorem nor_program_read:
  fixes a2 a1 a0 :: u8
  assumes "nor_ready s" "bs \<noteq> []" "unat (nor_addr a2 a1 a0) mod NOR_PAGE_SIZE + length bs \<le> NOR_PAGE_SIZE"
  shows "\<exists>r1 s1 r2 s2 s3. nor_command h s [6] = Some (r1, s1)
     \<and> nor_command h s1 (2 # a2 # a1 # a0 # bs) = Some (r2, s2)
     \<and> nor_command h s2 (3 # a2 # a1 # a0 # replicate (length bs) 0) = Some ([0, 0, 0, 0] @
          map2 (\<lambda>old new. ucast (old AND new)) (slice (ns_nor_data s) (unat (nor_addr a2 a1 a0)) (length bs)) bs, s3)
     \<and> (\<forall>i. i < unat (nor_addr a2 a1 a0) \<or> unat (nor_addr a2 a1 a0) + length bs \<le> i \<longrightarrow>
          ns_nor_data s3 i = ns_nor_data s i)"
proof -
  let ?ind = "unat (nor_addr a2 a1 a0)"
  obtain r1 s1 where 1: "nor_command h s [6] = Some (r1, s1)" "nor_ready s1" "ns_write_enabled s1 = 1"
    "ns_nor_data s1 = ns_nor_data s"
    using nor_write_enable [OF assms(1)] by blast
  obtain r2 s2 where 2: "nor_command h s1 (2 # a2 # a1 # a0 # bs) = Some (r2, s2)" "nor_ready s2"
    "ns_nor_data s2 = (\<lambda>i. if ?ind \<le> i \<and> i < ?ind + length bs then ns_nor_data s i AND bs ! (i - ?ind)
       else ns_nor_data s i)"
    using nor_program [OF 1(2) _ assms(2,3), of h, unfolded 1(4)] 1(3) by auto
  obtain s3 where 3: "nor_command h s2 (3 # a2 # a1 # a0 # replicate (length bs) 0) = Some ([0, 0, 0, 0] @
      map (\<lambda>k. ucast (ns_nor_data s2 ((?ind + k) mod NOR_FLASH_SIZE))) [0 ..< length bs], s3)" "ns_nor_data s3 = ns_nor_data s2"
    using nor_read [OF 2(2), of h a2 a1 a0 "replicate (length bs) 0"] by auto
  have "NOR_PAGE_SIZE dvd NOR_FLASH_SIZE" "0 < NOR_PAGE_SIZE"
    by (simp_all add: NOR_PAGE_SIZE_def NOR_FLASH_SIZE_def)
  from align_fits [OF nor_addr_less [of a2 a1 a0] this] assms(3) have "?ind + length bs \<le> NOR_FLASH_SIZE"
    using div_mult_mod_eq [of ?ind NOR_PAGE_SIZE] by linarith
  then have "map (\<lambda>k. ucast (ns_nor_data s2 ((?ind + k) mod NOR_FLASH_SIZE))) [0 ..< length bs] =
      map2 (\<lambda>old new. ucast (old AND new) :: u32) (slice (ns_nor_data s) ?ind (length bs)) bs"
    by (intro nth_equalityI) (simp_all add: 2(3))
  with 1(1) 2(1,3) 3 show ?thesis by (intro exI conjI) auto
qed

text \<open>
  C16. Erase, then read back: with the chip unprotected, \<open>write enable\<close> followed by any of
  the three erase commands makes the whole aligned block around the address read
  \<open>0xff\<close> and leaves every byte outside that block as it was.
\<close>

theorem nor_erase_block:
  fixes a2 a1 a0 :: u8
  assumes "nor_ready s" "c = 0x20 \<and> n = 4096 \<or> c = 0x52 \<and> n = 32768 \<or> c = 0xd8 \<and> n = 65536"
  shows "\<exists>r1 s1 r2 s2. nor_command h s [6] = Some (r1, s1) \<and> nor_command h s1 [c, a2, a1, a0] = Some (r2, s2)
     \<and> (\<forall>i. ns_nor_data s2 i = (if i div n = unat (nor_addr a2 a1 a0) div n then 0xff else ns_nor_data s i))"
proof -
  obtain r1 s1 where 1: "nor_command h s [6] = Some (r1, s1)" "nor_ready s1" "ns_write_enabled s1 = 1"
    "ns_nor_data s1 = ns_nor_data s"
    using nor_write_enable [OF assms(1)] by blast
  have len: "nor_op_length (ucast c) = Some (of_nat n)" "unat (of_nat n :: u32) = n" "c \<noteq> 2" "0 < n"
    using assms(2) by (auto simp: nor_op_length_def nor_cmds)
  obtain r2 s2 where 2: "nor_command h s1 [c, a2, a1, a0] = Some (r2, s2)"
    "ns_nor_data s2 = fill_range (ns_nor_data s) (unat (nor_addr a2 a1 a0) div n * n) n 0xff"
    using nor_erase [OF 1(2) _ len(1,3), of h a2 a1 a0] 1(3,4) len(2) by auto
  have "q * n \<le> i \<and> i < q * n + n \<longleftrightarrow> i div n = q" for q i
    using len(4) by (metis add.commute div_nat_eqI dividend_less_times_div le_add1 mult.commute mult_Suc times_div_less_eq_dividend)
  with 1(1) 2 show ?thesis by (auto simp: fill_range_def)
qed

text \<open>
  C17. Write protection holds: on a chip whose image is loaded and that has no snapshot waiting
  to be written back, while the write latch is clear, or while the sectors are software
  protected, no command, whatever bytes are clocked, changes the array or the writable
  backend behind it.
\<close>

theorem nor_write_protect:
  assumes "ns_nor_initialized s" "\<not> ns_restore_pending s"
    and "ns_write_enabled s = 0 \<or> ns_status s AND NOR_STATUS_SWP \<noteq> 0"
    and "nor_command h s bytes = Some (rs, s')"
  shows "ns_nor_data s' = ns_nor_data s \<and> ns_blk s' = ns_blk s"
proof -
  from assms(4) obtain t t' where t: "nor_bytes h (nor_reset_transaction s) bytes = Some (rs, t)"
    "nor_finish_transaction h t = Some t'" "s' = nor_reset_transaction t'"
    by (auto simp: nor_command_def ipod_touch_nor_spi_set_cs_def bind_eq_Some_conv)
  have "nor_same_chip (nor_reset_transaction s) t"
    using nor_bytes_same [OF _ _ t(1)] assms(1,2) by simp
  with nor_finish_locked [OF _ t(2)] assms(3) t(3) show ?thesis by (simp add: nor_same_chip_def)
qed

text \<open>A blank chip with no writable backend, unprotected and ready.\<close>

definition nor_sample :: "raw_file nor" where
  "nor_sample = \<lparr>ns_nor_path = False, ns_blk = None, ns_restore_pending = False, ns_boot_args = None,
     ns_cur_cmd = 0, ns_nor_data = (\<lambda>i. if i = 0x10001 then 0xf0 else 0xff), ns_nor_size = 0x100000,
     ns_write_enabled = 0, ns_nor_read_ind = 0, ns_address_bytes = 0, ns_page_offset = 0, ns_stream_offset = 0,
     ns_status = 0, ns_data_count = 0, ns_page = (\<lambda>_. 0), ns_command_active = False, ns_nor_initialized = True,
     ns_io_failed = False\<rparr>"

definition nor_sample_host :: "raw_file nor_host" where
  "nor_sample_host = \<lparr>nh_drv = raw_ops, nh_file = None, nh_adler32 = (\<lambda>a bs. a)\<rparr>"

lemma nor_sample_ready: "nor_ready nor_sample"
  by (simp add: nor_sample_def nor_ready_def NOR_STATUS_SWP_def)

theorem nor_program_read_witness:
  "\<exists>r1 s1 r2 s2 s3. nor_command nor_sample_host nor_sample [6] = Some (r1, s1)
     \<and> nor_command nor_sample_host s1 [2, 1, 0, 0, 0x12, 0x34] = Some (r2, s2)
     \<and> nor_command nor_sample_host s2 [3, 1, 0, 0, 0, 0] = Some ([0, 0, 0, 0, 0x12, 0x30], s3)"
proof -
  have a: "unat (nor_addr 1 0 0) = 0x10000" by (simp add: nor_addr_def)
  have "slice (ns_nor_data nor_sample) 0x10000 (Suc (Suc 0)) = [0xff, 0xf0]"
    by (simp add: slice_def nor_sample_def)
  with nor_program_read [OF nor_sample_ready, of "[0x12, 0x34]" 1 0 0 nor_sample_host] show ?thesis
    unfolding a by (auto simp: NOR_PAGE_SIZE_def)
qed

theorem nor_erase_block_witness:
  "\<exists>r1 s1 r2 s2. nor_command nor_sample_host nor_sample [6] = Some (r1, s1)
     \<and> nor_command nor_sample_host s1 [0x20, 1, 0, 0] = Some (r2, s2) \<and> ns_nor_data s2 0x10001 = 0xff"
proof -
  have a: "unat (nor_addr 1 0 0) = 0x10000" by (simp add: nor_addr_def)
  show ?thesis
    using nor_erase_block [OF nor_sample_ready, of "0x20" 4096 nor_sample_host 1 0 0] unfolding a by auto
qed

theorem nor_write_protect_witness:
  "\<exists>rs s'. nor_command nor_sample_host nor_sample [2, 1, 0, 0, 0] = Some (rs, s') \<and> ns_nor_data s' 0x10001 = 0xf0"
proof -
  have "nor_inv nor_sample" by (simp add: nor_inv_def nor_sample_def NOR_FLASH_SIZE_def)
  then obtain rs s' where run: "nor_command nor_sample_host nor_sample [2, 1, 0, 0, 0] = Some (rs, s')"
    using nor_command_total by blast
  have "ns_nor_data nor_sample 0x10001 = 0xf0" by (simp add: nor_sample_def)
  with nor_write_protect [OF _ _ _ run] run show ?thesis by (auto simp: nor_sample_def)
qed

end
