(* ===== verification/NOR_Persist.thy ===== *)
theory NOR_Persist
  imports NOR
begin

text \<open>
  What the serial NOR flash programs survives a restart (\<open>hw/arm/ipod_touch_nor_spi.c\<close>): from the
  moment the writable copy is opened, every byte of it holds what the array holds, or both are
  what they were at opening, unless a write to it failed. The lemmas hold for any driver that
  keeps the contract \<open>block_driver\<close>; the property is about the raw file the machine opens.
\<close>

section \<open>The chip of a board, and what reaches it\<close>

text \<open>
  The chip a board opens the writable copy for: the instance the object system created (all
  zero), realized, with the base image and the boot-args set by the board.
\<close>

definition nor_chip :: "bool \<Rightarrow> u8 list option \<Rightarrow> 'd nor" where
  "nor_chip path args = (ipod_touch_nor_spi_realize
     \<lparr>ns_nor_path = False, ns_blk = None, ns_restore_pending = False, ns_boot_args = None, ns_cur_cmd = 0,
      ns_nor_data = (\<lambda>_. 0), ns_nor_size = 0, ns_write_enabled = 0, ns_nor_read_ind = 0, ns_address_bytes = 0,
      ns_page_offset = 0, ns_stream_offset = 0, ns_status = 0, ns_data_count = 0, ns_page = (\<lambda>_. 0),
      ns_command_active = False, ns_nor_initialized = False, ns_io_failed = False\<rparr>)
     \<lparr>ns_nor_path := path, ns_boot_args := args\<rparr>"

text \<open>The calls that reach the chip while the machine runs, in any order.\<close>

datatype nor_event = NorSelect bool | NorByte u32 | NorReset

fun nor_step :: "'d nor_host \<Rightarrow> 'd nor \<Rightarrow> nor_event \<Rightarrow> 'd nor option" where
  "nor_step h s (NorSelect level) = ipod_touch_nor_spi_set_cs h s level"
| "nor_step h s (NorByte v) = map_option snd (ipod_touch_nor_spi_transfer h s v)"
| "nor_step h s NorReset = Some (ipod_touch_nor_spi_reset s)"

fun nor_run :: "'d nor_host \<Rightarrow> 'd nor \<Rightarrow> nor_event list \<Rightarrow> 'd nor option" where
  "nor_run h s [] = Some s"
| "nor_run h s (e # es) = do { s1 \<leftarrow> nor_step h s e; nor_run h s1 es }"

section \<open>The boot-args patch, bank by bank\<close>

abbreviation nor_bank :: "u8 carray \<Rightarrow> nat \<Rightarrow> u8 list" where
  "nor_bank a k \<equiv> slice a (k * NVRAM_BANK_SIZE) NVRAM_BANK_SIZE"

definition nor_patch :: "'d nor_host \<Rightarrow> u8 list option \<Rightarrow> u8 list \<Rightarrow> u8 list" where
  "nor_patch h args bank =
     (if args = None \<or> args = Some [] then bank else nvram_bank (nh_adler32 h) (the args) bank)"

lemma nvram_bank_length: "length bank = NVRAM_BANK_SIZE \<Longrightarrow> length (nvram_bank adler args bank) = NVRAM_BANK_SIZE"
  using nvram_atoms_ok [of bank adler 32 args] by (simp add: nvram_bank_def)

lemma bank_apart:
  assumes "j \<noteq> k" "n < NVRAM_BANK_SIZE"
  shows "\<not> (k * NVRAM_BANK_SIZE \<le> j * NVRAM_BANK_SIZE + n \<and> j * NVRAM_BANK_SIZE + n < k * NVRAM_BANK_SIZE + NVRAM_BANK_SIZE)"
proof
  assume a: "k * NVRAM_BANK_SIZE \<le> j * NVRAM_BANK_SIZE + n \<and> j * NVRAM_BANK_SIZE + n < k * NVRAM_BANK_SIZE + NVRAM_BANK_SIZE"
  have "(j * NVRAM_BANK_SIZE + n) div NVRAM_BANK_SIZE = j" using assms(2) by simp
  moreover have "(j * NVRAM_BANK_SIZE + n) div NVRAM_BANK_SIZE = k"
    using a by (intro div_nat_eqI) (simp_all add: mult.commute)
  ultimately show False using assms(1) by simp
qed

lemma nor_banks_bank:
  "distinct ks \<Longrightarrow> nor_bank (nor_banks adler args a (map (\<lambda>k. k * NVRAM_BANK_SIZE) ks)) j =
     (if j \<in> set ks then nvram_bank adler args (nor_bank a j) else nor_bank a j)"
proof (induction ks arbitrary: a)
  case (Cons k ks)
  let ?b = "nvram_bank adler args (nor_bank a k)"
  let ?a = "copy_in a (k * NVRAM_BANK_SIZE) ?b"
  have "length ?b = NVRAM_BANK_SIZE" by (simp add: nvram_bank_length)
  then have "nor_bank ?a j = (if j = k then ?b else nor_bank a j)"
    using slice_copy_in [of a "k * NVRAM_BANK_SIZE" ?b] bank_apart [of j k]
    by (auto simp: list_eq_iff_nth_eq copy_in_def)
  with Cons show ?case by auto
qed simp

text \<open>
  Every byte of the writable backend is the array's, or else the backend and the array are both
  at that byte what they were when the copy was opened (\<open>c0\<close> and \<open>d0\<close>).
\<close>

definition nor_mirrored :: "('d \<Rightarrow> u8 carray) \<Rightarrow> ('d \<Rightarrow> nat) \<Rightarrow> u8 carray \<Rightarrow> u8 carray \<Rightarrow> 'd nor \<Rightarrow> bool" where
  "nor_mirrored cells len c0 d0 s =
     (case ns_blk s of None \<Rightarrow> False
      | Some blk \<Rightarrow> blk_available blk \<and> \<not> blk_allow_write_beyond_eof blk \<and> len (blk_root blk) = NOR_FLASH_SIZE
          \<and> (\<forall>i < NOR_FLASH_SIZE. cells (blk_root blk) i = ns_nor_data s i
               \<or> cells (blk_root blk) i = c0 i \<and> ns_nor_data s i = d0 i))"

lemma nor_mirrored_cong:
  "ns_blk t = ns_blk s \<Longrightarrow> ns_nor_data t = ns_nor_data s \<Longrightarrow> nor_mirrored cells len c0 d0 t = nor_mirrored cells len c0 d0 s"
  by (simp add: nor_mirrored_def cong: option.case_cong)

text \<open>A chip that runs: image loaded, no snapshot to write back.\<close>

definition nor_live :: "'d nor \<Rightarrow> bool" where
  "nor_live s = (nor_inv s \<and> ns_nor_initialized s \<and> \<not> ns_restore_pending s)"

section \<open>The backend follows the array\<close>

lemma nor_op_length_page: "nor_op_length cmd = Some n \<Longrightarrow> NOR_PAGE_SIZE \<le> unat n"
  by (auto simp: nor_op_length_def NOR_PAGE_SIZE_def split: if_splits)

definition nor_same_array :: "'d nor \<Rightarrow> 'd nor \<Rightarrow> bool" where
  "nor_same_array s t = (ns_nor_data t = ns_nor_data s \<and> ns_blk t = ns_blk s \<and> ns_io_failed t = ns_io_failed s
     \<and> ns_nor_initialized t = ns_nor_initialized s \<and> ns_restore_pending t = ns_restore_pending s)"

lemma nor_finish_cases:
  assumes "ns_nor_initialized s" "nor_finish_transaction h s = Some t"
  shows "nor_same_array s t \<or> (\<exists>n w st. nor_op_length (ns_cur_cmd s) = Some n
     \<and> nor_apply h (s\<lparr>ns_write_enabled := w, ns_status := st\<rparr>) n = Some t)"
proof (cases "nor_op_length (ns_cur_cmd s)")
  case None
  then show ?thesis
    using assms(2) by (auto simp: nor_finish_transaction_def nor_same_array_def split: if_splits)
next
  case (Some n)
  let ?s2 = "s\<lparr>ns_write_enabled := 0, ns_status := ns_status s AND NOT NOR_STATUS_EPE\<rparr>"
  have "nor_same_array s t \<or> nor_apply h ?s2 n = Some t"
    using assms Some by (auto simp: nor_finish_transaction_def Let_def nor_same_array_def split: if_splits)
  with Some show ?thesis by blast
qed

text \<open>The array changes in the range that is then written to the backend, and nowhere else.\<close>

lemma nor_apply_persist:
  assumes "nor_op_length cmd = Some n" "nor_inv s" "nor_apply h s n = Some t"
  obtains start d r t1 where "start + unat n \<le> NOR_FLASH_SIZE"
    "\<forall>i. \<not> (start \<le> i \<and> i < start + unat n) \<longrightarrow> d i = ns_nor_data s i"
    "nor_persist h (s\<lparr>ns_nor_data := d\<rparr>) start (unat n) = Some (r, t1)"
    "t = (if r \<noteq> None then t1\<lparr>ns_status := ns_status t1 OR NOR_STATUS_EPE\<rparr> else t1)"
proof -
  let ?start = "unat (ns_nor_read_ind s AND NOT (n - 1))"
  have fit: "?start + unat n \<le> NOR_FLASH_SIZE"
    using align_fits [of "unat (ns_nor_read_ind s)" NOR_FLASH_SIZE "unat n"] nor_start [OF assms(1)] assms(2)
    by (simp add: nor_inv_def)
  have out: "nor_new_data s ?start (unat n) i = ns_nor_data s i" if "\<not> (?start \<le> i \<and> i < ?start + unat n)" for i
    using that nor_op_length_page [OF assms(1)] by (auto simp: nor_new_data_def fill_range_def)
  obtain r t1 where
    "nor_persist h (s\<lparr>ns_nor_data := nor_new_data s ?start (unat n)\<rparr>) ?start (unat n) = Some (r, t1)"
    "t = (if r \<noteq> None then t1\<lparr>ns_status := ns_status t1 OR NOR_STATUS_EPE\<rparr> else t1)"
    using assms(3) by (auto simp: nor_apply_def bind_eq_Some_conv Let_def split: if_splits)
  with fit out that show ?thesis by blast
qed

lemma nor_persist_live:
  assumes "nor_persist h a i n = Some (r, t)" "\<not> ns_restore_pending a"
  shows "\<not> ns_restore_pending t \<and> ns_nor_initialized t = ns_nor_initialized a \<and> (ns_io_failed a \<longrightarrow> ns_io_failed t)"
  using assms by (auto simp: nor_persist_def agets_def split: if_splits option.splits prod.splits)

text \<open>One step of the mirror: a live chip stays live, a failure stays, and the mirror holds or the write failed.\<close>

definition nor_follows :: "('d nor \<Rightarrow> bool) \<Rightarrow> 'd nor \<Rightarrow> 'd nor \<Rightarrow> bool" where
  "nor_follows m s t = (nor_live t \<and> (ns_io_failed s \<longrightarrow> ns_io_failed t) \<and> (m s \<longrightarrow> m t \<or> ns_io_failed t))"

context block_driver
begin

lemma persist_mirrors:
  assumes "nh_drv h = drv" "nor_mirrored cells len c0 d0 s" "\<not> ns_restore_pending s" "start + n \<le> NOR_FLASH_SIZE"
    and "\<And>i. \<not> (start \<le> i \<and> i < start + n) \<Longrightarrow> d i = ns_nor_data s i"
    and "nor_persist h (s\<lparr>ns_nor_data := d\<rparr>) start n = Some (r, t)"
  shows "if r = None then nor_mirrored cells len c0 d0 t else ns_io_failed t"
proof -
  from assms(2) obtain blk where blk: "ns_blk s = Some blk" "blk_ok blk" "blk_len blk = NOR_FLASH_SIZE"
    and eq: "\<And>i. i < NOR_FLASH_SIZE \<Longrightarrow> blk_cells blk i = ns_nor_data s i \<or> blk_cells blk i = c0 i \<and> ns_nor_data s i = d0 i"
    by (auto simp: nor_mirrored_def blk_ok_def blk_len_def blk_cells_def split: option.splits)
  obtain r' blk' where w: "blk_pwrite drv blk (int start) (slice d start n) = (r', blk')" by fastforce
  note copy = pwrite_copy [OF blk(2) w]
  have t: "r = r'" "t = (if r' = None then s\<lparr>ns_nor_data := d, ns_blk := Some blk', ns_restore_pending := False\<rparr>
      else s\<lparr>ns_nor_data := d, ns_blk := Some blk', ns_io_failed := True\<rparr>)"
    using assms(1,3,4,6) blk(1) w by (auto simp: nor_persist_def split: option.splits)
  have "blk_cells blk' i = d i \<or> blk_cells blk' i = c0 i \<and> d i = d0 i" if "r' = None" "i < NOR_FLASH_SIZE" for i
    using copy that eq [of i] assms(5) [of i] by (auto simp: copy_in_def)
  with t copy blk(3) show ?thesis
    by (auto simp: nor_mirrored_def blk_ok_def blk_len_def blk_cells_def)
qed

lemma apply_mirrors:
  assumes "nh_drv h = drv" "nor_live s" "nor_op_length cmd = Some n" "nor_apply h s n = Some t"
  shows "nor_follows (nor_mirrored cells len c0 d0) s t"
proof -
  have inv: "nor_inv s" "\<not> ns_restore_pending s" "ns_nor_initialized s" using assms(2) by (simp_all add: nor_live_def)
  have "nor_inv t" using nor_apply_total [OF inv(1) assms(3), of h] assms(4) by auto
  obtain start d r t1 where p: "start + unat n \<le> NOR_FLASH_SIZE"
      "\<forall>i. \<not> (start \<le> i \<and> i < start + unat n) \<longrightarrow> d i = ns_nor_data s i"
      "nor_persist h (s\<lparr>ns_nor_data := d\<rparr>) start (unat n) = Some (r, t1)"
      "t = (if r \<noteq> None then t1\<lparr>ns_status := ns_status t1 OR NOR_STATUS_EPE\<rparr> else t1)"
    by (rule nor_apply_persist [OF assms(3) inv(1) assms(4)])
  have "nor_mirrored cells len c0 d0 s \<longrightarrow> nor_mirrored cells len c0 d0 t \<or> ns_io_failed t"
    using persist_mirrors [OF assms(1) _ inv(2) p(1) p(2) [rule_format] p(3)] p(4) by (auto split: if_splits)
  with \<open>nor_inv t\<close> nor_persist_live [OF p(3)] p(4) inv show ?thesis
    by (auto simp: nor_follows_def nor_live_def)
qed

lemma finish_mirrors:
  assumes "nh_drv h = drv" "nor_live s" "nor_finish_transaction h s = Some t"
  shows "nor_follows (nor_mirrored cells len c0 d0) s t"
proof (cases "nor_same_array s t")
  case True
  have "nor_inv t" using nor_finish_total [of s h] assms(2,3) by (auto simp: nor_live_def)
  moreover have "nor_mirrored cells len c0 d0 t = nor_mirrored cells len c0 d0 s"
    using True by (intro nor_mirrored_cong) (simp_all add: nor_same_array_def)
  ultimately show ?thesis using True assms(2) by (simp add: nor_follows_def nor_same_array_def nor_live_def)
next
  case False
  let ?s = "\<lambda>w st. s\<lparr>ns_write_enabled := w, ns_status := st\<rparr>"
  obtain n w st where "nor_op_length (ns_cur_cmd s) = Some n" "nor_apply h (?s w st) n = Some t"
    using False nor_finish_cases [of s h t] assms(2,3) by (auto simp: nor_live_def)
  moreover have "nor_live (?s w st)" using assms(2) by (simp add: nor_live_def nor_inv_def)
  moreover have "nor_mirrored cells len c0 d0 (?s w st) = nor_mirrored cells len c0 d0 s" for w st
    by (intro nor_mirrored_cong) simp_all
  ultimately show ?thesis
    using apply_mirrors [OF assms(1), of "?s w st"] by (fastforce simp: nor_follows_def)
qed

lemma step_mirrors:
  assumes "nh_drv h = drv" "nor_live s"
  shows "\<exists>t. nor_step h s e = Some t \<and> nor_follows (nor_mirrored cells len c0 d0) s t"
proof (cases e)
  case (NorSelect level)
  obtain t where t: "(if level then nor_finish_transaction h s else Some s) = Some t"
      "nor_follows (nor_mirrored cells len c0 d0) s t"
    using nor_finish_total [of s h] finish_mirrors [OF assms] assms(2)
    by (cases level) (auto simp: nor_live_def nor_follows_def)
  moreover have "nor_mirrored cells len c0 d0 (nor_reset_transaction t) = nor_mirrored cells len c0 d0 t"
    by (rule nor_mirrored_cong) simp_all
  ultimately show ?thesis
    using NorSelect by (simp add: ipod_touch_nor_spi_set_cs_def nor_follows_def nor_live_def)
next
  case (NorByte v)
  obtain r t where t: "ipod_touch_nor_spi_transfer h s v = Some (r, t)" "nor_inv t"
    using nor_transfer_total [of s h v] assms(2) by (auto simp: nor_live_def)
  moreover have "nor_same_chip s t" using nor_transfer_same t(1) assms(2) by (auto simp: nor_live_def)
  moreover from this have "nor_mirrored cells len c0 d0 t = nor_mirrored cells len c0 d0 s"
    by (intro nor_mirrored_cong) (simp_all add: nor_same_chip_def)
  ultimately show ?thesis
    using NorByte assms(2) by (auto simp: nor_follows_def nor_live_def nor_same_chip_def)
next
  case NorReset
  have "nor_mirrored cells len c0 d0 (ipod_touch_nor_spi_reset s) = nor_mirrored cells len c0 d0 s"
    by (intro nor_mirrored_cong) (simp_all add: ipod_touch_nor_spi_reset_def)
  with NorReset assms(2) show ?thesis
    by (simp add: nor_follows_def nor_live_def ipod_touch_nor_spi_reset_def nor_reset_transaction_def nor_inv_def)
qed

lemma run_mirrors:
  assumes "nh_drv h = drv" "nor_live s" "nor_mirrored cells len c0 d0 s \<or> ns_io_failed s"
  shows "\<exists>t. nor_run h s es = Some t \<and> (nor_mirrored cells len c0 d0 t \<or> ns_io_failed t)"
  using assms(2,3)
proof (induction es arbitrary: s)
  case (Cons e es)
  obtain t where "nor_step h s e = Some t" "nor_live t" "nor_mirrored cells len c0 d0 t \<or> ns_io_failed t"
    using step_mirrors [OF assms(1) Cons.prems(1), of e] Cons.prems(2) by (auto simp: nor_follows_def)
  with Cons.IH [of t] show ?case by auto
qed simp

end

section \<open>Opening the writable copy\<close>

context reliable_driver
begin

text \<open>A chip opened on a copy of the right size holds that copy with every bank patched.\<close>

lemma initialize_banks:
  assumes "nh_drv h = drv" "ns_blk s = Some blk" "blk_ok blk" "blk_len blk = NOR_FLASH_SIZE" "k < 128"
  shows "ns_nor_size (initialize_nor h s) = of_nat NOR_FLASH_SIZE
     \<and> nor_bank (ns_nor_data (initialize_nor h s)) k = nor_patch h (ns_boot_args s) (nor_bank (blk_cells blk) k)"
proof -
  let ?a = "copy_in (nor_blank (ns_nor_data s)) 0 (slice (blk_cells blk) 0 NOR_FLASH_SIZE)"
  have "k * NVRAM_BANK_SIZE + NVRAM_BANK_SIZE \<le> NOR_FLASH_SIZE"
    using assms(5) by (simp add: NVRAM_BANK_SIZE_def NOR_FLASH_SIZE_def)
  then have a: "nor_bank ?a k = nor_bank (blk_cells blk) k"
    by (auto simp: list_eq_iff_nth_eq copy_in_def)
  have ks: "NOR_FLASH_SIZE div NVRAM_BANK_SIZE = 128" by (simp add: NOR_FLASH_SIZE_def NVRAM_BANK_SIZE_def)
  have "blk_pread drv blk 0 (int NOR_FLASH_SIZE) = Inr (slice (blk_cells blk) 0 NOR_FLASH_SIZE)"
    using pread_works [OF assms(3), of 0 NOR_FLASH_SIZE] assms(4) by simp
  then show ?thesis
    using assms(1,2,5) a nor_banks_bank [of "[0 ..< 128]"]
    by (auto simp: initialize_nor_def Let_def nor_set_boot_args_def nor_patch_def ks split: option.split list.split)
qed

lemma open_banks:
  assumes "nh_drv h = drv" "ipod_touch_nor_spi_open_overlay h writable base (Some node) attached s0 = (None, s)"
  shows "len node = NOR_FLASH_SIZE \<and> ns_blk s = blk_new_open (Some node) \<and> ns_io_failed s = ns_io_failed s0
     \<and> ns_nor_initialized s \<and> ns_restore_pending s = ns_restore_pending s0 \<and> ns_nor_read_ind s = ns_nor_read_ind s0
     \<and> (\<forall>k < 128. nor_bank (ns_nor_data s) k = nor_patch h (ns_boot_args s0) (nor_bank (cells node) k))"
proof -
  obtain blk where blk: "blk_new_open (Some node) = Some blk" "blk_ok blk" "blk_root blk = node"
    using blk_new_open_iff by (auto simp: blk_new_open_def)
  have s: "s = initialize_nor h (s0\<lparr>ns_blk := Some blk\<rparr>)" "blk_getlength drv blk = Inr (int NOR_FLASH_SIZE)"
    using assms blk(1) by (auto simp: ipod_touch_nor_spi_open_overlay_def Let_def split: sum.splits option.splits if_splits)
  have "blk_len blk = NOR_FLASH_SIZE" using s(2) getlength_len [OF blk(2)] by simp
  with initialize_banks [OF assms(1) _ blk(2), of "s0\<lparr>ns_blk := Some blk\<rparr>"] blk s(1) show ?thesis
    by (simp add: blk_len_def blk_cells_def)
qed

lemma reopen_works:
  assumes "nh_drv h = drv" "ipod_touch_nor_spi_open_overlay h writable base (Some node) attached s0 = (None, s)"
    and "len node' = NOR_FLASH_SIZE" "ns_nor_path s1 = ns_nor_path s0"
  shows "fst (ipod_touch_nor_spi_open_overlay h writable base (Some node') attached s1) = None"
proof -
  obtain blk where blk: "blk_new_open (Some node') = Some blk" "blk_ok blk" "blk_root blk = node'"
    using blk_new_open_iff by (auto simp: blk_new_open_def)
  then have "blk_getlength drv blk = Inr (int NOR_FLASH_SIZE)"
      "ns_nor_size (initialize_nor h (s1\<lparr>ns_blk := Some blk\<rparr>)) = of_nat NOR_FLASH_SIZE"
    using getlength_len [OF blk(2)] initialize_banks [OF assms(1) _ blk(2), of "s1\<lparr>ns_blk := Some blk\<rparr>" 0] assms(3)
    by (simp_all add: blk_len_def)
  with assms(1,2,4) blk(1) show ?thesis
    by (auto simp: ipod_touch_nor_spi_open_overlay_def Let_def split: sum.splits option.splits if_splits)
qed

end

lemma nor_chip_simps [simp]:
  "ns_nor_path (nor_chip path args) = path" "ns_boot_args (nor_chip path args) = args"
  "ns_nor_read_ind (nor_chip path args) = 0" "\<not> ns_restore_pending (nor_chip path args)" "\<not> ns_io_failed (nor_chip path args)"
  by (simp_all add: nor_chip_def ipod_touch_nor_spi_realize_def)

text \<open>A bank the patch left alone at opening is the same on the copy and in the array ever after.\<close>

lemma nor_bank_mirrored:
  assumes "\<And>i. i < NOR_FLASH_SIZE \<Longrightarrow> c i = d i \<or> c i = c0 i \<and> d i = d0 i"
    and "nor_bank d0 k = nor_bank c0 k" "k < 128"
  shows "nor_bank c k = nor_bank d k"
proof -
  have "k * NVRAM_BANK_SIZE + j < NOR_FLASH_SIZE" if "j < NVRAM_BANK_SIZE" for j
    using that assms(3) by (simp add: NVRAM_BANK_SIZE_def NOR_FLASH_SIZE_def)
  with assms(1,2) show ?thesis by (fastforce simp: list_eq_iff_nth_eq)
qed

text \<open>
  C4. Programming is durable. A board's chip opened on its writable copy then takes any sequence of
  chip selects, bytes and resets. As long as no write to the copy failed, every byte of the copy is
  the array's, except where the boot-args patch changed the array at opening and no command has
  covered the byte since. The machine started again opens the copy, and in every 8 KiB bank that the
  patch had left alone its array is the one the first run ended with, patched with the new boot-args
  (so, without boot-args, the whole array is exactly that one).
\<close>

theorem nor_survives_restart:
  assumes "nh_drv h = raw_ops"
    and "ipod_touch_nor_spi_open_overlay h writable base (Some disk) attached (nor_chip path args) = (None, s)"
  shows "\<exists>s' disk'. nor_run h s es = Some s' \<and> (\<not> ns_io_failed s' \<longrightarrow> ns_blk s' = blk_new_open (Some disk')
     \<and> (\<forall>i < NOR_FLASH_SIZE. rf_bytes disk' i = ns_nor_data s' i
          \<or> (ns_nor_data s' i = ns_nor_data s i \<and> ns_nor_data s i \<noteq> rf_bytes disk i \<and> rf_bytes disk' i = rf_bytes disk i))
     \<and> (\<exists>s2. ipod_touch_nor_spi_open_overlay h writable base (Some disk') attached (nor_chip path args') = (None, s2)
          \<and> (\<forall>k < 128. nor_patch h args (nor_bank (rf_bytes disk) k) = nor_bank (rf_bytes disk) k \<longrightarrow>
                nor_bank (ns_nor_data s2) k = nor_patch h args' (nor_bank (ns_nor_data s') k))))"
proof -
  note op = raw.open_banks [OF assms]
  have "nor_live s" using op by (simp add: nor_live_def nor_inv_def NOR_FLASH_SIZE_def)
  moreover have "nor_mirrored rf_bytes rf_size (rf_bytes disk) (ns_nor_data s) s"
    using op by (auto simp: nor_mirrored_def blk_new_open_def)
  ultimately obtain s' where s': "nor_run h s es = Some s'"
      "nor_mirrored rf_bytes rf_size (rf_bytes disk) (ns_nor_data s) s' \<or> ns_io_failed s'"
    using raw.run_mirrors [OF assms(1)] by blast
  show ?thesis
  proof (cases "ns_io_failed s'")
    case False
    with s'(2) obtain blk where blk: "ns_blk s' = Some blk" "raw.blk_ok blk" "rf_size (blk_root blk) = NOR_FLASH_SIZE"
      and m: "\<And>i. i < NOR_FLASH_SIZE \<Longrightarrow> rf_bytes (blk_root blk) i = ns_nor_data s' i
        \<or> rf_bytes (blk_root blk) i = rf_bytes disk i \<and> ns_nor_data s' i = ns_nor_data s i"
      by (auto simp: nor_mirrored_def raw.blk_ok_def split: option.splits)
    obtain s2 where s2: "ipod_touch_nor_spi_open_overlay h writable base (Some (blk_root blk)) attached (nor_chip path args') = (None, s2)"
      using raw.reopen_works [OF assms blk(3), of "nor_chip path args'"] by (auto simp: prod_eq_iff)
    have "nor_bank (ns_nor_data s2) k = nor_patch h args' (nor_bank (ns_nor_data s') k)"
      if "k < 128" "nor_patch h args (nor_bank (rf_bytes disk) k) = nor_bank (rf_bytes disk) k" for k
      using raw.open_banks [OF assms(1) s2] nor_bank_mirrored [OF m _ that(1)] op that by simp
    moreover have "ns_blk s' = blk_new_open (Some (blk_root blk))"
      using blk(1,2) raw.blk_new_open_iff [of "blk_root blk" blk] by simp
    moreover have "rf_bytes (blk_root blk) i = ns_nor_data s' i
        \<or> (ns_nor_data s' i = ns_nor_data s i \<and> ns_nor_data s i \<noteq> rf_bytes disk i \<and> rf_bytes (blk_root blk) i = rf_bytes disk i)"
      if "i < NOR_FLASH_SIZE" for i
      using m [OF that] by auto
    ultimately show ?thesis
      using s'(1) s2 by (intro exI [of _ s'] exI [of _ "blk_root blk"]) auto
  qed (use s'(1) in auto)
qed

text \<open>A writable copy of a blank flash but for one byte, on a host that answers as it should.\<close>

definition nor_sample_disk :: raw_file where
  "nor_sample_disk = \<lparr>rf_bytes = (\<lambda>i. if i = 0x10001 then 0xf0 else 0xff), rf_size = 0x100000, rf_broken = False\<rparr>"

definition nor_sample_stat :: host_stat where
  "nor_sample_stat = \<lparr>st_dev = 1, st_ino = 2, st_isreg = True\<rparr>"

abbreviation nor_sample_program :: "nor_event list" where
  "nor_sample_program \<equiv> [NorReset, NorSelect False, NorByte 6, NorSelect True,
     NorSelect False, NorByte 1, NorByte 0, NorSelect True, NorSelect False, NorByte 6, NorSelect True,
     NorSelect False, NorByte 2, NorByte 1, NorByte 0, NorByte 0, NorByte 0x12, NorSelect True]"

theorem nor_survives_restart_witness:
  "\<exists>s s' disk' s2.
     ipod_touch_nor_spi_open_overlay nor_sample_host (Inr nor_sample_stat) (Inl EIO) (Some nor_sample_disk) True
       (nor_chip False None) = (None, s)
     \<and> nor_run nor_sample_host s nor_sample_program = Some s' \<and> ns_nor_data s' 0x10000 = 0x12
     \<and> ipod_touch_nor_spi_open_overlay nor_sample_host (Inr nor_sample_stat) (Inl EIO) (Some disk') True
       (nor_chip False None) = (None, s2)
     \<and> (\<forall>k < 128. nor_bank (ns_nor_data s2) k = nor_bank (ns_nor_data s') k)"
proof -
  let ?open = "\<lambda>disk. ipod_touch_nor_spi_open_overlay nor_sample_host (Inr nor_sample_stat) (Inl EIO) (Some disk) True (nor_chip False None)"
  have drv: "nh_drv nor_sample_host = raw_ops" by (simp add: nor_sample_host_def)
  obtain blk where blk: "blk_new_open (Some nor_sample_disk) = Some blk" "raw.blk_ok blk" "blk_root blk = nor_sample_disk"
    using raw.blk_new_open_iff by (auto simp: blk_new_open_def)
  have len: "raw.blk_len blk = NOR_FLASH_SIZE"
    by (simp add: raw.blk_len_def blk(3) nor_sample_disk_def NOR_FLASH_SIZE_def)
  define s where "s = initialize_nor nor_sample_host ((nor_chip False None)\<lparr>ns_blk := Some blk\<rparr>)"
  have size: "ns_nor_size s = 0x100000"
    using raw.initialize_banks [OF drv _ blk(2) len, of "(nor_chip False None)\<lparr>ns_blk := Some blk\<rparr>" 0] by (simp add: s_def)
  have s: "?open nor_sample_disk = (None, s)"
    using blk(1) raw.getlength_len [OF blk(2)] len size drv
    by (simp add: ipod_touch_nor_spi_open_overlay_def nor_sample_stat_def Let_def s_def)
  have "nor_bank (ns_nor_data s) 8 = nor_bank (rf_bytes nor_sample_disk) 8"
    using raw.open_banks [OF drv s] by (simp add: nor_patch_def)
  then have "nor_bank (ns_nor_data s) 8 ! 0 = nor_bank (rf_bytes nor_sample_disk) 8 ! 0" by simp
  then have d: "ns_nor_data s 0x10000 = 0xff" by (simp add: NVRAM_BANK_SIZE_def nor_sample_disk_def)
  have live: "ns_nor_initialized s" "\<not> ns_restore_pending s" "\<not> ns_io_failed s"
    "ns_blk s = Some \<lparr>blk_available = True, blk_allow_write_beyond_eof = False, blk_root = nor_sample_disk\<rparr>"
    using blk(1) by (simp_all add: s_def blk_new_open_def)
  have run: "case nor_run nor_sample_host s nor_sample_program of
      None \<Rightarrow> False | Some s' \<Rightarrow> ns_nor_data s' 0x10000 = 0x12 \<and> \<not> ns_io_failed s'"
    using d live size
    by (simp add: ipod_touch_nor_spi_reset_def ipod_touch_nor_spi_set_cs_def ipod_touch_nor_spi_transfer_def
        nor_reset_transaction_def nor_finish_transaction_def nor_data_byte_def nor_byte_addressed_def nor_write_status_def
        nor_cmds NOR_FLASH_SIZE_def NOR_PAGE_SIZE_def aset_def aget_def nor_addressed_def nor_op_length_def nor_apply_def
        nor_persist_def nor_sample_host_def nor_new_data_def blk_pwrite_def agets_def nor_sample_disk_def
        blk_check_byte_request_def raw_ops_def NOR_STATUS_SWP_def NOR_STATUS_EPE_def NOR_STATUS_SPRL_def Let_def)
  from nor_survives_restart [OF drv s, of nor_sample_program None] obtain s' disk' s2 where
    "nor_run nor_sample_host s nor_sample_program = Some s'" "\<not> ns_io_failed s' \<longrightarrow> ?open disk' = (None, s2)
       \<and> (\<forall>k < 128. nor_bank (ns_nor_data s2) k = nor_bank (ns_nor_data s') k)"
    by (auto simp: nor_patch_def)
  with run s show ?thesis by auto
qed

end
