(* ===== verification/NAND_Image.thy ===== *)
theory NAND_Image
  imports Block
begin

text \<open>
  The NAND image store of \<open>hw/arm/nand-image.c\<close>: one raw file per chip select, a record
  (page data, then spare) per page, stored XOR the blank record so that a hole reads as an
  erased page. What the JSON reader finds and the state of the host's chip files are arguments of
  the opening; \<open>ni_failed\<close> is the process-wide flag \<open>nand_image_failed\<close>. Offsets are
  computed in \<open>int64_t\<close>, and leaving its range is a host failure.
\<close>

definition NAND_IMAGE_MAX_CHIPS :: nat where "NAND_IMAGE_MAX_CHIPS = 8"

definition NAND_IMAGE_FORMAT :: string where "NAND_IMAGE_FORMAT = ''nand-xor-blank-v2''"

record nand_geometry =
  ng_chips :: u32
  ng_page_bytes :: u32
  ng_spare_bytes :: u32
  ng_pages_per_block :: u32
  ng_blocks_per_chip :: u32

record 'd nand_image =
  ni_chip :: "'d block_backend option carray"
  ni_geo :: nand_geometry
  ni_stride :: u32
  ni_blank :: "u8 list"
  ni_buffer :: "u8 list"
  ni_failed :: bool

section \<open>Opening a store\<close>

text \<open>What the code asks of \<open>geometry.json\<close>: a string or an unsigned number under a key.\<close>

record geometry_json =
  gj_str :: "string \<Rightarrow> string option"
  gj_uint :: "string \<Rightarrow> u64 option"

datatype nand_open_error = NotAStore | GeometryDiffers string | TooManyChips | UnknownBlank | CannotOpen nat

definition nand_image_is_store :: "geometry_json option \<Rightarrow> bool" where
  "nand_image_is_store g =
     (case g of None \<Rightarrow> False | Some j \<Rightarrow> gj_str j ''storage_format'' = Some NAND_IMAGE_FORMAT)"

text \<open>
  A host file as the opening finds it: whether it can be opened and examined, its bytes and size,
  whether it can be extended, and whether the raw driver, the attachment and the permissions
  work out. \<open>hf_broken\<close> is a disk that refuses writes later.
\<close>

record host_file =
  hf_open :: bool
  hf_bytes :: "u8 carray"
  hf_size :: nat
  hf_truncate :: bool
  hf_bdrv_open :: bool
  hf_attach :: bool
  hf_insert :: bool
  hf_broken :: bool

text \<open>An empty file that is opened for writing is extended to its size, which reads as zeros.\<close>

definition nand_image_open_file :: "host_file \<Rightarrow> nat \<Rightarrow> bool \<Rightarrow> raw_file block_backend option" where
  "nand_image_open_file f sz writable =
     (let extend = (writable \<and> hf_size f = 0) in
      if \<not> hf_open f \<or> extend \<and> \<not> hf_truncate f then None
      else if hf_size f \<noteq> sz \<and> \<not> extend then None
      else if \<not> hf_bdrv_open f then None
      else if \<not> hf_attach f then None
      else if \<not> hf_insert f then None
      else Some \<lparr>blk_available = True, blk_allow_write_beyond_eof = False,
        blk_root = \<lparr>rf_bytes = (if extend then fill_range (hf_bytes f) 0 sz 0 else hf_bytes f), rf_size = sz,
                    rf_broken = (hf_broken f \<or> \<not> writable)\<rparr>\<rparr>)"

text \<open>
  The blank record, \<open>None\<close> for a name that is not known. The generated layout stores the
  little-endian word 0x00ff00ff at spare byte 8 of a record whose size is a 32-bit sum; a store past
  its end is a host failure.
\<close>

definition nand_image_blank :: "string option \<Rightarrow> u32 \<Rightarrow> u32 \<Rightarrow> u8 list option option" where
  "nand_image_blank name page_bytes spare_bytes =
     (if name = Some ''ff'' then Some (Some (replicate (unat (page_bytes + spare_bytes)) 0xff))
      else if name = Some ''n72-generated'' \<and> 12 \<le> spare_bytes then
        (let rec = replicate (unat (page_bytes + spare_bytes)) 0; at = unat page_bytes + 8 in
         if at + 4 \<le> length rec then Some (Some (rec[at := 0xff, at + 1 := 0, at + 2 := 0xff, at + 3 := 0])) else None)
      else Some None)"

definition nand_geometry_keys :: "nand_geometry \<Rightarrow> (string \<times> u32) list" where
  "nand_geometry_keys geo =
     [(''chip_selects'', ng_chips geo), (''page_bytes'', ng_page_bytes geo), (''spare_bytes'', ng_spare_bytes geo),
      (''pages_per_block'', ng_pages_per_block geo), (''blocks_per_ce'', ng_blocks_per_chip geo)]"

fun nand_check_keys :: "geometry_json \<Rightarrow> (string \<times> u32) list \<Rightarrow> nand_open_error option" where
  "nand_check_keys g [] = None"
| "nand_check_keys g ((k, want) # rest) =
     (case gj_uint g k of
        None \<Rightarrow> Some (GeometryDiffers k)
      | Some got \<Rightarrow> if got \<noteq> ucast want then Some (GeometryDiffers k) else nand_check_keys g rest)"

fun nand_open_chips ::
  "(nat \<Rightarrow> nat \<Rightarrow> 'd block_backend option) \<Rightarrow> nat \<Rightarrow> nat list \<Rightarrow> 'd nand_image \<Rightarrow> nand_open_error + 'd nand_image" where
  "nand_open_chips open_file sz [] n = Inr n"
| "nand_open_chips open_file sz (i # is) n =
     (case open_file i sz of
        None \<Rightarrow> Inl (CannotOpen i)
      | Some blk \<Rightarrow> nand_open_chips open_file sz is (n\<lparr>ni_chip := (ni_chip n)(i := Some blk)\<rparr>))"

text \<open>\<open>size_t\<close> has 64 bits: the size of a chip file wraps there.\<close>

definition nand_image_open ::
  "geometry_json option \<Rightarrow> (nat \<Rightarrow> nat \<Rightarrow> 'd block_backend option) \<Rightarrow> nand_geometry \<Rightarrow>
     (nand_open_error + 'd nand_image) option" where
  "nand_image_open json open_file geo =
     (case json of
        None \<Rightarrow> Some (Inl NotAStore)
      | Some g \<Rightarrow>
          if gj_str g ''storage_format'' \<noteq> Some NAND_IMAGE_FORMAT then Some (Inl NotAStore)
          else (case nand_check_keys g (nand_geometry_keys geo) of
             Some e \<Rightarrow> Some (Inl e)
           | None \<Rightarrow>
               if unat (ng_chips geo) > NAND_IMAGE_MAX_CHIPS then Some (Inl TooManyChips)
               else let stride = ng_page_bytes geo + ng_spare_bytes geo in
                 do { named \<leftarrow> nand_image_blank (gj_str g ''blank'') (ng_page_bytes geo) (ng_spare_bytes geo);
                      Some (case named of
                        None \<Rightarrow> Inl UnknownBlank
                      | Some blank \<Rightarrow>
                          nand_open_chips open_file
                            (unat (ucast (ng_blocks_per_chip geo) * ucast (ng_pages_per_block geo) * ucast stride :: u64))
                            [0 ..< unat (ng_chips geo)]
                            \<lparr>ni_chip = (\<lambda>_. None), ni_geo = geo, ni_stride = stride, ni_blank = blank, ni_buffer = [],
                             ni_failed = False\<rparr>) }))"

section \<open>Flushing, reading, writing and erasing\<close>

fun nand_flush_chips :: "('d block_backend \<Rightarrow> errno option) \<Rightarrow> 'd nand_image \<Rightarrow> nat list \<Rightarrow> 'd nand_image option" where
  "nand_flush_chips flush n [] = Some n"
| "nand_flush_chips flush n (i # is) =
     do { c \<leftarrow> aget NAND_IMAGE_MAX_CHIPS (ni_chip n) i;
          blk \<leftarrow> c;
          nand_flush_chips flush (if flush blk \<noteq> None then n\<lparr>ni_failed := True\<rparr> else n) is }"

definition nand_image_vm_state ::
  "('d block_backend \<Rightarrow> errno option) \<Rightarrow> 'd nand_image \<Rightarrow> bool \<Rightarrow> 'd nand_image option" where
  "nand_image_vm_state flush n running =
     (if running then Some n else nand_flush_chips flush n [0 ..< unat (ng_chips (ni_geo n))])"

definition nand_image_bad :: "'d nand_image \<Rightarrow> u32 \<Rightarrow> u32 \<Rightarrow> bool option" where
  "nand_image_bad n chip page =
     (if ng_chips (ni_geo n) \<le> chip then Some True
      else if ng_pages_per_block (ni_geo n) = 0 then None
      else Some (ng_blocks_per_chip (ni_geo n) \<le> page div ng_pages_per_block (ni_geo n)))"

definition nand_image_xor :: "'d nand_image \<Rightarrow> u8 list \<Rightarrow> u8 list option" where
  "nand_image_xor n input =
     (let len = unat (ni_stride n) in
      if len \<le> length input \<and> len \<le> length (ni_blank n)
      then Some (map2 (XOR) (take len input) (take len (ni_blank n))) else None)"

text \<open>The chip's backend, which must be there, and a byte offset, which must fit.\<close>

definition nand_backend :: "'d nand_image \<Rightarrow> u32 \<Rightarrow> 'd block_backend option" where
  "nand_backend n chip = do { c \<leftarrow> aget NAND_IMAGE_MAX_CHIPS (ni_chip n) (unat chip); c }"

definition nand_offset :: "'d nand_image \<Rightarrow> nat \<Rightarrow> int option" where
  "nand_offset n page =
     (let off = int page * uint (ni_stride n) in if off < 2 ^ 63 then Some off else None)"

definition nand_image_read :: "'d bdrv_ops \<Rightarrow> 'd nand_image \<Rightarrow> u32 \<Rightarrow> u32 \<Rightarrow> (errno + u8 list) option" where
  "nand_image_read drv n chip page =
     do { bad \<leftarrow> nand_image_bad n chip page;
          if bad then Some (Inl EINVAL)
          else do { blk \<leftarrow> nand_backend n chip;
                    off \<leftarrow> nand_offset n (unat page);
                    case blk_pread drv blk off (int (unat (ni_stride n))) of
                      Inl e \<Rightarrow> Some (Inl e)
                    | Inr bs \<Rightarrow> map_option Inr (nand_image_xor n bs) } }"

definition nand_put :: "'d nand_image \<Rightarrow> u32 \<Rightarrow> errno option \<times> 'd block_backend \<Rightarrow> errno option \<times> 'd nand_image" where
  "nand_put n chip res =
     (fst res, n\<lparr>ni_chip := (ni_chip n)(unat chip := Some (snd res)), ni_failed := ni_failed n \<or> fst res \<noteq> None\<rparr>)"

definition nand_image_write ::
  "'d bdrv_ops \<Rightarrow> 'd nand_image \<Rightarrow> u32 \<Rightarrow> u32 \<Rightarrow> u8 list \<Rightarrow> (errno option \<times> 'd nand_image) option" where
  "nand_image_write drv n chip page rec =
     do { bad \<leftarrow> nand_image_bad n chip page;
          if bad then Some (Some EINVAL, n)
          else do { buf \<leftarrow> nand_image_xor n rec;
                    blk \<leftarrow> nand_backend n chip;
                    off \<leftarrow> nand_offset n (unat page);
                    Some (nand_put (n\<lparr>ni_buffer := buf\<rparr>) chip (blk_pwrite drv blk off buf)) } }"

definition nand_image_erase ::
  "'d bdrv_ops \<Rightarrow> 'd nand_image \<Rightarrow> u32 \<Rightarrow> u32 \<Rightarrow> (errno option \<times> 'd nand_image) option" where
  "nand_image_erase drv n chip block =
     (let first = (ucast block * ucast (ng_pages_per_block (ni_geo n)) :: u64) in
      if first > 0xffffffff then Some (Some EINVAL, n)
      else do { bad \<leftarrow> nand_image_bad n chip (ucast first);
                if bad then Some (Some EINVAL, n)
                else do { blk \<leftarrow> nand_backend n chip;
                          off \<leftarrow> nand_offset n (unat first);
                          len \<leftarrow> nand_offset n (unat (ng_pages_per_block (ni_geo n)));
                          Some (nand_put n chip (blk_pwrite_zeroes drv blk off len)) } })"

section \<open>The pages of a store\<close>

text \<open>The record of a page, and what a well-formed store is, over the cells and length of a driver's files.\<close>

definition nand_page :: "('d \<Rightarrow> u8 carray) \<Rightarrow> 'd nand_image \<Rightarrow> u32 \<Rightarrow> u32 \<Rightarrow> u8 list" where
  "nand_page cells n chip page =
     (case ni_chip n (unat chip) of
        None \<Rightarrow> []
      | Some blk \<Rightarrow> map2 (XOR) (slice (cells (blk_root blk)) (unat page * unat (ni_stride n)) (unat (ni_stride n))) (ni_blank n))"

definition nand_valid :: "'d nand_image \<Rightarrow> u32 \<Rightarrow> u32 \<Rightarrow> bool" where
  "nand_valid n chip page =
     (chip < ng_chips (ni_geo n) \<and> unat page div unat (ng_pages_per_block (ni_geo n)) < unat (ng_blocks_per_chip (ni_geo n)))"

definition nand_file_size :: "'d nand_image \<Rightarrow> nat" where
  "nand_file_size n =
     unat (ng_blocks_per_chip (ni_geo n)) * unat (ng_pages_per_block (ni_geo n)) * unat (ni_stride n)"

definition nand_ok :: "('d \<Rightarrow> nat) \<Rightarrow> 'd nand_image \<Rightarrow> bool" where
  "nand_ok len n =
     (unat (ng_chips (ni_geo n)) \<le> NAND_IMAGE_MAX_CHIPS \<and> ng_pages_per_block (ni_geo n) \<noteq> 0
      \<and> length (ni_blank n) = unat (ni_stride n) \<and> nand_file_size n < 2 ^ 63
      \<and> (\<forall>c < unat (ng_chips (ni_geo n)). case ni_chip n c of None \<Rightarrow> False
           | Some blk \<Rightarrow> blk_available blk \<and> \<not> blk_allow_write_beyond_eof blk \<and> len (blk_root blk) = nand_file_size n))"

text \<open>The pages of an erase block.\<close>

definition nand_in_block :: "'d nand_image \<Rightarrow> u32 \<Rightarrow> u32 \<Rightarrow> bool" where
  "nand_in_block n block page = (unat page div unat (ng_pages_per_block (ni_geo n)) = unat block)"

lemma nand_bad_valid:
  assumes "ng_pages_per_block (ni_geo n) \<noteq> 0"
  shows "nand_image_bad n chip page = Some (\<not> nand_valid n chip page)"
  using assms by (auto simp: nand_image_bad_def nand_valid_def word_le_nat_alt word_less_nat_alt unat_div_word)

lemma nand_backend_ok:
  assumes "nand_ok len n" "nand_valid n chip page"
  shows "\<exists>blk. ni_chip n (unat chip) = Some blk \<and> nand_backend n chip = Some blk
     \<and> blk_available blk \<and> \<not> blk_allow_write_beyond_eof blk \<and> len (blk_root blk) = nand_file_size n"
proof -
  have c: "unat chip < unat (ng_chips (ni_geo n))"
    using assms(2) by (simp add: nand_valid_def word_less_nat_alt)
  with assms(1) show ?thesis
    by (auto simp: nand_ok_def nand_backend_def aget_def split: option.splits dest!: spec [of _ "unat chip"])
qed

lemma nand_page_fits:
  assumes "nand_valid n chip page" "nand_ok len n"
  shows "unat page * unat (ni_stride n) + unat (ni_stride n) \<le> nand_file_size n"
proof -
  let ?p = "unat (ng_pages_per_block (ni_geo n))" and ?b = "unat (ng_blocks_per_chip (ni_geo n))"
  have "0 < ?p" using assms(2) by (simp add: nand_ok_def unat_gt_0)
  then have "Suc (unat page) \<le> ?b * ?p"
    using assms(1) by (simp add: nand_valid_def div_less_iff_less_mult Suc_le_eq)
  then have "Suc (unat page) * unat (ni_stride n) \<le> ?b * ?p * unat (ni_stride n)"
    by (rule mult_le_mono1)
  then show ?thesis by (simp add: nand_file_size_def add.commute)
qed

lemma map2_xor_twice: "length xs = length ys \<Longrightarrow> map2 (XOR) (map2 (XOR) xs ys) ys = (xs :: u8 list)"
  by (induction xs ys rule: list_induct2) (simp_all add: xor.assoc)

lemma map2_xor_zero: "length ys = k \<Longrightarrow> map2 (XOR) (replicate k 0) ys = (ys :: u8 list)"
  by (induction ys arbitrary: k) auto

section \<open>What a page store promises\<close>

text \<open>
  A store of fixed-size records by chip and page: a read that succeeds returns the page, a
  write that succeeds replaces exactly one page, an erase that succeeds makes exactly one
  block read blank; a failure is reported and leaves a working store.
\<close>

datatype flash_op = FWrite u32 u32 "u8 list" | FErase u32 u32

fun flash_spec :: "(u32 \<Rightarrow> u32 \<Rightarrow> bool) \<Rightarrow> u8 list \<Rightarrow> flash_op \<Rightarrow> (u32 \<Rightarrow> u32 \<Rightarrow> u8 list) \<Rightarrow> u32 \<Rightarrow> u32 \<Rightarrow> u8 list" where
  "flash_spec in_block blank (FWrite c p rec) m c' p' = (if c' = c \<and> p' = p then rec else m c' p')"
| "flash_spec in_block blank (FErase c b) m c' p' = (if c' = c \<and> in_block b p' then blank else m c' p')"

fun flash_fits :: "nat \<Rightarrow> flash_op \<Rightarrow> bool" where
  "flash_fits k (FWrite c p rec) = (length rec = k)"
| "flash_fits k (FErase c b) = True"

fun flash_do :: "('s \<Rightarrow> u32 \<Rightarrow> u32 \<Rightarrow> u8 list \<Rightarrow> (errno option \<times> 's) option) \<Rightarrow>
    ('s \<Rightarrow> u32 \<Rightarrow> u32 \<Rightarrow> (errno option \<times> 's) option) \<Rightarrow> 's \<Rightarrow> flash_op \<Rightarrow> (errno option \<times> 's) option" where
  "flash_do wr er s (FWrite c p rec) = wr s c p rec"
| "flash_do wr er s (FErase c b) = er s c b"

text \<open>A sequence of operations, up to the first that fails.\<close>

fun flash_run :: "('s \<Rightarrow> u32 \<Rightarrow> u32 \<Rightarrow> u8 list \<Rightarrow> (errno option \<times> 's) option) \<Rightarrow>
    ('s \<Rightarrow> u32 \<Rightarrow> u32 \<Rightarrow> (errno option \<times> 's) option) \<Rightarrow> 's \<Rightarrow> flash_op list \<Rightarrow> (errno option \<times> 's) option" where
  "flash_run wr er s [] = Some (None, s)"
| "flash_run wr er s (op # ops) =
     do { (e, s1) \<leftarrow> flash_do wr er s op; if e = None then flash_run wr er s1 ops else Some (e, s1) }"

locale page_store =
  fixes rd :: "'s \<Rightarrow> u32 \<Rightarrow> u32 \<Rightarrow> (errno + u8 list) option"
    and wr :: "'s \<Rightarrow> u32 \<Rightarrow> u32 \<Rightarrow> u8 list \<Rightarrow> (errno option \<times> 's) option"
    and er :: "'s \<Rightarrow> u32 \<Rightarrow> u32 \<Rightarrow> (errno option \<times> 's) option"
    and ok :: "'s \<Rightarrow> bool"
    and valid :: "'s \<Rightarrow> u32 \<Rightarrow> u32 \<Rightarrow> bool"
    and in_block :: "'s \<Rightarrow> u32 \<Rightarrow> u32 \<Rightarrow> bool"
    and blank :: "'s \<Rightarrow> u8 list"
    and page :: "'s \<Rightarrow> u32 \<Rightarrow> u32 \<Rightarrow> u8 list"
  assumes rd_page: "ok s \<Longrightarrow> \<exists>r. rd s c p = Some r \<and> (\<not> valid s c p \<longrightarrow> r = Inl EINVAL)
      \<and> (\<forall>rec. r = Inr rec \<longrightarrow> rec = page s c p)"
    and do_page: "ok s \<Longrightarrow> flash_fits (length (blank s)) op \<Longrightarrow> \<exists>e s'. flash_do wr er s op = Some (e, s') \<and> ok s'
      \<and> valid s' = valid s \<and> in_block s' = in_block s \<and> blank s' = blank s
      \<and> (e = None \<longrightarrow> (\<forall>c p. valid s c p \<longrightarrow> page s' c p = flash_spec (in_block s) (blank s) op (page s) c p))"
begin

lemma flash_spec_mono:
  "(\<And>c p. v c p \<Longrightarrow> m c p = m' c p) \<Longrightarrow> v c p \<Longrightarrow>
     fold (flash_spec ib bl) ops m c p = fold (flash_spec ib bl) ops m' c p"
proof (induction ops arbitrary: m m')
  case (Cons op ops)
  have "flash_spec ib bl op m c p = flash_spec ib bl op m' c p" if "v c p" for c p
    using Cons.prems(1) that by (cases op) simp_all
  then have "fold (flash_spec ib bl) ops (flash_spec ib bl op m) c p = fold (flash_spec ib bl) ops (flash_spec ib bl op m') c p"
    using Cons.IH [of "flash_spec ib bl op m" "flash_spec ib bl op m'"] Cons.prems(2) by blast
  then show ?case by simp
qed simp

lemma run_refines:
  assumes "ok s" "list_all (flash_fits (length (blank s))) ops"
  shows "\<exists>e s'. flash_run wr er s ops = Some (e, s') \<and> ok s' \<and> valid s' = valid s
     \<and> (e = None \<longrightarrow> (\<forall>c p. valid s c p \<longrightarrow> page s' c p = fold (flash_spec (in_block s) (blank s)) ops (page s) c p))"
  using assms
proof (induction ops arbitrary: s)
  case (Cons op ops)
  from Cons.prems do_page [of s op] obtain e s1 where
    1: "flash_do wr er s op = Some (e, s1)" "ok s1" "valid s1 = valid s" "in_block s1 = in_block s" "blank s1 = blank s"
      "e = None \<longrightarrow> (\<forall>c p. valid s c p \<longrightarrow> page s1 c p = flash_spec (in_block s) (blank s) op (page s) c p)"
    by auto
  from Cons.IH [OF 1(2)] Cons.prems(2) 1(5) obtain e' s' where
    2: "flash_run wr er s1 ops = Some (e', s')" "ok s'" "valid s' = valid s1"
      "e' = None \<longrightarrow> (\<forall>c p. valid s1 c p \<longrightarrow> page s' c p = fold (flash_spec (in_block s1) (blank s1)) ops (page s1) c p)"
    by auto
  have "page s' c p = fold (flash_spec (in_block s) (blank s)) (op # ops) (page s) c p"
    if "e = None" "e' = None" "valid s c p" for c p
    using flash_spec_mono [of "valid s" "page s1" "flash_spec (in_block s) (blank s) op (page s)" c p "in_block s" "blank s" ops]
      1 2 that by auto
  then show ?case using 1 2 by (cases e) auto
qed simp

lemma run_read:
  assumes "ok s" "list_all (flash_fits (length (blank s))) ops"
    and "flash_run wr er s ops = Some (None, s')" "rd s' c p = Some (Inr rec)"
  shows "rec = fold (flash_spec (in_block s) (blank s)) ops (page s) c p"
proof -
  from run_refines [OF assms(1,2)] assms(3) have 1: "ok s'" "valid s' = valid s"
    "valid s c p \<longrightarrow> page s' c p = fold (flash_spec (in_block s) (blank s)) ops (page s) c p" by auto
  from rd_page [OF 1(1), of c p] assms(4) 1 show ?thesis by auto
qed

end

section \<open>The image keeps the promise, over any block driver\<close>

lemma nand_offset_in_file:
  assumes "k * unat (ni_stride n) < 2 ^ 63"
  shows "nand_offset n k = Some (int (k * unat (ni_stride n)))"
proof -
  have "int (k * unat (ni_stride n)) < int (2 ^ 63)" using assms unfolding of_nat_less_iff .
  then show ?thesis by (simp add: nand_offset_def Let_def)
qed

lemma nand_offset_in:
  "nand_valid n chip page \<Longrightarrow> nand_ok len n \<Longrightarrow> nand_offset n (unat page) = Some (int (unat page * unat (ni_stride n)))"
  using nand_page_fits [of n chip page len] by (simp add: nand_offset_in_file nand_ok_def)

lemma nand_xor_in:
  "length input = unat (ni_stride n) \<Longrightarrow> length (ni_blank n) = unat (ni_stride n) \<Longrightarrow>
     nand_image_xor n input = Some (map2 (XOR) input (ni_blank n))"
  by (simp add: nand_image_xor_def)

lemma nand_put_frame [simp]:
  "nand_valid (snd (nand_put n chip res)) = nand_valid n" "nand_in_block (snd (nand_put n chip res)) = nand_in_block n"
  "ni_blank (snd (nand_put n chip res)) = ni_blank n" "fst (nand_put n chip res) = fst res"
  "nand_file_size (snd (nand_put n chip res)) = nand_file_size n" "ni_geo (snd (nand_put n chip res)) = ni_geo n"
  "ni_stride (snd (nand_put n chip res)) = ni_stride n"
  "ni_chip (snd (nand_put n chip res)) = (ni_chip n)(unat chip := Some (snd res))"
  by (simp_all add: nand_put_def nand_valid_def nand_in_block_def nand_file_size_def fun_eq_iff)

lemma nand_buffer_frame [simp]:
  "nand_page cells (n\<lparr>ni_buffer := b\<rparr>) = nand_page cells n" "nand_ok len (n\<lparr>ni_buffer := b\<rparr>) = nand_ok len n"
  "nand_valid (n\<lparr>ni_buffer := b\<rparr>) = nand_valid n" "nand_in_block (n\<lparr>ni_buffer := b\<rparr>) = nand_in_block n"
  "nand_file_size (n\<lparr>ni_buffer := b\<rparr>) = nand_file_size n"
  by (simp_all add: nand_page_def nand_ok_def nand_valid_def nand_in_block_def nand_file_size_def fun_eq_iff
      cong: option.case_cong)

lemma nand_put_ok:
  assumes "nand_ok len n" "chip < ng_chips (ni_geo n)" "blk_available (snd res)" "\<not> blk_allow_write_beyond_eof (snd res)"
    and "len (blk_root (snd res)) = nand_file_size n"
  shows "nand_ok len (snd (nand_put n chip res))"
  using assms by (simp add: nand_ok_def cong: option.case_cong)

lemma nand_put_page:
  "nand_page cells (snd (nand_put n chip res)) c p =
     (if c = chip then map2 (XOR) (slice (cells (blk_root (snd res))) (unat p * unat (ni_stride n)) (unat (ni_stride n))) (ni_blank n)
      else nand_page cells n c p)"
  by (simp add: nand_page_def word_unat_eq_iff cong: option.case_cong)

text \<open>Two different pages do not overlap, and a page is in a block or apart from it.\<close>

lemma nand_pages_apart:
  assumes "p \<noteq> (q :: nat)"
  shows "p * k + k \<le> q * k \<or> q * k + k \<le> p * k"
proof (cases "p < q")
  case True
  then have "Suc p * k \<le> q * k" by (intro mult_le_mono1) simp
  then show ?thesis by (simp add: add.commute)
next
  case False
  with assms have "Suc q * k \<le> p * k" by (intro mult_le_mono1) simp
  then show ?thesis by (simp add: add.commute)
qed

lemma nand_block_apart:
  assumes "0 < (b :: nat)"
  shows "(if p div b = q then q * b * k \<le> p * k \<and> p * k + k \<le> q * b * k + b * k
          else p * k + k \<le> q * b * k \<or> q * b * k + b * k \<le> p * k)"
proof -
  have le: "p * k + k \<le> r * k" if "p < r" for r
    using mult_le_mono1 [of "Suc p" r k] that by (simp add: add.commute)
  have p: "p div b * b \<le> p" "p < p div b * b + b"
    using div_mult_mod_eq [of p b] mod_less_divisor [OF assms, of p] by linarith+
  consider "p div b = q" | "p div b < q" | "q < p div b" by linarith
  then show ?thesis
  proof cases
    case 1
    then show ?thesis using p le [of "q * b + b"] mult_le_mono1 [of "q * b" p k] by (simp add: distrib_right)
  next
    case 2
    then have "p < q * b" by (simp add: div_less_iff_less_mult assms)
    then show ?thesis using 2 le [of "q * b"] by simp
  next
    case 3
    then have "(q + 1) * b \<le> p" using less_eq_div_iff_mult_less_eq [OF assms, of "q + 1" p] by simp
    then show ?thesis using 3 mult_le_mono1 [of "(q + 1) * b" p k] by (simp add: algebra_simps)
  qed
qed

lemma slice_fill_inside:
  "start \<le> i \<Longrightarrow> i + k \<le> start + n \<Longrightarrow> slice (fill_range a start n v) i k = replicate k v"
  by (intro nth_equalityI) (auto simp: fill_range_def)

lemma slice_fill_outside:
  "i + k \<le> start \<or> start + n \<le> i \<Longrightarrow> slice (fill_range a start n v) i k = slice a i k"
  by (intro nth_equalityI) (auto simp: fill_range_def)

context block_driver
begin

lemma nand_read_law:
  assumes "nand_ok len n"
  shows "\<exists>r. nand_image_read drv n c p = Some r \<and> (\<not> nand_valid n c p \<longrightarrow> r = Inl EINVAL)
      \<and> (\<forall>rec. r = Inr rec \<longrightarrow> rec = nand_page cells n c p)"
proof (cases "nand_valid n c p")
  case False
  then show ?thesis using assms by (simp add: nand_image_read_def nand_bad_valid nand_ok_def)
next
  case True
  from nand_backend_ok [OF assms True] obtain blk where blk: "ni_chip n (unat c) = Some blk"
    "nand_backend n c = Some blk" "blk_ok blk" "blk_len blk = nand_file_size n"
    by (auto simp: blk_ok_def blk_len_def)
  have n: "ng_pages_per_block (ni_geo n) \<noteq> 0" "length (ni_blank n) = unat (ni_stride n)"
    using assms by (simp_all add: nand_ok_def)
  let ?rd = "blk_pread drv blk (int (unat p * unat (ni_stride n))) (int (unat (ni_stride n)))"
  have rd: "nand_image_read drv n c p = (case ?rd of Inl e \<Rightarrow> Some (Inl e) | Inr bs \<Rightarrow> map_option Inr (nand_image_xor n bs))"
    using True blk(2) nand_offset_in [OF True assms] nand_bad_valid [OF n(1), of c p]
    by (simp add: nand_image_read_def)
  show ?thesis
  proof (cases ?rd)
    case (Inl e)
    with rd True show ?thesis by simp
  next
    case (Inr bs)
    then have "bs = slice (cells (blk_root blk)) (unat p * unat (ni_stride n)) (unat (ni_stride n))"
      using pread_slice [OF blk(3) Inr] by (simp add: blk_cells_def)
    with rd Inr True n blk(1) show ?thesis by (simp add: nand_xor_in nand_page_def)
  qed
qed

lemma nand_put_law:
  assumes "nand_ok len n" "c < ng_chips (ni_geo n)" "blk_ok blk'" "blk_len blk' = nand_file_size n"
  shows "nand_ok len (snd (nand_put n c (e, blk')))"
  using assms nand_put_ok [of len n c "(e, blk')"] by (simp add: blk_ok_def blk_len_def)

lemma nand_write_law:
  assumes "nand_ok len n" "length rec = length (ni_blank n)"
  shows "\<exists>e n'. nand_image_write drv n c p rec = Some (e, n') \<and> nand_ok len n'
     \<and> nand_valid n' = nand_valid n \<and> nand_in_block n' = nand_in_block n \<and> ni_blank n' = ni_blank n \<and> ni_geo n' = ni_geo n
     \<and> (e = None \<longrightarrow> (\<forall>c' p'. nand_page cells n' c' p' = (if c' = c \<and> p' = p then rec else nand_page cells n c' p')))"
proof (cases "nand_valid n c p")
  case False
  then show ?thesis using assms(1) by (simp add: nand_image_write_def nand_bad_valid nand_ok_def)
next
  case True
  let ?k = "unat (ni_stride n)" and ?buf = "map2 (XOR) rec (ni_blank n)"
  let ?n = "n\<lparr>ni_buffer := ?buf\<rparr>"
  from nand_backend_ok [OF assms(1) True] obtain blk where blk: "ni_chip n (unat c) = Some blk"
    "nand_backend n c = Some blk" "blk_ok blk" "blk_len blk = nand_file_size n"
    by (auto simp: blk_ok_def blk_len_def)
  have n: "ng_pages_per_block (ni_geo n) \<noteq> 0" "length (ni_blank n) = ?k" "c < ng_chips (ni_geo n)"
    using assms True by (simp_all add: nand_ok_def nand_valid_def)
  obtain e blk' where w: "blk_pwrite drv blk (int (unat p * ?k)) ?buf = (e, blk')" by fastforce
  note copy = pwrite_copy [OF blk(3) w]
  have wr: "nand_image_write drv n c p rec = Some (nand_put ?n c (e, blk'))"
    using True blk(2) nand_offset_in [OF True assms(1)] nand_bad_valid [OF n(1), of c p] w assms(2) n(2)
    by (simp add: nand_image_write_def nand_xor_in)
  have page: "nand_page cells (snd (nand_put ?n c (e, blk'))) c' p' = (if c' = c \<and> p' = p then rec else nand_page cells n c' p')"
    if "e = None" for c' p'
  proof (cases "c' = c")
    case False
    then show ?thesis by (simp add: nand_put_page)
  next
    case True
    have "slice (copy_in a (unat p * ?k) ?buf) (unat p * ?k) ?k = ?buf" for a :: "u8 carray"
      using slice_copy_in [of a "unat p * ?k" ?buf] assms(2) n(2) by simp
    moreover have "slice (copy_in a (unat p * ?k) ?buf) (unat p' * ?k) ?k = slice a (unat p' * ?k) ?k"
      if "p' \<noteq> p" for a :: "u8 carray"
      using slice_copy_in_other [of "unat p' * ?k" ?k "unat p * ?k" ?buf a] nand_pages_apart [of "unat p'" "unat p" ?k]
        that assms(2) n(2)
      by (simp add: word_unat_eq_iff)
    ultimately show ?thesis
      using True copy that blk(1) assms(2) by (auto simp: nand_put_page nand_page_def blk_cells_def map2_xor_twice)
  qed
  have "nand_ok len (snd (nand_put ?n c (e, blk')))"
    using nand_put_law [of ?n c blk' e] assms(1) n(3) copy blk(4) by simp
  with wr page show ?thesis
    by (intro exI [of _ e] exI [of _ "snd (nand_put ?n c (e, blk'))"]) (simp add: prod_eq_iff)
qed

lemma nand_erase_law:
  assumes "nand_ok len n"
  shows "\<exists>e n'. nand_image_erase drv n c b = Some (e, n') \<and> nand_ok len n'
     \<and> nand_valid n' = nand_valid n \<and> nand_in_block n' = nand_in_block n \<and> ni_blank n' = ni_blank n \<and> ni_geo n' = ni_geo n
     \<and> (e = None \<longrightarrow> (\<forall>c' p'. nand_valid n c' p' \<longrightarrow>
          nand_page cells n' c' p' = (if c' = c \<and> nand_in_block n b p' then ni_blank n else nand_page cells n c' p')))"
proof -
  let ?k = "unat (ni_stride n)" and ?g = "unat (ng_pages_per_block (ni_geo n))"
  let ?first = "ucast b * ucast (ng_pages_per_block (ni_geo n)) :: u64"
  have n: "ng_pages_per_block (ni_geo n) \<noteq> 0" "length (ni_blank n) = ?k" "0 < ?g"
    using assms by (simp_all add: nand_ok_def unat_gt_0)
  have first: "unat ?first = unat b * ?g"
    by (rule unat_mult_u64)
  show ?thesis
  proof (cases "?first > 0xffffffff \<or> \<not> nand_valid n c (ucast ?first)")
    case True
    then show ?thesis using assms nand_bad_valid [OF n(1), of c "ucast ?first"] by (auto simp: nand_image_erase_def Let_def)
  next
    case False
    define page where "page = (ucast ?first :: u32)"
    have page: "unat page = unat b * ?g" and valid: "nand_valid n c page"
      using False first unat_ucast_u32 [of ?first] by (simp_all add: page_def not_less)
    from nand_backend_ok [OF assms valid] obtain blk where blk: "ni_chip n (unat c) = Some blk"
      "nand_backend n c = Some blk" "blk_ok blk" "blk_len blk = nand_file_size n"
      by (auto simp: blk_ok_def blk_len_def)
    have "unat b < unat (ng_blocks_per_chip (ni_geo n))" "c < ng_chips (ni_geo n)"
      using valid n(3) by (auto simp: nand_valid_def page)
    then have "?g * ?k \<le> nand_file_size n"
      by (auto simp: nand_file_size_def)
    then have len: "nand_offset n ?g = Some (int (?g * ?k))"
      using assms by (simp add: nand_offset_in_file nand_ok_def)
    obtain e blk' where w: "blk_pwrite_zeroes drv blk (int (unat b * ?g * ?k)) (int (?g * ?k)) = (e, blk')" by fastforce
    note fill = zeroes_fill [OF blk(3) w]
    have er: "nand_image_erase drv n c b = Some (nand_put n c (e, blk'))"
      using False nand_bad_valid [OF n(1), of c page] valid blk(2) nand_offset_in [OF valid assms] len w
      by (simp add: nand_image_erase_def Let_def first page flip: page_def)
    have "nand_page cells (snd (nand_put n c (e, blk'))) c' p' =
        (if c' = c \<and> nand_in_block n b p' then ni_blank n else nand_page cells n c' p')" if "e = None" for c' p'
    proof (cases "c' = c")
      case True
      have old: "nand_page cells n c p' = map2 (XOR) (slice (cells (blk_root blk)) (unat p' * ?k) ?k) (ni_blank n)"
        by (simp add: nand_page_def blk(1))
      show ?thesis
        using True fill that n(2) nand_block_apart [OF n(3), of "unat p'" "unat b" ?k]
        by (auto simp: nand_put_page old nand_in_block_def blk_cells_def map2_xor_zero
            slice_fill_inside slice_fill_outside split: if_splits)
    qed (simp add: nand_put_page)
    then show ?thesis
      using er nand_put_law [OF assms, of c blk' e] fill blk(4) \<open>c < _\<close>
      by (intro exI [of _ e] exI [of _ "snd (nand_put n c (e, blk'))"]) (simp add: prod_eq_iff)
  qed
qed

end

text \<open>So an image over any block driver is a page store.\<close>

sublocale block_driver \<subseteq> nand: page_store "nand_image_read drv" "nand_image_write drv" "nand_image_erase drv"
    "nand_ok len" nand_valid nand_in_block ni_blank "nand_page cells"
proof
  fix s c p
  assume "nand_ok len s"
  then show "\<exists>r. nand_image_read drv s c p = Some r \<and> (\<not> nand_valid s c p \<longrightarrow> r = Inl EINVAL)
      \<and> (\<forall>rec. r = Inr rec \<longrightarrow> rec = nand_page cells s c p)"
    by (rule nand_read_law)
next
  fix s op
  assume "nand_ok len s" "flash_fits (length (ni_blank s)) op"
  then show "\<exists>e s'. flash_do (nand_image_write drv) (nand_image_erase drv) s op = Some (e, s') \<and> nand_ok len s'
      \<and> nand_valid s' = nand_valid s \<and> nand_in_block s' = nand_in_block s \<and> ni_blank s' = ni_blank s
      \<and> (e = None \<longrightarrow> (\<forall>c p. nand_valid s c p \<longrightarrow>
           nand_page cells s' c p = flash_spec (nand_in_block s) (ni_blank s) op (nand_page cells s) c p))"
  proof (cases op)
    case (FWrite c p rec)
    with nand_write_law [of s rec c p] \<open>nand_ok len s\<close> \<open>flash_fits _ _\<close> show ?thesis by auto
  next
    case (FErase c b)
    with nand_erase_law [of s c b] \<open>nand_ok len s\<close> show ?thesis by auto
  qed
qed

text \<open>
  C1. The NAND image refines a flash: after any sequence of page writes and block erases that
  succeeded on an image kept in raw files, a read that succeeds returns, for every chip and
  page, what the abstract flash holds: the record last written there, or the blank record
  where an erase came later, or what was there before.
\<close>

theorem nand_image_refines_flash:
  assumes "nand_ok rf_size n" "list_all (flash_fits (length (ni_blank n))) ops"
    and "flash_run (nand_image_write raw_ops) (nand_image_erase raw_ops) n ops = Some (None, n')"
    and "nand_image_read raw_ops n' chip page = Some (Inr rec)"
  shows "rec = fold (flash_spec (nand_in_block n) (ni_blank n)) ops (nand_page rf_bytes n) chip page"
  using raw.nand.run_read [OF assms] .

text \<open>A store of one chip with two blocks of two pages, all holes.\<close>

definition nand_sample_geo :: nand_geometry where
  "nand_sample_geo = \<lparr>ng_chips = 1, ng_page_bytes = 2, ng_spare_bytes = 1, ng_pages_per_block = 2, ng_blocks_per_chip = 2\<rparr>"

definition nand_sample_json :: geometry_json where
  "nand_sample_json =
     \<lparr>gj_str = [''storage_format'' \<mapsto> NAND_IMAGE_FORMAT, ''blank'' \<mapsto> ''ff''],
      gj_uint = [''chip_selects'' \<mapsto> 1, ''page_bytes'' \<mapsto> 2, ''spare_bytes'' \<mapsto> 1, ''pages_per_block'' \<mapsto> 2,
                 ''blocks_per_ce'' \<mapsto> 2]\<rparr>"

definition raw_open :: "nat \<Rightarrow> nat \<Rightarrow> raw_file block_backend option" where
  "raw_open i sz = Some \<lparr>blk_available = True, blk_allow_write_beyond_eof = False,
     blk_root = \<lparr>rf_bytes = (\<lambda>_. 0), rf_size = sz, rf_broken = False\<rparr>\<rparr>"

definition nand_sample :: "raw_file nand_image" where
  "nand_sample = \<lparr>ni_chip = (\<lambda>_. None)(0 := raw_open 0 12), ni_geo = nand_sample_geo, ni_stride = 3,
     ni_blank = [0xff, 0xff, 0xff], ni_buffer = [], ni_failed = False\<rparr>"

fun read_ok :: "(errno + 'a) option \<Rightarrow> bool" where
  "read_ok (Some (Inr x)) = True"
| "read_ok r = False"

lemma read_ok_iff: "read_ok r \<longleftrightarrow> (\<exists>x. r = Some (Inr x))"
  by (cases r rule: read_ok.cases) auto

theorem nand_image_refines_flash_witness:
  "\<exists>n'. flash_run (nand_image_write raw_ops) (nand_image_erase raw_ops) nand_sample
        [FWrite 0 3 [1, 2, 3], FWrite 0 1 [4, 5, 6], FErase 0 1] = Some (None, n')
     \<and> nand_image_read raw_ops n' 0 1 = Some (Inr [4, 5, 6]) \<and> nand_image_read raw_ops n' 0 3 = Some (Inr [0xff, 0xff, 0xff])"
proof -
  let ?ops = "[FWrite 0 3 [1, 2, 3], FWrite 0 1 [4, 5, 6], FErase 0 1]"
  have "case flash_run (nand_image_write raw_ops) (nand_image_erase raw_ops) nand_sample ?ops of
      None \<Rightarrow> False | Some (e, n') \<Rightarrow> Option.is_none e \<and> read_ok (nand_image_read raw_ops n' 0 1)
        \<and> read_ok (nand_image_read raw_ops n' 0 3)"
    by code_simp
  then obtain n' r1 r3 where run: "flash_run (nand_image_write raw_ops) (nand_image_erase raw_ops) nand_sample ?ops = Some (None, n')"
    and rd: "nand_image_read raw_ops n' 0 1 = Some (Inr r1)" "nand_image_read raw_ops n' 0 3 = Some (Inr r3)"
    by (auto simp: read_ok_iff Option.is_none_def simp del: flash_run.simps split: option.split_asm)
  have ok: "nand_ok rf_size nand_sample"
    by (simp add: nand_ok_def nand_sample_def nand_sample_geo_def NAND_IMAGE_MAX_CHIPS_def raw_open_def nand_file_size_def)
  have fits: "list_all (flash_fits (length (ni_blank nand_sample))) ?ops" by (simp add: nand_sample_def)
  let ?spec = "fold (flash_spec (nand_in_block nand_sample) (ni_blank nand_sample)) ?ops (nand_page rf_bytes nand_sample)"
  have "?spec 0 1 = [4, 5, 6] \<and> ?spec 0 3 = [0xff, 0xff, 0xff]" by code_simp
  then show ?thesis
    using run rd nand_image_refines_flash [OF ok fits run rd(1)] nand_image_refines_flash [OF ok fits run rd(2)] by simp
qed

section \<open>A store that opens is well formed\<close>

lemma nand_open_chips_spec:
  assumes "nand_open_chips open_file sz is n = Inr n'"
  shows "ni_geo n' = ni_geo n \<and> ni_stride n' = ni_stride n \<and> ni_blank n' = ni_blank n
     \<and> (\<forall>i. ni_chip n' i = (if i \<in> set is then open_file i sz else ni_chip n i)) \<and> (\<forall>i \<in> set is. open_file i sz \<noteq> None)"
  using assms by (induction "is" arbitrary: n) (auto split: option.splits)

lemma nand_blank_length:
  "nand_image_blank name p s = Some (Some blank) \<Longrightarrow> length blank = unat (p + s)"
  by (auto simp: nand_image_blank_def Let_def split: if_splits)

lemma nand_size_u64:
  fixes b g k :: u32
  assumes "unat b * unat g * unat k < 2 ^ 63"
  shows "unat (ucast b * ucast g * ucast k :: u64) = unat b * unat g * unat k"
proof -
  have "unat (ucast b * ucast g * ucast k :: u64) = unat (ucast b * ucast g :: u64) * unat (ucast k :: u64) mod 2 ^ 64"
    by (simp only: unat_word_ariths) simp
  then show ?thesis using assms by (simp add: unat_mult_u64 unat_ucast_u64)
qed

lemma nand_check_keys_None:
  "nand_check_keys g ks = None \<longleftrightarrow> (\<forall>(k, want) \<in> set ks. gj_uint g k = Some (ucast want))"
  by (induction g ks rule: nand_check_keys.induct) (auto split: option.splits)

lemma nand_image_open_cases:
  assumes "nand_image_open json open_file geo = Some (Inr n)"
  obtains g blank where "json = Some g" "gj_str g ''storage_format'' = Some NAND_IMAGE_FORMAT"
    "nand_check_keys g (nand_geometry_keys geo) = None" "unat (ng_chips geo) \<le> NAND_IMAGE_MAX_CHIPS"
    "length blank = unat (ng_page_bytes geo + ng_spare_bytes geo)"
    "nand_open_chips open_file
       (unat (ucast (ng_blocks_per_chip geo) * ucast (ng_pages_per_block geo) * ucast (ng_page_bytes geo + ng_spare_bytes geo) :: u64))
       [0 ..< unat (ng_chips geo)]
       \<lparr>ni_chip = (\<lambda>_. None), ni_geo = geo, ni_stride = ng_page_bytes geo + ng_spare_bytes geo, ni_blank = blank, ni_buffer = [],
        ni_failed = False\<rparr> = Inr n"
  using assms
  by (auto simp: nand_image_open_def Let_def bind_eq_Some_conv dest: nand_blank_length split: option.splits if_splits)

lemma nand_open_file_Some:
  assumes "nand_image_open_file f sz True = Some blk"
  shows "blk_available blk \<and> \<not> blk_allow_write_beyond_eof blk \<and> rf_size (blk_root blk) = sz \<and> (hf_size f = 0 \<or> hf_size f = sz)
     \<and> rf_bytes (blk_root blk) = (if hf_size f = 0 then fill_range (hf_bytes f) 0 sz 0 else hf_bytes f)"
  using assms by (auto simp: nand_image_open_file_def Let_def split: if_splits)

text \<open>
  C24. A store that opens is the store the model expects: its geometry file names the format and
  exactly the model's geometry; every chip file had the size that follows from it or was empty; the
  image is well formed, so that every later read, write and erase completes; and its pages
  are the contents of the files, all blank where a file was empty.
\<close>

theorem nand_image_open_ok:
  fixes fs :: "nat \<Rightarrow> host_file" and geo :: nand_geometry
  defines "stride \<equiv> unat (ng_page_bytes geo + ng_spare_bytes geo)"
  assumes "nand_image_open json (\<lambda>i sz. nand_image_open_file (fs i) sz True) geo = Some (Inr n)"
    and "ng_pages_per_block geo \<noteq> 0" "unat (ng_blocks_per_chip geo) * unat (ng_pages_per_block geo) * stride < 2 ^ 63"
  shows "(\<exists>g. json = Some g \<and> gj_str g ''storage_format'' = Some NAND_IMAGE_FORMAT
        \<and> gj_uint g ''chip_selects'' = Some (ucast (ng_chips geo)) \<and> gj_uint g ''page_bytes'' = Some (ucast (ng_page_bytes geo))
        \<and> gj_uint g ''spare_bytes'' = Some (ucast (ng_spare_bytes geo))
        \<and> gj_uint g ''pages_per_block'' = Some (ucast (ng_pages_per_block geo))
        \<and> gj_uint g ''blocks_per_ce'' = Some (ucast (ng_blocks_per_chip geo)))
     \<and> nand_ok rf_size n \<and> ni_geo n = geo
     \<and> (\<forall>c < unat (ng_chips geo). hf_size (fs c) = 0
          \<or> hf_size (fs c) = unat (ng_blocks_per_chip geo) * unat (ng_pages_per_block geo) * stride)
     \<and> (\<forall>c p. nand_valid n c p \<longrightarrow> nand_page rf_bytes n c p =
          (if hf_size (fs (unat c)) = 0 then ni_blank n
           else map2 (XOR) (slice (hf_bytes (fs (unat c))) (unat p * stride) stride) (ni_blank n)))"
proof -
  let ?size = "unat (ng_blocks_per_chip geo) * unat (ng_pages_per_block geo) * stride"
  note size = nand_size_u64 [OF assms(4) [unfolded stride_def], folded stride_def]
  from nand_image_open_cases [OF assms(2)] obtain g blank where
    g: "json = Some g" "gj_str g ''storage_format'' = Some NAND_IMAGE_FORMAT"
      "nand_check_keys g (nand_geometry_keys geo) = None" "unat (ng_chips geo) \<le> NAND_IMAGE_MAX_CHIPS" "length blank = stride"
    and chips: "nand_open_chips (\<lambda>i sz. nand_image_open_file (fs i) sz True) ?size [0 ..< unat (ng_chips geo)]
       \<lparr>ni_chip = (\<lambda>_. None), ni_geo = geo, ni_stride = ng_page_bytes geo + ng_spare_bytes geo, ni_blank = blank,
        ni_buffer = [], ni_failed = False\<rparr> = Inr n"
    unfolding size stride_def by blast
  note n = nand_open_chips_spec [OF chips]
  have opened: "\<exists>blk. ni_chip n c = Some blk \<and> nand_image_open_file (fs c) ?size True = Some blk" if "c < unat (ng_chips geo)" for c
    using n that by auto
  have sz: "nand_file_size n = ?size" using n by (simp add: nand_file_size_def stride_def)
  have ok: "nand_ok rf_size n"
    using n g(4,5) assms(3,4) sz opened nand_open_file_Some by (fastforce simp: nand_ok_def stride_def split: option.splits)
  have "nand_page rf_bytes n c p = (if hf_size (fs (unat c)) = 0 then ni_blank n
      else map2 (XOR) (slice (hf_bytes (fs (unat c))) (unat p * stride) stride) (ni_blank n))" if v: "nand_valid n c p" for c p
  proof -
    have c: "unat c < unat (ng_chips geo)" using v n by (simp add: nand_valid_def word_less_nat_alt)
    have fit: "unat p * stride + stride \<le> ?size" using nand_page_fits [OF v ok] n by (simp add: sz stride_def)
    obtain blk where "ni_chip n (unat c) = Some blk" "nand_image_open_file (fs (unat c)) ?size True = Some blk"
      using opened [OF c] by blast
    with nand_open_file_Some [OF this(2)] n g(5) fit show ?thesis
      by (simp add: nand_page_def slice_fill_inside map2_xor_zero flip: stride_def)
  qed
  moreover have "\<forall>c < unat (ng_chips geo). hf_size (fs c) = 0 \<or> hf_size (fs c) = ?size"
    using opened nand_open_file_Some by blast
  ultimately show ?thesis
    using g(1,2) g(3) [unfolded nand_check_keys_None] ok n by (simp add: nand_geometry_keys_def)
qed

definition nand_sample_file :: host_file where
  "nand_sample_file = \<lparr>hf_open = True, hf_bytes = (\<lambda>_. 7), hf_size = 0, hf_truncate = True, hf_bdrv_open = True,
     hf_attach = True, hf_insert = True, hf_broken = False\<rparr>"

theorem nand_image_open_ok_witness:
  "\<exists>n. nand_image_open (Some nand_sample_json) (\<lambda>i sz. nand_image_open_file nand_sample_file sz True) nand_sample_geo = Some (Inr n)
     \<and> nand_ok rf_size n \<and> nand_page rf_bytes n 0 3 = ni_blank n"
proof -
  let ?r = "nand_image_open (Some nand_sample_json) (\<lambda>i sz. nand_image_open_file nand_sample_file sz True) nand_sample_geo"
  have "case ?r of Some (Inr n) \<Rightarrow> nand_valid n 0 3 | _ \<Rightarrow> False"
    by code_simp
  then obtain n where n: "?r = Some (Inr n)" "nand_valid n 0 3" by (auto split: option.splits sum.splits)
  then show ?thesis
    using nand_image_open_ok [OF n(1)] by (simp add: nand_sample_geo_def nand_sample_file_def)
qed

end
