(* ===== verification/FMC.thy ===== *)
theory FMC
  imports NAND_Image
begin

text \<open>
  The raw NAND controller of \<open>hw/arm/s5l8900_fmc.c\<close>: eight banks of pages behind one FIFO,
  with a page list queued by the ADM for multi-page reads and programs. Pages live in a NAND
  image, or in a writable overlay directory of page files over a read-only base directory.
  A directory is a map from bank and page to the bytes of the page file, with the erase
  markers of the overlay. The host decides which file operations work (\<open>fmc_host\<close>): creating
  a directory, opening, closing and removing a file, and how many bytes of a page file reach
  the disk; \<open>fh_stack\<close> is what an uninitialised buffer on the stack holds. The host is
  little-endian. Logging and tracing are left out.
\<close>

definition FMC_NUM_BANKS :: nat where "FMC_NUM_BANKS = 8"
definition FMC_BYTES_PER_PAGE :: nat where "FMC_BYTES_PER_PAGE = 2048"
definition FMC_BYTES_PER_SPARE :: nat where "FMC_BYTES_PER_SPARE = 64"
definition FMC_META_BYTES :: nat where "FMC_META_BYTES = 12"
definition FMC_PAGES_PER_BLOCK :: u32 where "FMC_PAGES_PER_BLOCK = 128"
definition FMC_BLOCKS_PER_BANK :: u32 where "FMC_BLOCKS_PER_BANK = 4096"
definition FMC_PROGRAM_PAD :: u32 where "FMC_PROGRAM_PAD = 16"
definition FMC_CHIP_ID :: u32 where "FMC_CHIP_ID = 0xA514D3AD"
definition FMC_FMCTRL0 :: u64 where "FMC_FMCTRL0 = 0x0"
definition FMC_FMCTRL1 :: u64 where "FMC_FMCTRL1 = 0x4"
definition FMC_CMD :: u64 where "FMC_CMD = 0x8"
definition FMC_FMADDR0 :: u64 where "FMC_FMADDR0 = 0xC"
definition FMC_FMADDR1 :: u64 where "FMC_FMADDR1 = 0x10"
definition FMC_FMANUM :: u64 where "FMC_FMANUM = 0x2C"
definition FMC_FMDNUM :: u64 where "FMC_FMDNUM = 0x30"
definition FMC_FMCSTAT :: u64 where "FMC_FMCSTAT = 0x48"
definition FMC_FMFIFO :: u64 where "FMC_FMFIFO = 0x80"
definition FMC_RSCTRL :: u64 where "FMC_RSCTRL = 0x100"
definition FMC_CMD_ID :: u32 where "FMC_CMD_ID = 0x90"
definition FMC_CMD_READSTATUS :: u32 where "FMC_CMD_READSTATUS = 0x70"
definition FMC_MAX_LIST :: nat where "FMC_MAX_LIST = 512"

lemmas fmc_regs = FMC_FMCTRL0_def FMC_FMCTRL1_def FMC_CMD_def FMC_FMADDR0_def FMC_FMADDR1_def FMC_FMANUM_def
  FMC_FMDNUM_def FMC_FMCSTAT_def FMC_FMFIFO_def FMC_RSCTRL_def

lemmas fmc_sizes = FMC_BYTES_PER_PAGE_def FMC_BYTES_PER_SPARE_def FMC_MAX_LIST_def

record page_dir =
  pd_page :: "u32 \<Rightarrow> u32 \<Rightarrow> u8 list option"
  pd_erased :: "u32 \<Rightarrow> u32 \<Rightarrow> bool"

record 'd fmc_host =
  fh_drv :: "'d bdrv_ops"
  fh_mkdir :: bool
  fh_fopen :: bool
  fh_room :: nat
  fh_fclose :: bool
  fh_remove :: "u32 \<Rightarrow> u32 \<Rightarrow> bool"
  fh_stack :: "u8 carray"

record 'd fmc =
  fm_fmctrl0 :: u32
  fm_fmctrl1 :: u32
  fm_fmaddr0 :: u32
  fm_fmaddr1 :: u32
  fm_fmanum :: u32
  fm_fmdnum :: u32
  fm_rsctrl :: u32
  fm_cmd :: u32
  fm_reading_spare :: bool
  fm_page_buffer :: "u8 carray"
  fm_page_spare_buffer :: "u8 carray"
  fm_buffered_bank :: u32
  fm_buffered_page :: u32
  fm_reading_multiple_pages :: bool
  fm_cur_bank_reading :: u32
  fm_banks_to_read :: "u32 carray"
  fm_pages_to_read :: "u32 carray"
  fm_is_writing :: bool
  fm_prog_count :: u32
  fm_prog_index :: u32
  fm_prog_pad :: u32
  fm_prog_spares :: "u8 list carray"
  fm_nand_path :: "page_dir option"
  fm_nand_overlay :: "page_dir option"
  fm_banks :: u32
  fm_image :: "'d nand_image option"

section \<open>The page store\<close>

text \<open>\<open>int\<close> values are kept as the 32-bit words that represent them: -1 is the largest.\<close>

fun fmc_lowest_bank :: "u32 \<Rightarrow> nat list \<Rightarrow> nat option" where
  "fmc_lowest_bank bitmap [] = None"
| "fmc_lowest_bank bitmap (b # bs) = (if bitmap AND push_bit b 1 \<noteq> 0 then Some b else fmc_lowest_bank bitmap bs)"

definition fmc_active_bank :: "'d fmc \<Rightarrow> nat option" where
  "fmc_active_bank s = fmc_lowest_bank (drop_bit 1 (fm_fmctrl0 s) AND 0xFF) [0 ..< FMC_NUM_BANKS]"

definition s5l8900_fmc_set_bank :: "'d fmc \<Rightarrow> u32 \<Rightarrow> 'd fmc" where
  "s5l8900_fmc_set_bank s bank =
     (let ctrl = fm_fmctrl0 s AND NOT (push_bit 1 0xFF) in
      s\<lparr>fm_fmctrl0 := (if unat bank < FMC_NUM_BANKS then ctrl OR push_bit (unat bank + 1) 1 else ctrl)\<rparr>)"

text \<open>Reading a page file of the given bytes into the two buffers; a short file leaves the rest of them.\<close>

definition fmc_read_file :: "u8 list \<Rightarrow> u8 carray \<Rightarrow> u8 carray \<Rightarrow> u8 carray \<times> u8 carray" where
  "fmc_read_file file data spare =
     (copy_in data 0 (take FMC_BYTES_PER_PAGE file),
      copy_in spare 0 (take FMC_BYTES_PER_SPARE (drop FMC_BYTES_PER_PAGE file)))"

definition fmc_all_ones :: "u8 carray \<Rightarrow> nat \<Rightarrow> bool" where
  "fmc_all_ones b n = list_all (\<lambda>x. x = 0xFF) (slice b 0 n)"

definition s5l8900_fmc_page_erased :: "u8 carray \<Rightarrow> u8 carray \<Rightarrow> bool" where
  "s5l8900_fmc_page_erased data spare =
     (fmc_all_ones data FMC_BYTES_PER_PAGE \<and> fmc_all_ones spare FMC_BYTES_PER_SPARE)"

definition fmc_erased_page :: "u8 carray \<Rightarrow> u8 carray \<Rightarrow> u8 carray \<times> u8 carray" where
  "fmc_erased_page data spare =
     (fill_range data 0 FMC_BYTES_PER_PAGE 0xFF, fill_range spare 0 FMC_BYTES_PER_SPARE 0xFF)"

text \<open>The record the image returns goes into a buffer of exactly a page and a spare.\<close>

definition fmc_load_image ::
  "'d fmc_host \<Rightarrow> 'd nand_image \<Rightarrow> u32 \<Rightarrow> u32 \<Rightarrow> u8 carray \<Rightarrow> u8 carray \<Rightarrow> (u8 carray \<times> u8 carray) option" where
  "fmc_load_image h n bank page data spare =
     do { result \<leftarrow> nand_image_read (fh_drv h) n bank page;
          case result of
            Inl e \<Rightarrow> Some (fmc_erased_page data spare)
          | Inr rec \<Rightarrow>
              do { cassert (length rec = FMC_BYTES_PER_PAGE + FMC_BYTES_PER_SPARE);
                   Some (copy_in data 0 (take FMC_BYTES_PER_PAGE rec), copy_in spare 0 (drop FMC_BYTES_PER_PAGE rec)) } }"

definition fmc_load_dirs ::
  "'d fmc \<Rightarrow> u32 \<Rightarrow> u32 \<Rightarrow> u8 carray \<Rightarrow> u8 carray \<Rightarrow> u8 carray \<times> u8 carray" where
  "fmc_load_dirs s bank page data spare =
     (let base = (case fm_nand_path s of
                    None \<Rightarrow> fmc_erased_page data spare
                  | Some d \<Rightarrow> (case pd_page d bank page of
                                 Some file \<Rightarrow> fmc_read_file file data spare
                               | None \<Rightarrow> fmc_erased_page data spare)) in
      case fm_nand_overlay s of
        None \<Rightarrow> base
      | Some d \<Rightarrow>
          (case pd_page d bank page of
             Some file \<Rightarrow> fmc_read_file file data spare
           | None \<Rightarrow> if pd_erased d bank (page div FMC_PAGES_PER_BLOCK) then fmc_erased_page data spare else base))"

definition s5l8900_fmc_load_page ::
  "'d fmc_host \<Rightarrow> 'd fmc \<Rightarrow> u32 \<Rightarrow> u32 \<Rightarrow> u8 carray \<Rightarrow> u8 carray \<Rightarrow> (u8 carray \<times> u8 carray) option" where
  "s5l8900_fmc_load_page h s bank page data spare =
     (case fm_image s of
        Some n \<Rightarrow> fmc_load_image h n bank page data spare
      | None \<Rightarrow> Some (fmc_load_dirs s bank page data spare))"

text \<open>Writing a page file: the result and the overlay afterwards.\<close>

definition fmc_write_file :: "'d fmc_host \<Rightarrow> page_dir \<Rightarrow> u32 \<Rightarrow> u32 \<Rightarrow> u8 list \<Rightarrow> bool \<times> page_dir" where
  "fmc_write_file h d bank page rec =
     (if \<not> fh_mkdir h \<or> \<not> fh_fopen h then (False, d)
      else (length rec \<le> fh_room h \<and> fh_fclose h,
            d\<lparr>pd_page := (pd_page d)(bank := (pd_page d bank)(page := Some (take (fh_room h) rec)))\<rparr>))"

definition fmc_program_page ::
  "'d fmc_host \<Rightarrow> 'd fmc \<Rightarrow> u32 \<Rightarrow> u32 \<Rightarrow> u8 carray \<Rightarrow> u8 carray \<Rightarrow> (bool \<times> 'd fmc) option" where
  "fmc_program_page h s0 bank page data spare =
     (let s = s0\<lparr>fm_buffered_page := - 1\<rparr> in
      if Option.is_none (fm_nand_overlay s) \<and> Option.is_none (fm_image s) then Some (True, s)
      else do { (cell, cell_spare) \<leftarrow> s5l8900_fmc_load_page h s bank page (fh_stack h) (fh_stack h);
                let rec = map2 (AND) (slice cell 0 FMC_BYTES_PER_PAGE) (slice data 0 FMC_BYTES_PER_PAGE) @
                          map2 (AND) (slice cell_spare 0 FMC_BYTES_PER_SPARE) (slice spare 0 FMC_BYTES_PER_SPARE);
                case fm_image s of
                  Some n \<Rightarrow> do { (result, n') \<leftarrow> nand_image_write (fh_drv h) n bank page rec;
                                 Some (result = None, s\<lparr>fm_image := Some n'\<rparr>) }
                | None \<Rightarrow>
                    (case fm_nand_overlay s of
                       None \<Rightarrow> None
                     | Some d \<Rightarrow> (case fmc_write_file h d bank page rec of
                                    (ok, d') \<Rightarrow> Some (ok, s\<lparr>fm_nand_overlay := Some d'\<rparr>))) })"

text \<open>Removing the overlay files of a range of pages, up to the first that cannot be removed.\<close>

fun fmc_remove_pages :: "'d fmc_host \<Rightarrow> u32 \<Rightarrow> u32 list \<Rightarrow> page_dir \<Rightarrow> bool \<times> page_dir" where
  "fmc_remove_pages h bank [] d = (True, d)"
| "fmc_remove_pages h bank (p # ps) d =
     (if \<not> Option.is_none (pd_page d bank p) \<and> \<not> fh_remove h bank p then (False, d)
      else fmc_remove_pages h bank ps (d\<lparr>pd_page := (pd_page d)(bank := (pd_page d bank)(p := None))\<rparr>))"

text \<open>The bounds of the loop are 32-bit products.\<close>

definition fmc_block_pages :: "u32 \<Rightarrow> u32 list" where
  "fmc_block_pages block =
     map of_nat [unat (block * FMC_PAGES_PER_BLOCK) ..< unat ((block + 1) * FMC_PAGES_PER_BLOCK)]"

definition fmc_erase_dir :: "'d fmc_host \<Rightarrow> page_dir \<Rightarrow> u32 \<Rightarrow> u32 \<Rightarrow> bool \<times> page_dir" where
  "fmc_erase_dir h d bank block =
     (if \<not> fh_mkdir h then (False, d)
      else (case fmc_remove_pages h bank (fmc_block_pages block) d of
              (False, d') \<Rightarrow> (False, d')
            | (True, d') \<Rightarrow>
                if \<not> fh_fopen h then (False, d')
                else (fh_fclose h, d'\<lparr>pd_erased := (pd_erased d')(bank := (pd_erased d' bank)(block := True))\<rparr>)))"

definition s5l8900_fmc_erase_block ::
  "'d fmc_host \<Rightarrow> 'd fmc \<Rightarrow> u32 \<Rightarrow> u32 \<Rightarrow> (bool \<times> 'd fmc) option" where
  "s5l8900_fmc_erase_block h s0 bank block =
     (let s = s0\<lparr>fm_buffered_page := - 1\<rparr> in
      case fm_image s of
        Some n \<Rightarrow> do { (result, n') \<leftarrow> nand_image_erase (fh_drv h) n bank block;
                       Some (result = None, s\<lparr>fm_image := Some n'\<rparr>) }
      | None \<Rightarrow>
          (case fm_nand_overlay s of
             None \<Rightarrow> Some (True, s)
           | Some d \<Rightarrow> (case fmc_erase_dir h d bank block of
                          (ok, d') \<Rightarrow> Some (ok, s\<lparr>fm_nand_overlay := Some d'\<rparr>))))"

definition s5l8900_fmc_start_program :: "'d fmc \<Rightarrow> u32 \<Rightarrow> 'd fmc" where
  "s5l8900_fmc_start_program s count =
     s\<lparr>fm_reading_multiple_pages := False, fm_prog_count := count, fm_prog_index := 0, fm_prog_pad := 0,
       fm_fmdnum := of_nat FMC_BYTES_PER_PAGE, fm_is_writing := (0 < count)\<rparr>"

definition s5l8900_fmc_buffer_page :: "'d fmc_host \<Rightarrow> 'd fmc \<Rightarrow> u32 \<Rightarrow> 'd fmc option" where
  "s5l8900_fmc_buffer_page h s page =
     (case fmc_active_bank s of
        None \<Rightarrow> Some s
      | Some bank \<Rightarrow>
          if of_nat bank \<noteq> fm_buffered_bank s \<or> page \<noteq> fm_buffered_page s then
            do { (data, spare) \<leftarrow> s5l8900_fmc_load_page h s (of_nat bank) page (fm_page_buffer s) (fm_page_spare_buffer s);
                 Some (s\<lparr>fm_page_buffer := data, fm_page_spare_buffer := spare, fm_buffered_page := page,
                         fm_buffered_bank := of_nat bank\<rparr>) }
          else Some s)"

section \<open>Registers\<close>

text \<open>A 32-bit word of a byte buffer of the given size, by word index.\<close>

definition get32 :: "nat \<Rightarrow> u8 carray \<Rightarrow> nat \<Rightarrow> u32 option" where
  "get32 n b i = (if 4 * i + 3 < n then Some (le32 (b (4 * i)) (b (4 * i + 1)) (b (4 * i + 2)) (b (4 * i + 3))) else None)"

definition set32 :: "nat \<Rightarrow> u8 carray \<Rightarrow> nat \<Rightarrow> u32 \<Rightarrow> u8 carray option" where
  "set32 n b i v = aput n b (4 * i) [byte_of v 0, byte_of v 1, byte_of v 2, byte_of v 3]"

text \<open>
  At a page boundary of a multi-page read the list index moves on and selects the bank of
  the next entry. The result says whether the list has run out.
\<close>

definition fmc_next_entry :: "'d fmc \<Rightarrow> (bool \<times> 'd fmc) option" where
  "fmc_next_entry s =
     (if unat (fm_fmdnum s) mod FMC_BYTES_PER_PAGE = 0 then
        let cur = fm_cur_bank_reading s + 1; s1 = s\<lparr>fm_cur_bank_reading := cur\<rparr> in
        if int FMC_MAX_LIST \<le> sint cur then Some (True, s1)
        else do { cassert (0 \<le> sint cur);
                  bank \<leftarrow> aget FMC_MAX_LIST (fm_banks_to_read s1) (unat cur);
                  Some (False, s5l8900_fmc_set_bank s1 bank) }
      else Some (False, s))"

definition fmc_pop_multiple :: "'d fmc_host \<Rightarrow> 'd fmc \<Rightarrow> (u32 \<times> 'd fmc) option" where
  "fmc_pop_multiple h s =
     do { (overrun, s1) \<leftarrow> fmc_next_entry s;
          if overrun then Some (0, s1)
          else do { let off = unat (fm_fmdnum s1) mod FMC_BYTES_PER_PAGE;
                    let page_offset = (if off = 0 then FMC_BYTES_PER_PAGE else off);
                    s2 \<leftarrow> (if 0 \<le> sint (fm_cur_bank_reading s1)
                          then do { page \<leftarrow> aget FMC_MAX_LIST (fm_pages_to_read s1) (unat (fm_cur_bank_reading s1));
                                    s5l8900_fmc_buffer_page h s1 page }
                          else Some s1);
                    read_val \<leftarrow> get32 FMC_BYTES_PER_PAGE (fm_page_buffer s2) ((FMC_BYTES_PER_PAGE - page_offset) div 4);
                    Some (read_val, s2\<lparr>fm_fmdnum := fm_fmdnum s2 - 4\<rparr>) } }"

definition fmc_pop_single :: "'d fmc_host \<Rightarrow> 'd fmc \<Rightarrow> (u32 \<times> 'd fmc) option" where
  "fmc_pop_single h s =
     do { s1 \<leftarrow> s5l8900_fmc_buffer_page h s (push_bit 16 (fm_fmaddr1 s) OR drop_bit 16 (fm_fmaddr0 s));
          read_val \<leftarrow>
            (if fm_reading_spare s1 then
               let i = unat ((of_nat FMC_BYTES_PER_SPARE - fm_fmdnum s1 - 1) div 4) in
               if i < FMC_BYTES_PER_SPARE div 4 then get32 FMC_BYTES_PER_SPARE (fm_page_spare_buffer s1) i else Some 0
             else
               let i = unat ((of_nat FMC_BYTES_PER_PAGE - fm_fmdnum s1 - 1) div 4) in
               if i < FMC_BYTES_PER_PAGE div 4 then get32 FMC_BYTES_PER_PAGE (fm_page_buffer s1) i else Some 0);
          Some (read_val, s1\<lparr>fm_fmdnum := fm_fmdnum s1 - 4\<rparr>) }"

definition fmc_fifo_pop :: "'d fmc_host \<Rightarrow> 'd fmc \<Rightarrow> (u32 \<times> 'd fmc) option" where
  "fmc_fifo_pop h s =
     (if fm_cmd s = FMC_CMD_ID then
        Some (case fmc_active_bank s of
                Some bank \<Rightarrow> if int bank < sint (fm_banks s) then FMC_CHIP_ID else 0
              | None \<Rightarrow> 0, s)
      else if fm_cmd s = FMC_CMD_READSTATUS then Some (push_bit 6 1, s)
      else if fm_reading_multiple_pages s then fmc_pop_multiple h s
      else fmc_pop_single h s)"

definition s5l8900_fmc_read :: "'d fmc_host \<Rightarrow> 'd fmc \<Rightarrow> u64 \<Rightarrow> (u64 \<times> 'd fmc) option" where
  "s5l8900_fmc_read h s addr =
     (if addr = FMC_FMCTRL0 then Some (ucast (fm_fmctrl0 s), s)
      else if addr = FMC_FMFIFO then map_option (\<lambda>(v, s'). (ucast v, s')) (fmc_fifo_pop h s)
      else if addr = FMC_FMCSTAT then Some (0x1FFE, s)
      else if addr = FMC_RSCTRL then Some (ucast (fm_rsctrl s), s)
      else Some (0, s))"

text \<open>A full page has arrived: program it with the metadata queued for it.\<close>

definition fmc_page_done :: "'d fmc_host \<Rightarrow> 'd fmc \<Rightarrow> 'd fmc option" where
  "fmc_page_done h s =
     do { let i = unat (fm_prog_index s);
          let s1 = s\<lparr>fm_prog_index := fm_prog_index s + 1\<rparr>;
          meta \<leftarrow> aget FMC_MAX_LIST (fm_prog_spares s1) i;
          bank \<leftarrow> aget FMC_MAX_LIST (fm_banks_to_read s1) i;
          page \<leftarrow> aget FMC_MAX_LIST (fm_pages_to_read s1) i;
          (ok, s2) \<leftarrow> fmc_program_page h s1 bank page (fm_page_buffer s1)
                       (copy_in (\<lambda>_. 0xFF) 0 (take FMC_META_BYTES meta));
          Some (s2\<lparr>fm_fmdnum := of_nat FMC_BYTES_PER_PAGE, fm_prog_pad := FMC_PROGRAM_PAD\<rparr>) }"

definition fmc_fifo_push :: "'d fmc_host \<Rightarrow> 'd fmc \<Rightarrow> u32 \<Rightarrow> 'd fmc option" where
  "fmc_fifo_push h s val =
     (if \<not> fm_is_writing s then Some s
      else if fm_prog_pad s \<noteq> 0 then
        let s1 = s\<lparr>fm_prog_pad := fm_prog_pad s - 4\<rparr> in
        Some (if fm_prog_pad s1 = 0 \<and> fm_prog_index s1 = fm_prog_count s1 then s1\<lparr>fm_is_writing := False\<rparr> else s1)
      else if fm_fmdnum s = 0 \<or> unat (fm_fmdnum s) > FMC_BYTES_PER_PAGE \<or> fm_fmdnum s AND 3 \<noteq> 0 \<or>
              unat (fm_prog_index s) \<ge> min (unat (fm_prog_count s)) FMC_MAX_LIST
      then Some (s\<lparr>fm_is_writing := False\<rparr>)
      else do { buf \<leftarrow> set32 FMC_BYTES_PER_PAGE (fm_page_buffer s) ((FMC_BYTES_PER_PAGE - unat (fm_fmdnum s)) div 4) val;
                let s1 = s\<lparr>fm_page_buffer := buf, fm_fmdnum := fm_fmdnum s - 4\<rparr>;
                if fm_fmdnum s1 = 0 then fmc_page_done h s1 else Some s1 })"

definition s5l8900_fmc_write :: "'d fmc_host \<Rightarrow> 'd fmc \<Rightarrow> u64 \<Rightarrow> u64 \<Rightarrow> 'd fmc option" where
  "s5l8900_fmc_write h s addr val =
     (if addr = FMC_FMCTRL0 then Some (s\<lparr>fm_fmctrl0 := ucast val\<rparr>)
      else if addr = FMC_FMCTRL1 then Some (s\<lparr>fm_fmctrl1 := ucast val\<rparr>)
      else if addr = FMC_FMADDR0 then Some (s\<lparr>fm_fmaddr0 := ucast val\<rparr>)
      else if addr = FMC_FMADDR1 then Some (s\<lparr>fm_fmaddr1 := ucast val\<rparr>)
      else if addr = FMC_FMANUM then Some (s\<lparr>fm_fmanum := ucast val\<rparr>)
      else if addr = FMC_CMD then Some (s\<lparr>fm_cmd := ucast val\<rparr>)
      else if addr = FMC_FMDNUM then
        Some (s\<lparr>fm_reading_spare := (val = of_nat FMC_BYTES_PER_SPARE - 1), fm_fmdnum := ucast val\<rparr>)
      else if addr = FMC_FMFIFO then fmc_fifo_push h s (ucast val)
      else if addr = FMC_RSCTRL then Some (s\<lparr>fm_rsctrl := ucast val\<rparr>)
      else Some s)"

text \<open>A store that opens as a NAND image is written in place and takes no overlay.\<close>

definition s5l8900_fmc_realize ::
  "geometry_json option \<Rightarrow> (nat \<Rightarrow> nat \<Rightarrow> 'd block_backend option) \<Rightarrow> 'd fmc \<Rightarrow>
     (nand_open_error option + 'd fmc) option" where
  "s5l8900_fmc_realize json open_file s =
     (if Option.is_none (fm_nand_path s) \<or> \<not> nand_image_is_store json then Some (Inr s)
      else if \<not> Option.is_none (fm_nand_overlay s) then Some (Inl None)
      else do { r \<leftarrow> nand_image_open json open_file
                  \<lparr>ng_chips = fm_banks s, ng_page_bytes = of_nat FMC_BYTES_PER_PAGE, ng_spare_bytes = of_nat FMC_BYTES_PER_SPARE,
                   ng_pages_per_block = FMC_PAGES_PER_BLOCK, ng_blocks_per_chip = FMC_BLOCKS_PER_BANK\<rparr>;
                Some (case r of Inl e \<Rightarrow> Inl (Some e) | Inr n \<Rightarrow> Inr (s\<lparr>fm_image := Some n\<rparr>)) })"

definition s5l8900_fmc_reset :: "'d fmc \<Rightarrow> 'd fmc" where
  "s5l8900_fmc_reset s =
     s\<lparr>fm_fmctrl0 := 0, fm_fmctrl1 := 0, fm_fmaddr0 := 0, fm_fmaddr1 := 0, fm_fmanum := 0, fm_fmdnum := 0,
       fm_rsctrl := 0, fm_cmd := 0, fm_reading_spare := False, fm_reading_multiple_pages := False,
       fm_is_writing := False, fm_prog_count := 0, fm_prog_index := 0, fm_prog_pad := 0,
       fm_cur_bank_reading := - 1, fm_buffered_page := - 1, fm_buffered_bank := - 1\<rparr>"

fun fmc_step :: "'d fmc_host \<Rightarrow> 'd fmc \<Rightarrow> unit bus_event \<Rightarrow> ('d fmc \<times> u64) option" where
  "fmc_step h s (MRead a) = map_option (\<lambda>(v, s'). (s', v)) (s5l8900_fmc_read h s a)"
| "fmc_step h s (MWrite a v) = map_option (\<lambda>s'. (s', 0)) (s5l8900_fmc_write h s a v)"
| "fmc_step h s DevReset = Some (s5l8900_fmc_reset s, 0)"
| "fmc_step h s (Ext x) = Some (s, 0)"

section \<open>What the store holds\<close>

text \<open>The record of a page, data then spare, whichever way it is stored.\<close>

definition fmc_ones :: "u8 list" where
  "fmc_ones = replicate (FMC_BYTES_PER_PAGE + FMC_BYTES_PER_SPARE) 0xFF"

definition fmc_base_cell :: "page_dir option \<Rightarrow> u32 \<Rightarrow> u32 \<Rightarrow> u8 list" where
  "fmc_base_cell base b p =
     (case base of None \<Rightarrow> fmc_ones
      | Some d \<Rightarrow> (case pd_page d b p of None \<Rightarrow> fmc_ones | Some file \<Rightarrow> file))"

definition fmc_dir_cell :: "page_dir option \<Rightarrow> page_dir option \<Rightarrow> u32 \<Rightarrow> u32 \<Rightarrow> u8 list" where
  "fmc_dir_cell base over b p =
     (case over of None \<Rightarrow> fmc_base_cell base b p
      | Some d \<Rightarrow> (case pd_page d b p of
            Some file \<Rightarrow> file
          | None \<Rightarrow> if pd_erased d b (p div FMC_PAGES_PER_BLOCK) then fmc_ones else fmc_base_cell base b p))"

definition fmc_image_cell :: "('d \<Rightarrow> u8 carray) \<Rightarrow> 'd nand_image \<Rightarrow> u32 \<Rightarrow> u32 \<Rightarrow> u8 list" where
  "fmc_image_cell cells n b p = (if nand_valid n b p then nand_page cells n b p else fmc_ones)"

definition fmc_store_cell ::
  "('d \<Rightarrow> u8 carray) \<Rightarrow> 'd nand_image option \<Rightarrow> page_dir option \<Rightarrow> page_dir option \<Rightarrow> u32 \<Rightarrow> u32 \<Rightarrow> u8 list" where
  "fmc_store_cell cells img base over b p =
     (case img of Some n \<Rightarrow> fmc_image_cell cells n b p | None \<Rightarrow> fmc_dir_cell base over b p)"

definition fmc_cell :: "('d \<Rightarrow> u8 carray) \<Rightarrow> 'd fmc \<Rightarrow> u32 \<Rightarrow> u32 \<Rightarrow> u8 list" where
  "fmc_cell cells s = fmc_store_cell cells (fm_image s) (fm_nand_path s) (fm_nand_overlay s)"

text \<open>A well-formed store: page files of full size, or an image of the controller's geometry.\<close>

definition fmc_dir_ok :: "page_dir option \<Rightarrow> bool" where
  "fmc_dir_ok od = (\<forall>d b p file. od = Some d \<longrightarrow> pd_page d b p = Some file \<longrightarrow>
     length file = FMC_BYTES_PER_PAGE + FMC_BYTES_PER_SPARE)"

definition fmc_image_ok :: "('d \<Rightarrow> nat) \<Rightarrow> 'd nand_image \<Rightarrow> bool" where
  "fmc_image_ok len n = (nand_ok len n \<and> ni_blank n = fmc_ones \<and> ng_pages_per_block (ni_geo n) = FMC_PAGES_PER_BLOCK)"

definition fmc_store_wf :: "('d \<Rightarrow> nat) \<Rightarrow> 'd nand_image option \<Rightarrow> page_dir option \<Rightarrow> page_dir option \<Rightarrow> bool" where
  "fmc_store_wf len img base over =
     (case img of Some n \<Rightarrow> fmc_image_ok len n | None \<Rightarrow> fmc_dir_ok base \<and> fmc_dir_ok over)"

definition fmc_store_ok :: "('d \<Rightarrow> nat) \<Rightarrow> 'd fmc \<Rightarrow> bool" where
  "fmc_store_ok len s = fmc_store_wf len (fm_image s) (fm_nand_path s) (fm_nand_overlay s)"

lemmas fmc_store_defs = fmc_store_ok_def fmc_store_wf_def fmc_cell_def fmc_store_cell_def

lemma fmc_ones_length [simp]: "length fmc_ones = FMC_BYTES_PER_PAGE + FMC_BYTES_PER_SPARE"
  by (simp add: fmc_ones_def)

lemma nand_page_length: "nand_ok len n \<Longrightarrow> nand_valid n b p \<Longrightarrow> length (nand_page cells n b p) = length (ni_blank n)"
  using nand_backend_ok [of len n b p] by (auto simp: nand_page_def nand_ok_def)

lemma fmc_cell_length:
  "fmc_store_ok len s \<Longrightarrow> length (fmc_cell cells s b p) = FMC_BYTES_PER_PAGE + FMC_BYTES_PER_SPARE"
  by (auto simp: fmc_store_defs fmc_image_cell_def fmc_image_ok_def nand_page_length fmc_dir_cell_def
      fmc_base_cell_def fmc_dir_ok_def split: option.splits)

text \<open>Copying a record into the two buffers.\<close>

lemma fmc_split_record:
  assumes "length rec = FMC_BYTES_PER_PAGE + FMC_BYTES_PER_SPARE"
  shows "slice (copy_in d 0 (take FMC_BYTES_PER_PAGE rec)) 0 FMC_BYTES_PER_PAGE
       @ slice (copy_in sp 0 (drop FMC_BYTES_PER_PAGE rec)) 0 FMC_BYTES_PER_SPARE = rec"
proof -
  have "slice (copy_in d 0 (take FMC_BYTES_PER_PAGE rec)) 0 FMC_BYTES_PER_PAGE = take FMC_BYTES_PER_PAGE rec"
    using slice_copy_in [of d 0 "take FMC_BYTES_PER_PAGE rec"] assms by simp
  moreover have "slice (copy_in sp 0 (drop FMC_BYTES_PER_PAGE rec)) 0 FMC_BYTES_PER_SPARE = drop FMC_BYTES_PER_PAGE rec"
    using slice_copy_in [of sp 0 "drop FMC_BYTES_PER_PAGE rec"] assms by simp
  ultimately show ?thesis by simp
qed

lemma fmc_read_file_record:
  "length f = FMC_BYTES_PER_PAGE + FMC_BYTES_PER_SPARE \<Longrightarrow> fmc_read_file f d sp = (d', sp') \<Longrightarrow>
     slice d' 0 FMC_BYTES_PER_PAGE @ slice sp' 0 FMC_BYTES_PER_SPARE = f"
  using fmc_split_record [of f d sp] by (auto simp: fmc_read_file_def)

lemma fmc_erased_record:
  "fmc_erased_page d sp = (d', sp') \<Longrightarrow> slice d' 0 FMC_BYTES_PER_PAGE @ slice sp' 0 FMC_BYTES_PER_SPARE = fmc_ones"
  by (auto simp: fmc_erased_page_def fmc_ones_def slice_fill_range replicate_add)

lemma fmc_load_dirs_cell:
  assumes "fmc_dir_ok (fm_nand_path s)" "fmc_dir_ok (fm_nand_overlay s)" "fmc_load_dirs s b p d sp = (d', sp')"
  shows "slice d' 0 FMC_BYTES_PER_PAGE @ slice sp' 0 FMC_BYTES_PER_SPARE
     = fmc_dir_cell (fm_nand_path s) (fm_nand_overlay s) b p"
  using assms
  by (auto simp: fmc_load_dirs_def fmc_dir_cell_def fmc_base_cell_def fmc_dir_ok_def Let_def
      intro: fmc_read_file_record fmc_erased_record split: option.splits if_splits)

text \<open>What programming and erasing do to a page.\<close>

datatype fmc_op = FProgram u32 u32 "u8 carray" "u8 carray" | FBlockErase u32 u32

fun fmc_spec :: "fmc_op \<Rightarrow> (u32 \<Rightarrow> u32 \<Rightarrow> u8 list) \<Rightarrow> u32 \<Rightarrow> u32 \<Rightarrow> u8 list" where
  "fmc_spec (FProgram b p data spare) m b' p' =
     (if b' = b \<and> p' = p
      then map2 (AND) (m b p) (slice data 0 FMC_BYTES_PER_PAGE @ slice spare 0 FMC_BYTES_PER_SPARE) else m b' p')"
| "fmc_spec (FBlockErase b blk) m b' p' = (if b' = b \<and> p' div FMC_PAGES_PER_BLOCK = blk then fmc_ones else m b' p')"

fun fmc_do :: "'d fmc_host \<Rightarrow> 'd fmc \<Rightarrow> fmc_op \<Rightarrow> (bool \<times> 'd fmc) option" where
  "fmc_do h s (FProgram b p data spare) = fmc_program_page h s b p data spare"
| "fmc_do h s (FBlockErase b blk) = s5l8900_fmc_erase_block h s b blk"

text \<open>A sequence of operations, up to the first that fails.\<close>

fun fmc_store_run :: "'d fmc_host \<Rightarrow> 'd fmc \<Rightarrow> fmc_op list \<Rightarrow> (bool \<times> 'd fmc) option" where
  "fmc_store_run h s [] = Some (True, s)"
| "fmc_store_run h s (op # ops) =
     do { (ok, s1) \<leftarrow> fmc_do h s op; if ok then fmc_store_run h s1 ops else Some (False, s1) }"

text \<open>The blocks of a chip; the loop of an overlay erase is exact for them.\<close>

fun fmc_op_in_chip :: "fmc_op \<Rightarrow> bool" where
  "fmc_op_in_chip (FProgram b p data spare) = True"
| "fmc_op_in_chip (FBlockErase b blk) = (blk < FMC_BLOCKS_PER_BANK)"

definition fmc_writable :: "'d fmc \<Rightarrow> bool" where
  "fmc_writable s = (fm_image s \<noteq> None \<or> fm_nand_overlay s \<noteq> None)"

text \<open>Only the store and the marker of the buffered page change.\<close>

definition fmc_only_store :: "'d fmc \<Rightarrow> 'd fmc \<Rightarrow> bool" where
  "fmc_only_store s s' =
     (s' = s\<lparr>fm_buffered_page := - 1, fm_image := fm_image s', fm_nand_overlay := fm_nand_overlay s'\<rparr>
      \<and> (fm_image s' = None \<longleftrightarrow> fm_image s = None) \<and> (fm_nand_overlay s' = None \<longleftrightarrow> fm_nand_overlay s = None))"

lemma fmc_block_pages_iff:
  assumes "blk < FMC_BLOCKS_PER_BANK"
  shows "p \<in> set (fmc_block_pages blk) \<longleftrightarrow> p div FMC_PAGES_PER_BLOCK = blk"
proof -
  have b: "unat blk < 4096" using assms by (simp add: FMC_BLOCKS_PER_BANK_def word_less_nat_alt)
  then have "unat (blk * 128) = unat blk * 128" "unat (blk + 1) = unat blk + 1" "unat ((blk + 1) * 128) = (unat blk + 1) * 128"
    by (simp_all add: unat_word_ariths)
  then have "p \<in> set (fmc_block_pages blk) \<longleftrightarrow> unat blk * 128 \<le> unat p \<and> unat p < (unat blk + 1) * 128"
    using b by (auto simp: fmc_block_pages_def FMC_PAGES_PER_BLOCK_def image_iff word_unat_eq_iff unat_of_nat
        intro!: bexI [of _ "unat p"])
  also have "\<dots> \<longleftrightarrow> unat p div 128 = unat blk" by (simp add: div_nat_eqI) linarith
  finally show ?thesis by (simp add: word_unat_eq_iff unat_div_word FMC_PAGES_PER_BLOCK_def)
qed

lemma fmc_remove_pages_spec:
  assumes "fmc_remove_pages h bank ps d = (True, d')"
  shows "pd_erased d' = pd_erased d \<and> (\<forall>b p. pd_page d' b p = (if b = bank \<and> p \<in> set ps then None else pd_page d b p))"
  using assms by (induction ps arbitrary: d) (auto split: if_splits)

context reliable_driver
begin

lemma nand_read_works:
  assumes "nand_ok len n"
  shows "nand_image_read drv n c p = Some (if nand_valid n c p then Inr (nand_page cells n c p) else Inl EINVAL)"
proof (cases "nand_valid n c p")
  case True
  from nand_backend_ok [OF assms True] obtain blk where blk: "ni_chip n (unat c) = Some blk"
    "nand_backend n c = Some blk" "blk_ok blk" "blk_len blk = nand_file_size n"
    by (auto simp: blk_ok_def blk_len_def)
  have n: "ng_pages_per_block (ni_geo n) \<noteq> 0" "length (ni_blank n) = unat (ni_stride n)"
    using assms by (simp_all add: nand_ok_def)
  show ?thesis
    using True blk n nand_page_fits [OF True assms] nand_offset_in [OF True assms]
    by (simp add: nand_image_read_def nand_bad_valid pread_works nand_xor_in nand_page_def blk_cells_def
        del: of_nat_mult of_nat_unat)
qed (use nand_read_law [OF assms, of c p] in auto)

lemma load_page_cell:
  assumes "fh_drv h = drv" "fmc_store_ok len s"
  shows "\<exists>d' sp'. s5l8900_fmc_load_page h s b p d sp = Some (d', sp')
     \<and> slice d' 0 FMC_BYTES_PER_PAGE @ slice sp' 0 FMC_BYTES_PER_SPARE = fmc_cell cells s b p"
proof (cases "fm_image s")
  case None
  obtain d' sp' where "fmc_load_dirs s b p d sp = (d', sp')" by fastforce
  with None assms(2) fmc_load_dirs_cell show ?thesis
    by (auto simp: s5l8900_fmc_load_page_def fmc_store_defs)
next
  case (Some n)
  with assms(2) have ok: "nand_ok len n" "ni_blank n = fmc_ones" by (simp_all add: fmc_store_defs fmc_image_ok_def)
  obtain d' sp' where er: "fmc_erased_page d sp = (d', sp')" by fastforce
  from Some assms(1) ok nand_page_length [OF ok(1), of b p cells] fmc_split_record [of "nand_page cells n b p" d sp] fmc_erased_record [OF er] er
  show ?thesis
    by (auto simp: s5l8900_fmc_load_page_def fmc_load_image_def nand_read_works fmc_store_defs fmc_image_cell_def)
qed

lemma write_valid:
  "nand_ok len n \<Longrightarrow> nand_image_write drv n c p rec = Some (None, n') \<Longrightarrow> nand_valid n c p"
  using nand_bad_valid [of n c p] by (auto simp: nand_image_write_def nand_ok_def split: if_splits)

lemma write_image_cell:
  assumes "fmc_image_ok len n" "length rec = FMC_BYTES_PER_PAGE + FMC_BYTES_PER_SPARE"
  shows "\<exists>e n'. nand_image_write drv n b p rec = Some (e, n') \<and> (e = None \<longrightarrow> fmc_image_ok len n' \<and>
     (\<forall>b' p'. fmc_image_cell cells n' b' p' = (if b' = b \<and> p' = p then rec else fmc_image_cell cells n b' p')))"
proof -
  from assms(1) have n: "nand_ok len n" "ni_blank n = fmc_ones" "ng_pages_per_block (ni_geo n) = FMC_PAGES_PER_BLOCK"
    by (simp_all add: fmc_image_ok_def)
  with nand_write_law [OF n(1), of rec b p] assms(2) obtain e n' where
    w: "nand_image_write drv n b p rec = Some (e, n')" "nand_ok len n'" "nand_valid n' = nand_valid n" "ni_geo n' = ni_geo n"
      "ni_blank n' = ni_blank n"
      "e = None \<longrightarrow> (\<forall>c' p'. nand_page cells n' c' p' = (if c' = b \<and> p' = p then rec else nand_page cells n c' p'))"
    by auto
  with n write_valid [OF n(1), of b p rec n'] show ?thesis
    by (auto simp: fmc_image_ok_def fmc_image_cell_def)
qed

lemma write_dir_cell:
  assumes "fmc_dir_ok (Some d)" "length rec = FMC_BYTES_PER_PAGE + FMC_BYTES_PER_SPARE"
    and "fmc_write_file h d b p rec = (True, d')"
  shows "fmc_dir_ok (Some d') \<and>
     (\<forall>b' p'. fmc_dir_cell base (Some d') b' p' = (if b' = b \<and> p' = p then rec else fmc_dir_cell base (Some d) b' p'))"
  using assms by (auto simp: fmc_write_file_def fmc_dir_ok_def fmc_dir_cell_def split: if_splits option.splits)

lemma program_cell:
  assumes "fh_drv h = drv" "fmc_store_ok len s" "fmc_writable s"
  shows "\<exists>ok s'. fmc_program_page h s b p data spare = Some (ok, s') \<and> fmc_only_store s s' \<and>
     (ok \<longrightarrow> fmc_store_ok len s' \<and> fmc_cell cells s' = fmc_spec (FProgram b p data spare) (fmc_cell cells s))"
proof -
  let ?s = "s\<lparr>fm_buffered_page := - 1\<rparr>"
  have ok: "fmc_store_ok len ?s" "fmc_cell cells ?s = fmc_cell cells s"
    using assms(2) by (simp_all add: fmc_store_ok_def fmc_cell_def)
  obtain c csp where load: "s5l8900_fmc_load_page h ?s b p (fh_stack h) (fh_stack h) = Some (c, csp)"
    "slice c 0 FMC_BYTES_PER_PAGE @ slice csp 0 FMC_BYTES_PER_SPARE = fmc_cell cells s b p"
    using load_page_cell [OF assms(1) ok(1)] ok(2) by metis
  define rec where "rec = map2 (AND) (slice c 0 FMC_BYTES_PER_PAGE) (slice data 0 FMC_BYTES_PER_PAGE)
    @ map2 (AND) (slice csp 0 FMC_BYTES_PER_SPARE) (slice spare 0 FMC_BYTES_PER_SPARE)"
  have rec: "map2 (AND) (fmc_cell cells s b p) (slice data 0 FMC_BYTES_PER_PAGE @ slice spare 0 FMC_BYTES_PER_SPARE) = rec"
    unfolding rec_def load(2) [symmetric] by simp
  have len: "length rec = FMC_BYTES_PER_PAGE + FMC_BYTES_PER_SPARE" by (simp add: rec_def)
  show ?thesis
  proof (cases "fm_image s")
    case (Some n)
    with write_image_cell [OF _ len, of n b p] assms(2) obtain e n' where
      w: "nand_image_write drv n b p rec = Some (e, n')" "e = None \<longrightarrow> fmc_image_ok len n' \<and>
        (\<forall>b' p'. fmc_image_cell cells n' b' p' = (if b' = b \<and> p' = p then rec else fmc_image_cell cells n b' p'))"
      by (auto simp: fmc_store_defs)
    have "fmc_program_page h s b p data spare = Some (e = None, ?s\<lparr>fm_image := Some n'\<rparr>)"
      using Some load(1) w(1) assms(1) by (simp add: fmc_program_page_def Let_def flip: rec_def)
    with w(2) Some rec show ?thesis
      by (auto simp: fmc_store_defs fmc_only_store_def fun_eq_iff)
  next
    case None
    with assms(3) obtain d where d: "fm_nand_overlay s = Some d" by (auto simp: fmc_writable_def)
    obtain k d' where w: "fmc_write_file h d b p rec = (k, d')" by fastforce
    have "fmc_program_page h s b p data spare = Some (k, ?s\<lparr>fm_nand_overlay := Some d'\<rparr>)"
      using None d load(1) w by (simp add: fmc_program_page_def Let_def flip: rec_def)
    with write_dir_cell [of d rec h b p d'] w len None d assms(2) rec show ?thesis
      by (auto simp: fmc_store_defs fmc_only_store_def fun_eq_iff)
  qed
qed

lemma erase_image_cell:
  assumes "fmc_image_ok len n"
  shows "\<exists>e n'. nand_image_erase drv n b blk = Some (e, n') \<and> (e = None \<longrightarrow> fmc_image_ok len n' \<and>
     fmc_image_cell cells n' = fmc_spec (FBlockErase b blk) (fmc_image_cell cells n))"
proof -
  from assms have n: "nand_ok len n" "ni_blank n = fmc_ones" "ng_pages_per_block (ni_geo n) = FMC_PAGES_PER_BLOCK"
    by (simp_all add: fmc_image_ok_def)
  from nand_erase_law [OF n(1), of b blk] obtain e n' where
    w: "nand_image_erase drv n b blk = Some (e, n')" "nand_ok len n'" "nand_valid n' = nand_valid n" "ni_geo n' = ni_geo n"
      "ni_blank n' = ni_blank n"
      "e = None \<longrightarrow> (\<forall>c' p'. nand_valid n c' p' \<longrightarrow>
        nand_page cells n' c' p' = (if c' = b \<and> nand_in_block n blk p' then ni_blank n else nand_page cells n c' p'))"
    by auto
  have "nand_in_block n blk p \<longleftrightarrow> p div FMC_PAGES_PER_BLOCK = blk" for p
    using n(3) by (simp add: nand_in_block_def word_unat_eq_iff unat_div_word)
  with n w show ?thesis
    by (auto simp: fmc_image_ok_def fmc_image_cell_def fun_eq_iff)
qed

lemma erase_dir_cell:
  assumes "fmc_dir_ok (Some d)" "blk < FMC_BLOCKS_PER_BANK" "fmc_erase_dir h d b blk = (True, d')"
  shows "fmc_dir_ok (Some d') \<and> fmc_dir_cell base (Some d') = fmc_spec (FBlockErase b blk) (fmc_dir_cell base (Some d))"
proof -
  from assms(3) obtain d1 where d1: "fmc_remove_pages h b (fmc_block_pages blk) d = (True, d1)"
    "d' = d1\<lparr>pd_erased := (pd_erased d1)(b := (pd_erased d1 b)(blk := True))\<rparr>"
    by (auto simp: fmc_erase_dir_def split: if_splits prod.splits bool.splits)
  note rm = fmc_remove_pages_spec [OF d1(1)]
  have page: "pd_page d' b' p = (if b' = b \<and> p div FMC_PAGES_PER_BLOCK = blk then None else pd_page d b' p)" for b' p
    using rm fmc_block_pages_iff [OF assms(2)] by (simp add: d1(2))
  have mark: "pd_erased d' b' k = (if b' = b \<and> k = blk then True else pd_erased d b' k)" for b' k
    using rm by (simp add: d1(2))
  show ?thesis
    using assms(1) by (auto simp: fmc_dir_ok_def page mark fmc_dir_cell_def fun_eq_iff split: if_splits option.splits)
qed

lemma erase_cell:
  assumes "fh_drv h = drv" "fmc_store_ok len s" "fmc_writable s" "blk < FMC_BLOCKS_PER_BANK"
  shows "\<exists>ok s'. s5l8900_fmc_erase_block h s b blk = Some (ok, s') \<and> fmc_only_store s s' \<and>
     (ok \<longrightarrow> fmc_store_ok len s' \<and> fmc_cell cells s' = fmc_spec (FBlockErase b blk) (fmc_cell cells s))"
proof -
  let ?s = "s\<lparr>fm_buffered_page := - 1\<rparr>"
  show ?thesis
  proof (cases "fm_image s")
    case (Some n)
    with erase_image_cell [of n b blk] assms(2) obtain e n' where
      w: "nand_image_erase drv n b blk = Some (e, n')" "e = None \<longrightarrow> fmc_image_ok len n' \<and>
        fmc_image_cell cells n' = fmc_spec (FBlockErase b blk) (fmc_image_cell cells n)"
      by (auto simp: fmc_store_defs)
    have "s5l8900_fmc_erase_block h s b blk = Some (e = None, ?s\<lparr>fm_image := Some n'\<rparr>)"
      using Some w(1) assms(1) by (simp add: s5l8900_fmc_erase_block_def)
    with w(2) Some show ?thesis
      by (auto simp: fmc_store_defs fmc_only_store_def fun_eq_iff)
  next
    case None
    with assms(3) obtain d where d: "fm_nand_overlay s = Some d" by (auto simp: fmc_writable_def)
    obtain k d' where w: "fmc_erase_dir h d b blk = (k, d')" by fastforce
    have "s5l8900_fmc_erase_block h s b blk = Some (k, ?s\<lparr>fm_nand_overlay := Some d'\<rparr>)"
      using None d w by (simp add: s5l8900_fmc_erase_block_def)
    with erase_dir_cell [of d blk h b d'] w assms(4) None d assms(2) show ?thesis
      by (auto simp: fmc_store_defs fmc_only_store_def fun_eq_iff)
  qed
qed

lemma do_cell:
  assumes "fh_drv h = drv" "fmc_store_ok len s" "fmc_writable s" "fmc_op_in_chip op"
  shows "\<exists>ok s'. fmc_do h s op = Some (ok, s') \<and> fmc_only_store s s' \<and>
     (ok \<longrightarrow> fmc_store_ok len s' \<and> fmc_cell cells s' = fmc_spec op (fmc_cell cells s))"
  using program_cell [OF assms(1-3)] erase_cell [OF assms(1-3)] assms(4) by (cases op) simp_all

lemma run_cells:
  assumes "fh_drv h = drv" "fmc_store_ok len s" "fmc_writable s" "list_all fmc_op_in_chip ops"
    and "fmc_store_run h s ops = Some (True, s')"
  shows "fmc_store_ok len s' \<and> fmc_cell cells s' = fold fmc_spec ops (fmc_cell cells s)"
  using assms(2-)
proof (induction ops arbitrary: s)
  case (Cons op ops)
  from do_cell [OF assms(1) Cons.prems(1,2), of op] Cons.prems(3) obtain ok s1 where
    1: "fmc_do h s op = Some (ok, s1)" "fmc_only_store s s1"
      "ok \<longrightarrow> fmc_store_ok len s1 \<and> fmc_cell cells s1 = fmc_spec op (fmc_cell cells s)" by auto
  with Cons.prems(4) have "ok" "fmc_store_run h s1 ops = Some (True, s')"
    by (auto split: if_splits)
  moreover have "fmc_writable s1"
    using 1(2) Cons.prems(2) by (auto simp: fmc_only_store_def fmc_writable_def)
  ultimately show ?case using Cons.IH [of s1] 1(3) Cons.prems(3) by simp
qed simp

end

end
