(* ===== verification/FMC_Fifo.thy ===== *)
theory FMC_Fifo
  imports FMC
begin

text \<open>
  The FIFO of the NAND controller at work: a program of several pages streamed by the
  driver, and a list of pages read back, over the store laws of theory \<open>FMC\<close>; what the two
  kinds of store have in common; and what happens past the end of the page list.
\<close>

section \<open>A program streamed through the FIFO\<close>

lemma load_page_cong:
  assumes "fm_image t = fm_image s" "fm_nand_path t = fm_nand_path s" "fm_nand_overlay t = fm_nand_overlay s"
  shows "s5l8900_fmc_load_page h t b p d sp = s5l8900_fmc_load_page h s b p d sp"
  using assms by (simp add: s5l8900_fmc_load_page_def fmc_load_dirs_def Let_def cong: option.case_cong)

lemma program_page_cong:
  assumes "fm_image t = fm_image s" "fm_nand_path t = fm_nand_path s" "fm_nand_overlay t = fm_nand_overlay s"
    and "slice data' 0 FMC_BYTES_PER_PAGE = slice data 0 FMC_BYTES_PER_PAGE"
    and "slice spare' 0 FMC_BYTES_PER_SPARE = slice spare 0 FMC_BYTES_PER_SPARE"
  shows "fmc_program_page h t b p data' spare' =
     map_option (\<lambda>(ok, s'). (ok, t\<lparr>fm_buffered_page := - 1, fm_image := fm_image s', fm_nand_overlay := fm_nand_overlay s'\<rparr>))
       (fmc_program_page h s b p data spare)"
proof -
  let ?t = "t\<lparr>fm_buffered_page := - 1\<rparr>" and ?s = "s\<lparr>fm_buffered_page := - 1\<rparr>"
  have "s5l8900_fmc_load_page h ?t b p (fh_stack h) (fh_stack h) = s5l8900_fmc_load_page h ?s b p (fh_stack h) (fh_stack h)"
    using assms(1-3) by (intro load_page_cong) simp_all
  note load = this
  show ?thesis
  proof (cases "s5l8900_fmc_load_page h ?s b p (fh_stack h) (fh_stack h)")
    case None
    with load assms(1-3) show ?thesis by (simp add: fmc_program_page_def Let_def)
  next
    case (Some c)
    show ?thesis
    proof (cases "fm_image s")
      case img: None
      show ?thesis
        using Some load assms img by (cases "fm_nand_overlay s") (simp_all add: fmc_program_page_def Let_def split: prod.splits)
    next
      case img: (Some n)
      show ?thesis
        using Some load assms img
        by (simp add: fmc_program_page_def Let_def split: prod.split) (simp add: map_option_case split: Option.bind_split option.split prod.split)
    qed
  qed
qed

definition word_le :: "u32 \<Rightarrow> u8 list" where
  "word_le w = [byte_of w 0, byte_of w 1, byte_of w 2, byte_of w 3]"

lemma length_word_le [simp]: "length (word_le w) = 4"
  by (simp add: word_le_def)

lemma length_words_le [simp]: "length (concat (map word_le ws)) = 4 * length ws"
  by (induction ws) simp_all

lemma copy_in_append: "copy_in (copy_in a i xs) (i + length xs) ys = copy_in a i (xs @ ys)"
  by (rule ext) (auto simp: copy_in_def nth_append)

fun fmc_push_words :: "'d fmc_host \<Rightarrow> 'd fmc \<Rightarrow> u32 list \<Rightarrow> 'd fmc option" where
  "fmc_push_words h s [] = Some s"
| "fmc_push_words h s (w # ws) = do { s1 \<leftarrow> fmc_fifo_push h s w; fmc_push_words h s1 ws }"

lemma fmc_push_words_append:
  "fmc_push_words h s (ws @ vs) = do { s1 \<leftarrow> fmc_push_words h s ws; fmc_push_words h s1 vs }"
  by (induction ws arbitrary: s) (simp_all split: Option.bind_split)

text \<open>A program in progress at word \<open>k\<close> of the current page.\<close>

definition fmc_at_word :: "'d fmc \<Rightarrow> nat \<Rightarrow> bool" where
  "fmc_at_word s k = (fm_is_writing s \<and> fm_prog_pad s = 0 \<and> unat (fm_fmdnum s) = FMC_BYTES_PER_PAGE - 4 * k
     \<and> k < 512 \<and> unat (fm_prog_index s) < min (unat (fm_prog_count s)) FMC_MAX_LIST)"

lemma fmc_at_word_push:
  assumes "fmc_at_word s k"
  shows "fmc_fifo_push h s w =
     (let s1 = s\<lparr>fm_page_buffer := copy_in (fm_page_buffer s) (4 * k) (word_le w), fm_fmdnum := fm_fmdnum s - 4\<rparr> in
      if k = 511 then fmc_page_done h s1 else Some s1)"
proof -
  have n: "unat (fm_fmdnum s) = 2048 - 4 * k" "k < 512" using assms by (simp_all add: fmc_at_word_def fmc_sizes)
  have "fm_fmdnum s AND mask 2 = 0"
    using unat_and_mask [of "fm_fmdnum s" 2] n by (simp add: word_unat_eq_iff)
  then have al: "fm_fmdnum s AND 3 = 0" by (simp add: mask_eq_exp_minus_1)
  have nz: "fm_fmdnum s \<noteq> 0" using n by (auto simp: word_unat_eq_iff)
  have "4 \<le> fm_fmdnum s" using n by (simp add: word_le_nat_alt)
  then have "unat (fm_fmdnum s - 4) = 2048 - 4 * k - 4" using n by (simp add: unat_sub_le)
  then have z: "fm_fmdnum s - 4 = 0 \<longleftrightarrow> k = 511" using n(2) by (auto simp: word_unat_eq_iff)
  have ix: "\<not> min (unat (fm_prog_count s)) 512 \<le> unat (fm_prog_index s)"
    using assms by (simp add: fmc_at_word_def fmc_sizes min_le_iff_disj)
  have "(2048 - unat (fm_fmdnum s)) div 4 = k" using n by simp
  then show ?thesis
    using assms n al nz z ix
    by (simp add: fmc_fifo_push_def fmc_at_word_def set32_def word_le_def Let_def fmc_sizes)
qed

lemma fmc_push_words_mid:
  assumes "fmc_at_word s k" "k + length ws \<le> 511"
  shows "\<exists>dn. unat dn = FMC_BYTES_PER_PAGE - 4 * (k + length ws) \<and> fmc_push_words h s ws =
     Some (s\<lparr>fm_page_buffer := copy_in (fm_page_buffer s) (4 * k) (concat (map word_le ws)), fm_fmdnum := dn\<rparr>)"
  using assms
proof (induction ws arbitrary: s k)
  case Nil
  then show ?case by (intro exI [of _ "fm_fmdnum s"]) (simp add: fmc_at_word_def)
next
  case (Cons w ws)
  let ?s1 = "s\<lparr>fm_page_buffer := copy_in (fm_page_buffer s) (4 * k) (word_le w), fm_fmdnum := fm_fmdnum s - 4\<rparr>"
  have "4 \<le> fm_fmdnum s" using Cons.prems by (simp add: fmc_at_word_def fmc_sizes word_le_nat_alt)
  then have "fmc_at_word ?s1 (k + 1)"
    using Cons.prems by (simp add: fmc_at_word_def fmc_sizes unat_sub_le)
  from Cons.IH [OF this] Cons.prems obtain dn where
    dn: "unat dn = FMC_BYTES_PER_PAGE - 4 * (k + length (w # ws))"
      "fmc_push_words h ?s1 ws = Some (?s1\<lparr>fm_page_buffer := copy_in (fm_page_buffer ?s1) (4 * (k + 1)) (concat (map word_le ws)), fm_fmdnum := dn\<rparr>)"
    by auto
  have "copy_in (fm_page_buffer ?s1) (4 * (k + 1)) (concat (map word_le ws))
      = copy_in (fm_page_buffer s) (4 * k) (concat (map word_le (w # ws)))"
    using copy_in_append [of "fm_page_buffer s" "4 * k" "word_le w" "concat (map word_le ws)"] by (simp add: add.commute)
  with dn fmc_at_word_push [OF Cons.prems(1), of h w] Cons.prems(2) show ?case
    by (intro exI [of _ dn]) (simp add: Let_def)
qed

text \<open>One page of the stream: the words of the page and the four words of padding after it.\<close>

record prog_entry =
  pe_bank :: u32
  pe_page :: u32
  pe_meta :: "u8 list"
  pe_words :: "u32 list"
  pe_pad :: "u32 list"

definition pe_op :: "prog_entry \<Rightarrow> fmc_op" where
  "pe_op e = FProgram (pe_bank e) (pe_page e) (copy_in (\<lambda>_. 0) 0 (concat (map word_le (pe_words e))))
     (copy_in (\<lambda>_. 0xFF) 0 (take FMC_META_BYTES (pe_meta e)))"

definition pe_ok :: "prog_entry \<Rightarrow> bool" where
  "pe_ok e = (length (pe_words e) = 512 \<and> length (pe_pad e) = 4)"

definition fmc_queued :: "'d fmc \<Rightarrow> nat \<Rightarrow> prog_entry \<Rightarrow> bool" where
  "fmc_queued s i e = (fm_banks_to_read s i = pe_bank e \<and> fm_pages_to_read s i = pe_page e \<and> fm_prog_spares s i = pe_meta e)"

definition fmc_same_store :: "'d fmc \<Rightarrow> 'd fmc \<Rightarrow> bool" where
  "fmc_same_store s t = (fm_image s = fm_image t \<and> fm_nand_path s = fm_nand_path t \<and> fm_nand_overlay s = fm_nand_overlay t)"

lemma fmc_push_page:
  assumes "fmc_at_word s 0" "pe_ok e" "fmc_queued s (unat (fm_prog_index s)) e" "fmc_same_store s t"
    and "fmc_do h t (pe_op e) = Some (ok, t')"
  shows "\<exists>buf. fmc_push_words h s (pe_words e) =
     Some (s\<lparr>fm_page_buffer := buf, fm_prog_index := fm_prog_index s + 1, fm_buffered_page := - 1, fm_image := fm_image t',
             fm_nand_overlay := fm_nand_overlay t', fm_fmdnum := of_nat FMC_BYTES_PER_PAGE, fm_prog_pad := FMC_PROGRAM_PAD\<rparr>)"
proof -
  obtain ws w where ws: "pe_words e = ws @ [w]" "length ws = 511"
    using assms(2) by (cases "pe_words e" rule: rev_cases) (auto simp: pe_ok_def)
  from fmc_push_words_mid [OF assms(1), of ws h] ws(2) obtain dn where
    dn: "unat dn = 4" "fmc_push_words h s ws =
      Some (s\<lparr>fm_page_buffer := copy_in (fm_page_buffer s) 0 (concat (map word_le ws)), fm_fmdnum := dn\<rparr>)"
    by (auto simp: fmc_sizes)
  let ?s1 = "s\<lparr>fm_page_buffer := copy_in (fm_page_buffer s) 0 (concat (map word_le ws)), fm_fmdnum := dn\<rparr>"
  let ?buf = "copy_in (fm_page_buffer s) 0 (concat (map word_le (pe_words e)))"
  let ?s2 = "s\<lparr>fm_page_buffer := ?buf, fm_fmdnum := dn - 4\<rparr>"
  have "fmc_at_word ?s1 511" using assms(1) dn(1) by (simp add: fmc_at_word_def fmc_sizes)
  moreover have "copy_in (fm_page_buffer ?s1) 2044 (word_le w) = ?buf"
    using copy_in_append [of "fm_page_buffer s" 0 "concat (map word_le ws)" "word_le w"] ws by simp
  ultimately have push: "fmc_push_words h s (pe_words e) = fmc_page_done h ?s2"
    using dn(2) ws(1) fmc_at_word_push [of ?s1 511 h w] by (simp add: fmc_push_words_append Let_def)
  have "slice ?buf 0 FMC_BYTES_PER_PAGE = slice (copy_in (\<lambda>_. 0) 0 (concat (map word_le (pe_words e)))) 0 FMC_BYTES_PER_PAGE"
    using assms(2) by (intro slice_cong) (simp add: copy_in_def pe_ok_def fmc_sizes)
  with assms(4,5) have prog: "fmc_program_page h (?s2\<lparr>fm_prog_index := fm_prog_index s + 1\<rparr>) (pe_bank e) (pe_page e) ?buf
      (copy_in (\<lambda>_. 0xFF) 0 (take FMC_META_BYTES (pe_meta e))) = Some (ok, ?s2\<lparr>fm_prog_index := fm_prog_index s + 1,
        fm_buffered_page := - 1, fm_image := fm_image t', fm_nand_overlay := fm_nand_overlay t'\<rparr>)"
    by (subst program_page_cong [where s = t]) (auto simp: fmc_same_store_def pe_op_def)
  have "unat (fm_prog_index s) < FMC_MAX_LIST" using assms(1) by (simp add: fmc_at_word_def)
  with prog assms(3) show ?thesis
    by (intro exI [of _ ?buf]) (simp add: push fmc_page_done_def fmc_queued_def Let_def)
qed

lemma fmc_push_pad:
  assumes "fm_is_writing s" "fm_prog_pad s = FMC_PROGRAM_PAD" "length ws = 4"
  shows "fmc_push_words h s ws = Some (s\<lparr>fm_prog_pad := 0, fm_is_writing := (fm_prog_index s \<noteq> fm_prog_count s)\<rparr>)"
proof -
  from assms(3) obtain a b c d where "ws = [a, b, c, d]"
    by (auto simp: numeral_eq_Suc length_Suc_conv)
  with assms(1,2) show ?thesis by (simp add: fmc_fifo_push_def FMC_PROGRAM_PAD_def Let_def)
qed

text \<open>Programming pages one after another, whatever each program reports.\<close>

fun fmc_do_all :: "'d fmc_host \<Rightarrow> 'd fmc \<Rightarrow> fmc_op list \<Rightarrow> 'd fmc option" where
  "fmc_do_all h s [] = Some s"
| "fmc_do_all h s (op # ops) = do { (ok, s1) \<leftarrow> fmc_do h s op; fmc_do_all h s1 ops }"

definition pe_stream :: "prog_entry list \<Rightarrow> u32 list" where
  "pe_stream es = concat (map (\<lambda>e. pe_words e @ pe_pad e) es)"

lemma fmc_program_path:
  assumes "fmc_program_page h t b p d sp = Some (ok, t1)"
  shows "fm_nand_path t1 = fm_nand_path t"
proof -
  have "t1 = t\<lparr>fm_buffered_page := - 1, fm_image := fm_image t1, fm_nand_overlay := fm_nand_overlay t1\<rparr>"
    using program_page_cong [of t t d d sp sp h b p] assms by simp
  from arg_cong [OF this, of fm_nand_path] show ?thesis by simp
qed

lemma fmc_stream:
  assumes "list_all pe_ok es" "es \<noteq> []" "i + length es = n" "n \<le> FMC_MAX_LIST"
    and "\<forall>j < length es. fmc_queued s (i + j) (es ! j)"
    and "fm_is_writing s" "fm_prog_pad s = 0" "fm_fmdnum s = of_nat FMC_BYTES_PER_PAGE"
    and "fm_prog_index s = of_nat i" "fm_prog_count s = of_nat n"
    and "fmc_same_store s t" "fmc_do_all h t (map pe_op es) = Some t'"
  shows "\<exists>s'. fmc_push_words h s (pe_stream es) = Some s' \<and> fmc_same_store s' t' \<and> \<not> fm_is_writing s'
     \<and> fm_prog_index s' = of_nat n \<and> fm_buffered_page s' = - 1"
  using assms
proof (induction es arbitrary: s t i)
  case (Cons e es)
  have i: "unat (fm_prog_index s) = i" "unat (fm_prog_count s) = n" "i < n"
    using Cons.prems(3,4,9,10) by (simp_all add: unat_of_nat FMC_MAX_LIST_def)
  have at: "fmc_at_word s 0"
    using Cons.prems(4,6-8) i by (simp add: fmc_at_word_def unat_of_nat fmc_sizes)
  have q: "fmc_queued s (unat (fm_prog_index s)) e" "pe_ok e"
    using Cons.prems(1) spec [OF Cons.prems(5), of 0] i(1) by simp_all
  from Cons.prems(12) obtain ok t1 where t1: "fmc_do h t (pe_op e) = Some (ok, t1)" "fmc_do_all h t1 (map pe_op es) = Some t'"
    by (auto simp: bind_eq_Some_conv)
  from fmc_push_page [OF at q(2,1) Cons.prems(11) t1(1)] obtain buf where
    1: "fmc_push_words h s (pe_words e) = Some (s\<lparr>fm_page_buffer := buf, fm_prog_index := fm_prog_index s + 1,
      fm_buffered_page := - 1, fm_image := fm_image t1, fm_nand_overlay := fm_nand_overlay t1,
      fm_fmdnum := of_nat FMC_BYTES_PER_PAGE, fm_prog_pad := FMC_PROGRAM_PAD\<rparr>)" by blast
  define s1 where "s1 = s\<lparr>fm_page_buffer := buf, fm_prog_index := fm_prog_index s + 1,
      fm_buffered_page := - 1, fm_image := fm_image t1, fm_nand_overlay := fm_nand_overlay t1,
      fm_fmdnum := of_nat FMC_BYTES_PER_PAGE, fm_prog_pad := 0, fm_is_writing := (of_nat (i + 1) \<noteq> (of_nat n :: u32))\<rparr>"
  have "fmc_push_words h s (pe_words e @ pe_pad e) = Some s1"
    using 1 fmc_push_pad [of _ "pe_pad e" h] q(2) Cons.prems(6,9,10)
    by (simp add: fmc_push_words_append pe_ok_def s1_def add.commute)
  then have push: "fmc_push_words h s (pe_stream (e # es)) = fmc_push_words h s1 (pe_stream es)"
    using fmc_push_words_append [of h s "pe_words e @ pe_pad e" "pe_stream es"] by (simp add: pe_stream_def)
  have path: "fm_nand_path t1 = fm_nand_path t"
    using t1(1) by (simp add: pe_op_def fmc_program_path)
  have st: "fmc_same_store s1 t1" using Cons.prems(11) path by (simp add: fmc_same_store_def s1_def)
  show ?case
  proof (cases "es = []")
    case True
    then show ?thesis
      using push st t1(2) Cons.prems(3,9) by (auto simp: pe_stream_def s1_def)
  next
    case False
    have "unat (of_nat (i + 1) :: u32) = i + 1" "unat (of_nat n :: u32) = n"
      using i(3) Cons.prems(4) by (simp_all only: unat_of_nat) (simp_all add: FMC_MAX_LIST_def)
    moreover have "i + 1 \<noteq> n" using False Cons.prems(3) by (cases es) auto
    ultimately have lt: "of_nat (i + 1) \<noteq> (of_nat n :: u32)" by metis
    have "\<forall>j < length es. fmc_queued s1 (i + 1 + j) (es ! j)"
      using Cons.prems(5) by (auto simp: fmc_queued_def s1_def dest: spec [of _ "Suc _"])
    from Cons.IH [OF _ False _ Cons.prems(4) this _ _ _ _ _ st t1(2)] Cons.prems(1,3,9,10) lt push show ?thesis
      by (auto simp: s1_def add.commute)
  qed
qed simp

section \<open>A list of pages read through the FIFO\<close>

fun fmc_pop_words :: "'d fmc_host \<Rightarrow> 'd fmc \<Rightarrow> nat \<Rightarrow> (u32 list \<times> 'd fmc) option" where
  "fmc_pop_words h s 0 = Some ([], s)"
| "fmc_pop_words h s (Suc n) = do { (w, s1) \<leftarrow> fmc_fifo_pop h s; (ws, s2) \<leftarrow> fmc_pop_words h s1 n; Some (w # ws, s2) }"

lemma fmc_pop_words_add:
  "fmc_pop_words h s (m + n) = do { (ws, s1) \<leftarrow> fmc_pop_words h s m; (vs, s2) \<leftarrow> fmc_pop_words h s1 n; Some (ws @ vs, s2) }"
  by (induction m arbitrary: s) (auto split: Option.bind_split)

lemma fmc_lowest_bank_spec:
  assumes "\<And>j. j \<in> set js \<Longrightarrow> bit bitmap j \<longleftrightarrow> j = b"
  shows "fmc_lowest_bank bitmap js = (if b \<in> set js then Some b else None)"
proof -
  have "bitmap AND push_bit j 1 \<noteq> 0 \<longleftrightarrow> bit bitmap j" for j
    by (simp add: push_bit_eq_mult and_exp_eq_0_iff_not_bit)
  with assms show ?thesis by (induction js) auto
qed

lemma set_bank_frame [simp]:
  "fm_fmdnum (s5l8900_fmc_set_bank s b) = fm_fmdnum s"
  "fm_cmd (s5l8900_fmc_set_bank s b) = fm_cmd s"
  "fm_reading_multiple_pages (s5l8900_fmc_set_bank s b) = fm_reading_multiple_pages s"
  "fm_cur_bank_reading (s5l8900_fmc_set_bank s b) = fm_cur_bank_reading s"
  "fm_banks_to_read (s5l8900_fmc_set_bank s b) = fm_banks_to_read s"
  "fm_pages_to_read (s5l8900_fmc_set_bank s b) = fm_pages_to_read s"
  "fm_page_buffer (s5l8900_fmc_set_bank s b) = fm_page_buffer s"
  "fm_page_spare_buffer (s5l8900_fmc_set_bank s b) = fm_page_spare_buffer s"
  "fm_buffered_bank (s5l8900_fmc_set_bank s b) = fm_buffered_bank s"
  "fm_buffered_page (s5l8900_fmc_set_bank s b) = fm_buffered_page s"
  "fm_nand_path (s5l8900_fmc_set_bank s b) = fm_nand_path s"
  "fm_nand_overlay (s5l8900_fmc_set_bank s b) = fm_nand_overlay s"
  "fm_image (s5l8900_fmc_set_bank s b) = fm_image s"
  by (simp_all add: s5l8900_fmc_set_bank_def Let_def)

lemma fmc_active_set_bank:
  assumes "unat b < FMC_NUM_BANKS"
  shows "fmc_active_bank (s5l8900_fmc_set_bank s b) = Some (unat b)"
proof -
  let ?c = "fm_fmctrl0 (s5l8900_fmc_set_bank s b)"
  have ff: "(0xFF :: u32) = mask 8" by (simp add: mask_eq_exp_minus_1)
  have c: "?c = fm_fmctrl0 s AND NOT (push_bit 1 (mask 8)) OR push_bit (unat b + 1) 1"
    unfolding ff [symmetric] using assms by (simp add: s5l8900_fmc_set_bank_def Let_def)
  have "bit (drop_bit 1 ?c AND 0xFF) j \<longleftrightarrow> j = unat b" if "j < 8" for j
    unfolding c ff unfolding wbits bit_mask_iff bit_1_iff using that assms by (auto simp: FMC_NUM_BANKS_def)
  then show ?thesis
    using fmc_lowest_bank_spec [of "[0 ..< FMC_NUM_BANKS]" "drop_bit 1 ?c AND 0xFF" "unat b"] assms
    by (simp add: fmc_active_bank_def FMC_NUM_BANKS_def)
qed

text \<open>The page buffers hold the page they are labelled with. The label -1 stands for no page.\<close>

definition fmc_buffer_ok :: "('d \<Rightarrow> u8 carray) \<Rightarrow> 'd fmc \<Rightarrow> bool" where
  "fmc_buffer_ok cells s = (fm_buffered_page s = - 1 \<or>
     slice (fm_page_buffer s) 0 FMC_BYTES_PER_PAGE @ slice (fm_page_spare_buffer s) 0 FMC_BYTES_PER_SPARE
       = fmc_cell cells s (fm_buffered_bank s) (fm_buffered_page s))"

definition fmc_list_read :: "'d fmc \<Rightarrow> bool" where
  "fmc_list_read s = (fm_reading_multiple_pages s \<and> fm_cmd s \<noteq> FMC_CMD_ID \<and> fm_cmd s \<noteq> FMC_CMD_READSTATUS)"

text \<open>What popping a word of the list leaves alone.\<close>

definition fmc_pop_keeps :: "'d fmc \<Rightarrow> 'd fmc \<Rightarrow> bool" where
  "fmc_pop_keeps s t = (fm_reading_multiple_pages t = fm_reading_multiple_pages s \<and> fm_cmd t = fm_cmd s
     \<and> fm_banks_to_read t = fm_banks_to_read s \<and> fm_pages_to_read t = fm_pages_to_read s
     \<and> fm_image t = fm_image s \<and> fm_nand_path t = fm_nand_path s \<and> fm_nand_overlay t = fm_nand_overlay s)"

definition buf_word :: "u8 carray \<Rightarrow> nat \<Rightarrow> u32" where
  "buf_word b k = le32 (b (4 * k)) (b (4 * k + 1)) (b (4 * k + 2)) (b (4 * k + 3))"

lemma buf_words: "concat (map word_le (map (buf_word b) [0 ..< n])) = slice b 0 (4 * n)"
proof (induction n)
  case (Suc n)
  have "word_le (buf_word b n) = [b (4 * n), b (4 * n + 1), b (4 * n + 2), b (4 * n + 3)]"
    by (simp add: word_le_def buf_word_def)
  moreover have "slice b 0 (4 * Suc n) = slice b 0 (4 * n) @ [b (4 * n), b (4 * n + 1), b (4 * n + 2), b (4 * n + 3)]"
    by (simp add: slice_def numeral_eq_Suc)
  ultimately show ?case using Suc by simp
qed (simp add: slice_def)

text \<open>Inside a page: the buffered page is the entry's, and only the count moves.\<close>

definition fmc_on_entry :: "'d fmc \<Rightarrow> nat \<Rightarrow> bool" where
  "fmc_on_entry s c = (fm_cur_bank_reading s = of_nat c \<and> c < FMC_MAX_LIST
     \<and> fmc_active_bank s = Some (unat (fm_banks_to_read s c)) \<and> fm_buffered_bank s = fm_banks_to_read s c
     \<and> fm_buffered_page s = fm_pages_to_read s c)"

lemma sint_of_nat_small: "c < 512 \<Longrightarrow> sint (of_nat c :: u32) = int c"
  by (simp add: signed_of_nat signed_take_bit_int_eq_self)

lemma fmc_pop_rest:
  assumes "fmc_list_read s" "fmc_on_entry s c" "unat (fm_fmdnum s) mod FMC_BYTES_PER_PAGE = FMC_BYTES_PER_PAGE - 4 * k"
    and "0 < k" "k < 512"
  shows "fmc_fifo_pop h s = Some (buf_word (fm_page_buffer s) k, s\<lparr>fm_fmdnum := fm_fmdnum s - 4\<rparr>)"
proof -
  have c: "unat (of_nat c :: u32) = c" "sint (of_nat c :: u32) = int c"
    using assms(2) by (simp_all add: fmc_on_entry_def FMC_MAX_LIST_def unat_of_nat sint_of_nat_small)
  have "s5l8900_fmc_buffer_page h s (fm_pages_to_read s c) = Some s"
    using assms(2) by (simp add: s5l8900_fmc_buffer_page_def fmc_on_entry_def)
  then show ?thesis
    using assms c
    by (simp add: fmc_fifo_pop_def fmc_list_read_def fmc_pop_multiple_def fmc_next_entry_def Let_def fmc_on_entry_def
        get32_def buf_word_def fmc_sizes)
qed

lemma fmc_pop_rest_many:
  assumes "fmc_list_read s" "fmc_on_entry s c" "unat (fm_fmdnum s) = m * FMC_BYTES_PER_PAGE + (FMC_BYTES_PER_PAGE - 4 * k)"
    and "0 < k" "k + n \<le> 512"
  shows "\<exists>dn. fmc_pop_words h s n = Some (map (buf_word (fm_page_buffer s)) [k ..< k + n], s\<lparr>fm_fmdnum := dn\<rparr>)
     \<and> unat dn = m * FMC_BYTES_PER_PAGE + (FMC_BYTES_PER_PAGE - 4 * (k + n))"
  using assms
proof (induction n arbitrary: s k)
  case 0
  then show ?case by (intro exI [of _ "fm_fmdnum s"]) simp
next
  case (Suc n)
  let ?s1 = "s\<lparr>fm_fmdnum := fm_fmdnum s - 4\<rparr>"
  have "unat (fm_fmdnum s) mod FMC_BYTES_PER_PAGE = FMC_BYTES_PER_PAGE - 4 * k"
    unfolding Suc.prems(3) mod_mult_self3 using Suc.prems(4) by (simp add: fmc_sizes)
  then have pop: "fmc_fifo_pop h s = Some (buf_word (fm_page_buffer s) k, ?s1)"
    using Suc.prems by (intro fmc_pop_rest) auto
  have "4 \<le> fm_fmdnum s" using Suc.prems(3-5) by (simp add: word_le_nat_alt fmc_sizes)
  then have dn: "unat (fm_fmdnum ?s1) = m * FMC_BYTES_PER_PAGE + (FMC_BYTES_PER_PAGE - 4 * (k + 1))"
    using Suc.prems(3-5) by (simp add: unat_sub_le fmc_sizes)
  have "fmc_list_read ?s1" "fmc_on_entry ?s1 c"
    using Suc.prems(1,2) by (simp_all add: fmc_list_read_def fmc_on_entry_def fmc_active_bank_def)
  from Suc.IH [OF this dn] Suc.prems(4,5) obtain dn' where
    "fmc_pop_words h ?s1 n = Some (map (buf_word (fm_page_buffer ?s1)) [k + 1 ..< k + 1 + n], ?s1\<lparr>fm_fmdnum := dn'\<rparr>)"
    "unat dn' = m * FMC_BYTES_PER_PAGE + (FMC_BYTES_PER_PAGE - 4 * (k + 1 + n))" by auto
  with pop show ?case by (intro exI [of _ dn']) (simp add: upt_conv_Cons del: upt_Suc)
qed

context reliable_driver
begin

lemma buffer_page_load:
  assumes "fh_drv h = drv" "fmc_store_ok len s" "fmc_buffer_ok cells s" "fmc_active_bank s = Some (unat b)" "p \<noteq> - 1"
  shows "\<exists>d sp. s5l8900_fmc_buffer_page h s p =
      Some (s\<lparr>fm_page_buffer := d, fm_page_spare_buffer := sp, fm_buffered_page := p, fm_buffered_bank := b\<rparr>)
     \<and> slice d 0 FMC_BYTES_PER_PAGE @ slice sp 0 FMC_BYTES_PER_SPARE = fmc_cell cells s b p"
proof (cases "b = fm_buffered_bank s \<and> p = fm_buffered_page s")
  case True
  then show ?thesis
    using assms(3-5) by (intro exI [of _ "fm_page_buffer s"] exI [of _ "fm_page_spare_buffer s"])
      (auto simp: s5l8900_fmc_buffer_page_def fmc_buffer_ok_def)
next
  case False
  from load_page_cell [OF assms(1,2)] obtain d sp where
    "s5l8900_fmc_load_page h s b p (fm_page_buffer s) (fm_page_spare_buffer s) = Some (d, sp)"
    "slice d 0 FMC_BYTES_PER_PAGE @ slice sp 0 FMC_BYTES_PER_SPARE = fmc_cell cells s b p" by blast
  with False assms(4) show ?thesis
    by (intro exI [of _ d] exI [of _ sp]) (auto simp: s5l8900_fmc_buffer_page_def)
qed

lemma pop_entry:
  assumes "fh_drv h = drv" "fmc_store_ok len s" "fmc_buffer_ok cells s" "fmc_list_read s"
    and "fm_cur_bank_reading s + 1 = of_nat c" "c < FMC_MAX_LIST" "unat (fm_fmdnum s) = Suc m * FMC_BYTES_PER_PAGE"
    and "unat (fm_banks_to_read s c) < FMC_NUM_BANKS" "fm_pages_to_read s c \<noteq> - 1"
  shows "\<exists>ws s'. fmc_pop_words h s 512 = Some (ws, s') \<and> fmc_pop_keeps s s' \<and> fmc_buffer_ok cells s'
     \<and> fm_cur_bank_reading s' = of_nat c \<and> unat (fm_fmdnum s') = m * FMC_BYTES_PER_PAGE
     \<and> concat (map word_le ws) = take FMC_BYTES_PER_PAGE (fmc_cell cells s (fm_banks_to_read s c) (fm_pages_to_read s c))"
proof -
  let ?b = "fm_banks_to_read s c" and ?p = "fm_pages_to_read s c"
  let ?t = "s5l8900_fmc_set_bank (s\<lparr>fm_cur_bank_reading := of_nat c\<rparr>) ?b"
  have t: "fmc_store_ok len ?t" "fmc_buffer_ok cells ?t" "fmc_cell cells ?t = fmc_cell cells s"
    using assms(2,3) by (simp_all add: fmc_store_ok_def fmc_buffer_ok_def fmc_cell_def)
  from buffer_page_load [OF assms(1) t(1,2) fmc_active_set_bank [OF assms(8)] assms(9)] obtain d sp where
    buf: "s5l8900_fmc_buffer_page h ?t ?p = Some (?t\<lparr>fm_page_buffer := d, fm_page_spare_buffer := sp,
        fm_buffered_page := ?p, fm_buffered_bank := ?b\<rparr>)"
      "slice d 0 FMC_BYTES_PER_PAGE @ slice sp 0 FMC_BYTES_PER_SPARE = fmc_cell cells s ?b ?p"
    using t(3) by auto
  define s1 where "s1 = ?t\<lparr>fm_page_buffer := d, fm_page_spare_buffer := sp, fm_buffered_page := ?p,
    fm_buffered_bank := ?b, fm_fmdnum := fm_fmdnum s - 4\<rparr>"
  have c: "unat (of_nat c :: u32) = c" "sint (of_nat c :: u32) = int c"
    using assms(6) by (simp_all add: FMC_MAX_LIST_def unat_of_nat sint_of_nat_small)
  have "unat (fm_fmdnum s) mod FMC_BYTES_PER_PAGE = 0" using assms(7) by simp
  then have pop: "fmc_fifo_pop h s = Some (buf_word d 0, s1)"
    using assms(4-6) c buf(1)
    by (simp add: fmc_fifo_pop_def fmc_list_read_def fmc_pop_multiple_def fmc_next_entry_def Let_def s1_def
        get32_def buf_word_def fmc_sizes)
  have "fmc_active_bank s1 = fmc_active_bank ?t" by (simp add: s1_def fmc_active_bank_def)
  then have l1: "fmc_list_read s1" "fmc_on_entry s1 c"
    using assms(4,6) fmc_active_set_bank [OF assms(8)] by (simp_all add: fmc_list_read_def s1_def fmc_on_entry_def)
  have "4 \<le> fm_fmdnum s" using assms(7) by (simp add: word_le_nat_alt fmc_sizes)
  then have "unat (fm_fmdnum s1) = m * FMC_BYTES_PER_PAGE + (FMC_BYTES_PER_PAGE - 4 * 1)"
    using assms(7) by (simp add: s1_def unat_sub_le fmc_sizes)
  note num = this
  define N where "N = (511 :: nat)"
  from fmc_pop_rest_many [OF l1 num, of N h] obtain dn where
    rest: "fmc_pop_words h s1 N = Some (map (buf_word d) [1 ..< 1 + N], s1\<lparr>fm_fmdnum := dn\<rparr>)"
      "unat dn = m * FMC_BYTES_PER_PAGE"
    by (auto simp: s1_def fmc_sizes N_def simp del: upt_rec_numeral)
  have "fmc_pop_words h s (Suc N) = Some (map (buf_word d) [0 ..< Suc N], s1\<lparr>fm_fmdnum := dn\<rparr>)"
    using pop rest(1) by (simp add: upt_conv_Cons [of 0] del: upt_Suc)
  then have run: "fmc_pop_words h s 512 = Some (map (buf_word d) [0 ..< Suc N], s1\<lparr>fm_fmdnum := dn\<rparr>)"
    unfolding N_def by (simp only: Suc_numeral add_num_simps)
  have "4 * Suc N = FMC_BYTES_PER_PAGE" by (simp add: N_def fmc_sizes)
  then have words: "concat (map word_le (map (buf_word d) [0 ..< Suc N])) = take FMC_BYTES_PER_PAGE (fmc_cell cells s ?b ?p)"
    unfolding buf_words buf(2) [symmetric] by simp
  have keeps: "fmc_pop_keeps s (s1\<lparr>fm_fmdnum := dn\<rparr>)" "fmc_buffer_ok cells (s1\<lparr>fm_fmdnum := dn\<rparr>)"
    using buf(2) by (simp_all add: fmc_pop_keeps_def s1_def fmc_buffer_ok_def fmc_cell_def)
  show ?thesis
    using run words keeps rest(2) l1(2)
    by (intro exI [of _ "map (buf_word d) [0 ..< Suc N]"] exI [of _ "s1\<lparr>fm_fmdnum := dn\<rparr>"]) (simp add: fmc_on_entry_def)
qed

lemma read_entries:
  assumes "fh_drv h = drv" "fmc_store_ok len s" "fmc_buffer_ok cells s" "fmc_list_read s"
    and "fm_cur_bank_reading s + 1 = of_nat c" "c + n \<le> FMC_MAX_LIST" "unat (fm_fmdnum s) = n * FMC_BYTES_PER_PAGE"
    and "\<forall>i < n. unat (fm_banks_to_read s (c + i)) < FMC_NUM_BANKS \<and> fm_pages_to_read s (c + i) \<noteq> - 1"
  shows "\<exists>ws s'. fmc_pop_words h s (n * 512) = Some (ws, s') \<and> concat (map word_le ws) =
     concat (map (\<lambda>i. take FMC_BYTES_PER_PAGE (fmc_cell cells s (fm_banks_to_read s i) (fm_pages_to_read s i))) [c ..< c + n])"
  using assms(2-)
proof (induction n arbitrary: s c)
  case (Suc n)
  from pop_entry [OF assms(1) Suc.prems(1-4) _ Suc.prems(6)] spec [OF Suc.prems(7), of 0] Suc.prems(5) obtain ws s1 where
    1: "fmc_pop_words h s 512 = Some (ws, s1)" "fmc_pop_keeps s s1" "fmc_buffer_ok cells s1"
      "fm_cur_bank_reading s1 = of_nat c" "unat (fm_fmdnum s1) = n * FMC_BYTES_PER_PAGE"
      "concat (map word_le ws) = take FMC_BYTES_PER_PAGE (fmc_cell cells s (fm_banks_to_read s c) (fm_pages_to_read s c))"
    by auto
  have k: "fmc_store_ok len s1" "fmc_list_read s1" "fmc_cell cells s1 = fmc_cell cells s"
    "fm_banks_to_read s1 = fm_banks_to_read s" "fm_pages_to_read s1 = fm_pages_to_read s"
    using 1(2) Suc.prems(1,3) by (simp_all add: fmc_pop_keeps_def fmc_store_ok_def fmc_list_read_def fmc_cell_def)
  have "\<forall>i < n. unat (fm_banks_to_read s1 (Suc c + i)) < FMC_NUM_BANKS \<and> fm_pages_to_read s1 (Suc c + i) \<noteq> - 1"
    using Suc.prems(7) k(4,5) by auto
  from Suc.IH [OF k(1) 1(3) k(2) _ _ 1(5) this] 1(4) Suc.prems(5) obtain vs s2 where
    2: "fmc_pop_words h s1 (n * 512) = Some (vs, s2)" "concat (map word_le vs) = concat (map (\<lambda>i. take FMC_BYTES_PER_PAGE
        (fmc_cell cells s1 (fm_banks_to_read s1 i) (fm_pages_to_read s1 i))) [Suc c ..< Suc c + n])"
    by auto
  have "fmc_pop_words h s (512 + n * 512) = Some (ws @ vs, s2)"
    unfolding fmc_pop_words_add using 1(1) 2(1) by simp
  then show ?case
    using 1(6) 2(2) k(3-5) by (intro exI [of _ "ws @ vs"] exI [of _ s2]) (simp add: upt_conv_Cons add.commute del: upt_Suc)
qed simp

end

section \<open>Properties\<close>

text \<open>
  C8. The two ways to keep pages agree: an image store and an overlay directory that show
  the same pages at the start show the same pages after the same sequence of page programs
  and block erases, as long as none of them failed.
\<close>

theorem fmc_backends_agree:
  assumes "fh_drv h = raw_ops" "fh_drv h' = raw_ops" "fmc_store_ok rf_size s" "fmc_store_ok rf_size t"
    and "fmc_writable s" "fmc_writable t" "fmc_cell rf_bytes s = fmc_cell rf_bytes t" "list_all fmc_op_in_chip ops"
    and "fmc_store_run h s ops = Some (True, s')" "fmc_store_run h' t ops = Some (True, t')"
  shows "\<exists>d sp e ep. s5l8900_fmc_load_page h s' b p d0 sp0 = Some (d, sp) \<and> s5l8900_fmc_load_page h' t' b p e0 ep0 = Some (e, ep)
     \<and> slice d 0 FMC_BYTES_PER_PAGE = slice e 0 FMC_BYTES_PER_PAGE \<and> slice sp 0 FMC_BYTES_PER_SPARE = slice ep 0 FMC_BYTES_PER_SPARE"
proof -
  have s': "fmc_store_ok rf_size s'" "fmc_cell rf_bytes s' = fold fmc_spec ops (fmc_cell rf_bytes s)"
    using raw.run_cells [OF assms(1,3,5,8,9)] by simp_all
  have t': "fmc_store_ok rf_size t'" "fmc_cell rf_bytes t' = fold fmc_spec ops (fmc_cell rf_bytes t)"
    using raw.run_cells [OF assms(2,4,6,8,10)] by simp_all
  show ?thesis
    using raw.load_page_cell [OF assms(1) s'(1), of b p d0 sp0] raw.load_page_cell [OF assms(2) t'(1), of b p e0 ep0]
      s'(2) t'(2) assms(7) by (metis append_eq_append_conv length_slice)
qed

text \<open>
  C3. A program is what the driver streams: the pages of a queued list, sent through the FIFO
  as 512 words and a pad each, leave the store exactly as programming the pages one after
  another with their queued metadata does, and end the program.
\<close>

theorem fmc_stream_programs:
  assumes "list_all pe_ok es" "es \<noteq> []" "length es \<le> FMC_MAX_LIST" "\<forall>j < length es. fmc_queued s j (es ! j)"
    and "fmc_do_all h s (map pe_op es) = Some t"
  shows "\<exists>s'. fmc_push_words h (s5l8900_fmc_start_program s (of_nat (length es))) (pe_stream es) = Some s'
     \<and> fm_image s' = fm_image t \<and> fm_nand_overlay s' = fm_nand_overlay t \<and> \<not> fm_is_writing s'"
proof -
  let ?s = "s5l8900_fmc_start_program s (of_nat (length es))"
  have "0 < (of_nat (length es) :: u32)"
    using assms(2,3) by (simp add: word_less_nat_alt unat_of_nat FMC_MAX_LIST_def)
  then have "fm_is_writing ?s" by (simp add: s5l8900_fmc_start_program_def)
  with fmc_stream [of es 0 "length es" ?s s h t] assms show ?thesis
    by (auto simp: s5l8900_fmc_start_program_def fmc_same_store_def fmc_queued_def)
qed

text \<open>
  C22. A multi-page read returns the pages of the queued list in order: with the page buffer
  holding what its label says, the words popped from the FIFO are the data of the queued
  pages, one after another.
\<close>

theorem fmc_read_list:
  assumes "fh_drv h = raw_ops" "fmc_store_ok rf_size s" "fmc_buffer_ok rf_bytes s" "fmc_list_read s"
    and "fm_cur_bank_reading s = - 1" "n \<le> FMC_MAX_LIST" "fm_fmdnum s = of_nat (n * FMC_BYTES_PER_PAGE)"
    and "\<forall>i < n. unat (fm_banks_to_read s i) < FMC_NUM_BANKS \<and> fm_pages_to_read s i \<noteq> - 1"
  shows "\<exists>ws s'. fmc_pop_words h s (n * 512) = Some (ws, s') \<and> concat (map word_le ws) =
     concat (map (\<lambda>i. take FMC_BYTES_PER_PAGE (fmc_cell rf_bytes s (fm_banks_to_read s i) (fm_pages_to_read s i))) [0 ..< n])"
proof -
  have "unat (fm_fmdnum s) = n * FMC_BYTES_PER_PAGE"
    unfolding assms(7) unat_of_nat using assms(6) by (simp add: fmc_sizes)
  with raw.read_entries [OF assms(1-4), of 0 n] assms(5,6,8) show ?thesis by simp
qed

text \<open>
  C23. Reading past a full list is not contained: with the list index on the last entry, a
  FIFO read at a page boundary reports an overrun but still moves the index past the list;
  a guest that then sets a count inside a page and reads once more indexes the page list
  out of bounds.
\<close>

theorem fmc_overrun_reads_outside:
  assumes "fmc_list_read s" "fm_cur_bank_reading s = 511" "fm_fmdnum s = 0"
  shows "\<exists>s1 s2. s5l8900_fmc_read h s FMC_FMFIFO = Some (0, s1) \<and> s5l8900_fmc_write h s1 FMC_FMDNUM 4 = Some s2
     \<and> s5l8900_fmc_read h s2 FMC_FMFIFO = None"
  using assms
  by (simp add: s5l8900_fmc_read_def s5l8900_fmc_write_def fmc_regs fmc_fifo_pop_def fmc_list_read_def
      fmc_pop_multiple_def fmc_next_entry_def fmc_sizes aget_def Let_def)

section \<open>Concrete controllers\<close>

definition fmc_sample_host :: "raw_file fmc_host" where
  "fmc_sample_host = \<lparr>fh_drv = raw_ops, fh_mkdir = True, fh_fopen = True, fh_room = 4096, fh_fclose = True,
     fh_remove = (\<lambda>_ _. True), fh_stack = (\<lambda>_. 0)\<rparr>"

text \<open>An empty overlay directory with no base.\<close>

definition fmc_sample :: "raw_file fmc" where
  "fmc_sample = \<lparr>fm_fmctrl0 = 0, fm_fmctrl1 = 0, fm_fmaddr0 = 0, fm_fmaddr1 = 0, fm_fmanum = 0, fm_fmdnum = 2048, fm_rsctrl = 0,
     fm_cmd = 0, fm_reading_spare = False, fm_page_buffer = (\<lambda>_. 0), fm_page_spare_buffer = (\<lambda>_. 0), fm_buffered_bank = - 1,
     fm_buffered_page = - 1, fm_reading_multiple_pages = True, fm_cur_bank_reading = - 1, fm_banks_to_read = (\<lambda>_. 0),
     fm_pages_to_read = (\<lambda>_. 7), fm_is_writing = False, fm_prog_count = 0, fm_prog_index = 0, fm_prog_pad = 0,
     fm_prog_spares = (\<lambda>_. []), fm_nand_path = None,
     fm_nand_overlay = Some \<lparr>pd_page = (\<lambda>_ _. None), pd_erased = (\<lambda>_ _. False)\<rparr>, fm_banks = 1, fm_image = None\<rparr>"

text \<open>The same controller on an image of one chip with one block, all holes.\<close>

definition fmc_sample_image :: "raw_file nand_image" where
  "fmc_sample_image = \<lparr>ni_chip = (\<lambda>_. raw_open 0 0x42000),
     ni_geo = \<lparr>ng_chips = 1, ng_page_bytes = 2048, ng_spare_bytes = 64, ng_pages_per_block = 128, ng_blocks_per_chip = 1\<rparr>,
     ni_stride = 2112, ni_blank = fmc_ones, ni_buffer = [], ni_failed = False\<rparr>"

definition fmc_sample_img :: "raw_file fmc" where
  "fmc_sample_img = fmc_sample\<lparr>fm_nand_overlay := None, fm_image := Some fmc_sample_image\<rparr>"

lemma fmc_sample_ok: "fmc_store_ok rf_size fmc_sample" "fmc_writable fmc_sample" "fmc_cell rf_bytes fmc_sample = (\<lambda>_ _. fmc_ones)"
  by (simp_all add: fmc_store_defs fmc_sample_def fmc_dir_ok_def fmc_writable_def fmc_dir_cell_def fmc_base_cell_def fun_eq_iff)

lemma fmc_sample_img_ok:
  "fmc_store_ok rf_size fmc_sample_img" "fmc_writable fmc_sample_img" "fmc_cell rf_bytes fmc_sample_img = (\<lambda>_ _. fmc_ones)"
proof -
  have "slice (\<lambda>_. 0 :: u8) k 2112 = replicate 2112 0" for k by (simp add: slice_def map_replicate_const)
  then show "fmc_cell rf_bytes fmc_sample_img = (\<lambda>_ _. fmc_ones)"
    by (simp add: fmc_store_defs fmc_sample_img_def fmc_image_cell_def nand_page_def fmc_sample_image_def raw_open_def
        map2_xor_zero fun_eq_iff fmc_sizes)
qed (simp_all add: fmc_store_defs fmc_sample_img_def fmc_writable_def fmc_image_ok_def nand_ok_def fmc_sample_image_def
    raw_open_def nand_file_size_def NAND_IMAGE_MAX_CHIPS_def fmc_sizes FMC_PAGES_PER_BLOCK_def)

lemma fmc_remove_absent: "\<forall>p. pd_page d bank p = None \<Longrightarrow> fst (fmc_remove_pages h bank ps d)"
  by (induction ps arbitrary: d) simp_all

theorem fmc_backends_agree_witness:
  "\<exists>s' t' d sp e ep. fmc_store_run fmc_sample_host fmc_sample [FBlockErase 0 0] = Some (True, s')
     \<and> fmc_store_run fmc_sample_host fmc_sample_img [FBlockErase 0 0] = Some (True, t')
     \<and> s5l8900_fmc_load_page fmc_sample_host s' 0 5 (\<lambda>_. 0) (\<lambda>_. 0) = Some (d, sp)
     \<and> s5l8900_fmc_load_page fmc_sample_host t' 0 5 (\<lambda>_. 0) (\<lambda>_. 0) = Some (e, ep)
     \<and> slice d 0 FMC_BYTES_PER_PAGE = slice e 0 FMC_BYTES_PER_PAGE"
proof -
  let ?d = "\<lparr>pd_page = (\<lambda>_ _. None), pd_erased = (\<lambda>_ _. False)\<rparr>"
  obtain d1 where "fmc_remove_pages fmc_sample_host 0 (fmc_block_pages 0) ?d = (True, d1)"
    using fmc_remove_absent [of ?d 0 fmc_sample_host "fmc_block_pages 0"]
    by (cases "fmc_remove_pages fmc_sample_host 0 (fmc_block_pages 0) ?d") auto
  then obtain d' where "fmc_erase_dir fmc_sample_host ?d 0 0 = (True, d')"
    by (simp add: fmc_erase_dir_def) (simp add: fmc_sample_host_def)
  then obtain s' where s': "fmc_store_run fmc_sample_host fmc_sample [FBlockErase 0 0] = Some (True, s')"
    by (simp add: s5l8900_fmc_erase_block_def fmc_sample_def)
  obtain t' where t': "fmc_store_run fmc_sample_host fmc_sample_img [FBlockErase 0 0] = Some (True, t')"
    by (simp add: s5l8900_fmc_erase_block_def fmc_sample_img_def fmc_sample_def fmc_sample_image_def nand_image_erase_def
        nand_image_bad_def nand_backend_def NAND_IMAGE_MAX_CHIPS_def raw_open_def nand_offset_def fmc_sample_host_def
        blk_pwrite_zeroes_def blk_check_byte_request_def raw_ops_def nand_put_def)
  have "fh_drv fmc_sample_host = raw_ops" "list_all fmc_op_in_chip [FBlockErase 0 0]"
    by (simp_all add: fmc_sample_host_def FMC_BLOCKS_PER_BANK_def)
  with fmc_backends_agree [OF _ _ fmc_sample_ok(1) fmc_sample_img_ok(1) fmc_sample_ok(2) fmc_sample_img_ok(2) _ _ s' t',
      of 0 5 "\<lambda>_. 0" "\<lambda>_. 0" "\<lambda>_. 0" "\<lambda>_. 0"] s' t' fmc_sample_ok(3) fmc_sample_img_ok(3)
  show ?thesis by fastforce
qed

definition pe_sample :: prog_entry where
  "pe_sample = \<lparr>pe_bank = 0, pe_page = 7, pe_meta = [], pe_words = replicate 512 0x12345678, pe_pad = [0, 0, 0, 0]\<rparr>"

theorem fmc_stream_programs_witness:
  "\<exists>s'. fmc_push_words fmc_sample_host (s5l8900_fmc_start_program fmc_sample 1) (pe_stream [pe_sample]) = Some s'
     \<and> \<not> fm_is_writing s'"
proof -
  have drv: "fh_drv fmc_sample_host = raw_ops" by (simp add: fmc_sample_host_def)
  obtain t where t: "fmc_do_all fmc_sample_host fmc_sample (map pe_op [pe_sample]) = Some t"
    using raw.do_cell [OF drv fmc_sample_ok(1,2), of "pe_op pe_sample"] by (auto simp: pe_op_def simp del: fmc_do.simps)
  have "list_all pe_ok [pe_sample]" "\<forall>j < length [pe_sample]. fmc_queued fmc_sample j ([pe_sample] ! j)"
    by (simp_all add: pe_ok_def pe_sample_def fmc_queued_def fmc_sample_def)
  with fmc_stream_programs [OF _ _ _ _ t] show ?thesis by (auto simp: FMC_MAX_LIST_def)
qed

theorem fmc_read_list_witness:
  "\<exists>ws s'. fmc_pop_words fmc_sample_host fmc_sample (1 * 512) = Some (ws, s')
     \<and> concat (map word_le ws) = take FMC_BYTES_PER_PAGE fmc_ones"
proof -
  have "fh_drv fmc_sample_host = raw_ops" "fmc_buffer_ok rf_bytes fmc_sample" "fmc_list_read fmc_sample"
    "fm_cur_bank_reading fmc_sample = - 1" "fm_fmdnum fmc_sample = of_nat (1 * FMC_BYTES_PER_PAGE)"
    "\<forall>i < 1. unat (fm_banks_to_read fmc_sample i) < FMC_NUM_BANKS \<and> fm_pages_to_read fmc_sample i \<noteq> - 1"
    by (simp_all add: fmc_sample_host_def fmc_sample_def fmc_buffer_ok_def fmc_list_read_def fmc_sizes FMC_NUM_BANKS_def
        FMC_CMD_ID_def FMC_CMD_READSTATUS_def)
  from fmc_read_list [OF this(1) fmc_sample_ok(1) this(2-4) _ this(5,6)] show ?thesis
    by (simp add: fmc_sample_ok(3) FMC_MAX_LIST_def)
qed

theorem fmc_overrun_reads_outside_witness:
  "\<exists>s1 s2. s5l8900_fmc_read fmc_sample_host (fmc_sample\<lparr>fm_cur_bank_reading := 511, fm_fmdnum := 0\<rparr>) FMC_FMFIFO = Some (0, s1)
     \<and> s5l8900_fmc_write fmc_sample_host s1 FMC_FMDNUM 4 = Some s2 \<and> s5l8900_fmc_read fmc_sample_host s2 FMC_FMFIFO = None"
  by (rule fmc_overrun_reads_outside) (simp_all add: fmc_sample_def fmc_list_read_def FMC_CMD_ID_def FMC_CMD_READSTATUS_def)

end
