(* ===== verification/ADM.thy ===== *)
theory ADM
  imports FMC_Fifo
begin

text \<open>
  The NAND upload engine of \<open>hw/arm/s5l8900_adm.c\<close>: it takes a command block out of guest
  memory, queues a page list or a program on the controller of theory \<open>FMC\<close>, and reports the
  spares and a completion status. The downstream address space is a byte for every 64-bit
  address: every access reaches memory. Section addresses are 32-bit, and so are the sums
  formed from them. Tracing and logging are left out.
\<close>

definition ADM_CTRL :: u64 where "ADM_CTRL = 0x0"
definition ADM_CTRL2 :: u64 where "ADM_CTRL2 = 0x4"
definition ADM_CODE_SEC_ADDR :: u64 where "ADM_CODE_SEC_ADDR = 0x50"
definition ADM_DATA1_SEC_ADDR :: u64 where "ADM_DATA1_SEC_ADDR = 0x84"
definition ADM_DATA2_SEC_ADDR :: u64 where "ADM_DATA2_SEC_ADDR = 0x88"
definition ADM_DATA3_SEC_ADDR :: u64 where "ADM_DATA3_SEC_ADDR = 0x8C"
definition ADM_RESULT :: u64 where "ADM_RESULT = 0x30"
definition ADM_STATUS_CLEAN :: u32 where "ADM_STATUS_CLEAN = 0xFE"
definition ADM_TF_V17 :: u32 where "ADM_TF_V17 = 0x1104"
definition ADM_TF_V14 :: u32 where "ADM_TF_V14 = 0x824"
definition ADM_CMD_OFFSET :: u64 where "ADM_CMD_OFFSET = 0x24"
definition ADM_CMD_NPAGES :: u64 where "ADM_CMD_NPAGES = 0x28"
definition ADM_CMD_CE :: u64 where "ADM_CMD_CE = 0x34"
definition ADM_CMD_BANKS :: u64 where "ADM_CMD_BANKS = 0x44"
definition ADM_CMD_READ_SEQ :: u32 where "ADM_CMD_READ_SEQ = 0x200"
definition ADM_CMD_READ :: u32 where "ADM_CMD_READ = 0x300"
definition ADM_CMD_WRITE_SEQ :: u32 where "ADM_CMD_WRITE_SEQ = 0x400"
definition ADM_CMD_WRITE :: u32 where "ADM_CMD_WRITE = 0x500"
definition ADM_CMD_ERASE :: u32 where "ADM_CMD_ERASE = 0x600"
definition FMC_CMD_READ :: u32 where "FMC_CMD_READ = 0x30"

lemmas adm_regs = ADM_CTRL_def ADM_CTRL2_def ADM_CODE_SEC_ADDR_def ADM_DATA1_SEC_ADDR_def ADM_DATA2_SEC_ADDR_def
  ADM_DATA3_SEC_ADDR_def ADM_RESULT_def

lemmas adm_cmds = ADM_CMD_READ_SEQ_def ADM_CMD_READ_def ADM_CMD_WRITE_SEQ_def ADM_CMD_WRITE_def ADM_CMD_ERASE_def

record 'd adm =
  ad_irq :: bool
  ad_code_sec_addr :: u32
  ad_data1_sec_addr :: u32
  ad_data2_sec_addr :: u32
  ad_data3_sec_addr :: u32
  ad_result :: "u32 carray"
  ad_tf :: u32
  ad_mem :: memory
  ad_fmc :: "'d fmc option"

section \<open>Guest memory\<close>

definition adm_read_be32 :: "'d adm \<Rightarrow> u64 \<Rightarrow> u32" where
  "adm_read_be32 s addr = be32_at (mem_read (ad_mem s) addr 4) 0"

definition adm_read_be16 :: "'d adm \<Rightarrow> u64 \<Rightarrow> u16" where
  "adm_read_be16 s addr = (let b = mem_read (ad_mem s) addr 2 in le16 (b ! 1) (b ! 0))"

definition adm_read_u8 :: "'d adm \<Rightarrow> u64 \<Rightarrow> u8" where
  "adm_read_u8 s addr = ad_mem s addr"

section \<open>Commands\<close>

text \<open>The spares of the first \<open>n\<close> queued pages into the data3 section.\<close>

fun adm_report_spares :: "'d fmc_host \<Rightarrow> 'd fmc \<Rightarrow> u32 \<Rightarrow> nat list \<Rightarrow> memory \<Rightarrow> memory option" where
  "adm_report_spares h f data3 [] m = Some m"
| "adm_report_spares h f data3 (i # is) m =
     do { bank \<leftarrow> aget FMC_MAX_LIST (fm_banks_to_read f) i;
          page \<leftarrow> aget FMC_MAX_LIST (fm_pages_to_read f) i;
          (data, spare) \<leftarrow> s5l8900_fmc_load_page h f bank page (fh_stack h) (fh_stack h);
          adm_report_spares h f data3 is (mem_write m (ucast (data3 + of_nat i * 0xC)) (slice spare 0 0xC)) }"

text \<open>The first word offset at which the three section addresses follow.\<close>

fun adm_scan_tf :: "'d adm \<Rightarrow> u8 list \<Rightarrow> nat list \<Rightarrow> u32 option" where
  "adm_scan_tf s buf [] = None"
| "adm_scan_tf s buf (k # ks) =
     (if be32_at buf (4 * k + 4) = ad_data1_sec_addr s \<and> be32_at buf (4 * k + 8) = ad_data2_sec_addr s \<and>
         be32_at buf (4 * k + 12) = ad_data3_sec_addr s
      then Some (of_nat (4 * k)) else adm_scan_tf s buf ks)"

definition adm_find_tf :: "'d adm \<Rightarrow> u32 \<times> 'd adm" where
  "adm_find_tf s =
     (if ad_tf s \<noteq> 0 then (ad_tf s, s)
      else (case adm_scan_tf s (mem_read (ad_mem s) (ucast (ad_data2_sec_addr s)) 0x2000) [0 ..< 0x7fd] of
              Some off \<Rightarrow> (off, s\<lparr>ad_tf := off\<rparr>)
            | None \<Rightarrow> (ADM_TF_V17, s)))"

definition adm_pages_off :: "'d adm \<Rightarrow> u64" where
  "adm_pages_off s = ADM_CMD_BANKS + (if ad_tf s = ADM_TF_V14 then 0x400 else 0x200)"

text \<open>Storing an entry of the page list.\<close>

definition adm_put_entry :: "'d fmc \<Rightarrow> nat \<Rightarrow> u32 \<Rightarrow> u32 \<Rightarrow> 'd fmc option" where
  "adm_put_entry f i bank page =
     do { ps \<leftarrow> aset FMC_MAX_LIST (fm_pages_to_read f) i page;
          bs \<leftarrow> aset FMC_MAX_LIST (fm_banks_to_read f) i bank;
          Some (f\<lparr>fm_pages_to_read := ps, fm_banks_to_read := bs\<rparr>) }"

text \<open>The rows of a sequential read: the same page of every bank, row after row.\<close>

fun adm_row :: "'d fmc \<Rightarrow> u32 \<Rightarrow> nat \<Rightarrow> nat list \<Rightarrow> 'd fmc option" where
  "adm_row f page base [] = Some f"
| "adm_row f page base (i # is) = do { f1 \<leftarrow> adm_put_entry f (base + i) (of_nat i) page; adm_row f1 page base is }"

fun adm_rows :: "'d fmc \<Rightarrow> u32 \<Rightarrow> nat \<Rightarrow> nat list \<Rightarrow> 'd fmc option" where
  "adm_rows f page nb [] = Some f"
| "adm_rows f page nb (op # ops) = do { f1 \<leftarrow> adm_row f page (op * nb) [0 ..< nb]; adm_rows f1 (page + 1) nb ops }"

fun adm_entries :: "'d fmc \<Rightarrow> (nat \<Rightarrow> u32) \<Rightarrow> (nat \<Rightarrow> u32) \<Rightarrow> nat list \<Rightarrow> 'd fmc option" where
  "adm_entries f bank page [] = Some f"
| "adm_entries f bank page (i # is) = do { f1 \<leftarrow> adm_put_entry f i (bank i) (page i); adm_entries f1 bank page is }"

text \<open>A queued multi-page read starts before its first entry, and the spares are reported at once.\<close>

definition adm_start_list :: "'d fmc_host \<Rightarrow> 'd adm \<Rightarrow> 'd fmc \<Rightarrow> nat \<Rightarrow> 'd adm option" where
  "adm_start_list h s f n =
     do { let f1 = f\<lparr>fm_fmdnum := of_nat (n * FMC_BYTES_PER_PAGE), fm_cur_bank_reading := - 1\<rparr>;
          m \<leftarrow> adm_report_spares h f1 (ad_data3_sec_addr s) [0 ..< n] (ad_mem s);
          Some (s\<lparr>ad_mem := m, ad_fmc := Some f1\<rparr>) }"

definition adm_read_one :: "'d fmc_host \<Rightarrow> 'd adm \<Rightarrow> 'd fmc \<Rightarrow> u8 \<Rightarrow> u32 \<Rightarrow> 'd adm option" where
  "adm_read_one h s f bank page =
     do { let f1 = (s5l8900_fmc_set_bank (f\<lparr>fm_reading_multiple_pages := False\<rparr>) (ucast bank))
            \<lparr>fm_fmdnum := of_nat FMC_BYTES_PER_PAGE - 1, fm_reading_spare := False, fm_fmaddr0 := push_bit 16 page,
             fm_fmaddr1 := drop_bit 16 page AND 0xFF, fm_cmd := FMC_CMD_READ\<rparr>;
          f2 \<leftarrow> s5l8900_fmc_buffer_page h f1 page;
          Some (s\<lparr>ad_mem := mem_write (ad_mem s) (ucast (ad_data3_sec_addr s)) (slice (fm_page_spare_buffer f2) 0 FMC_BYTES_PER_SPARE),
                  ad_result := (if s5l8900_fmc_page_erased (fm_page_buffer f2) (fm_page_spare_buffer f2)
                                then (ad_result s)(2 := ADM_STATUS_CLEAN) else ad_result s),
                  ad_fmc := Some f2\<rparr>) }"

text \<open>The metadata of \<open>n\<close> pages, twelve bytes each, out of the data3 section.\<close>

definition adm_metas :: "'d adm \<Rightarrow> nat \<Rightarrow> u8 list carray \<Rightarrow> u8 list carray" where
  "adm_metas s n old =
     (\<lambda>i. if i < n then mem_read (ad_mem s) (ucast (ad_data3_sec_addr s) + of_nat (i * FMC_META_BYTES)) FMC_META_BYTES else old i)"

definition adm_dispatch :: "'d fmc_host \<Rightarrow> 'd adm \<Rightarrow> 'd fmc \<Rightarrow> u32 \<Rightarrow> nat \<Rightarrow> u64 \<Rightarrow> u64 \<Rightarrow> 'd adm option" where
  "adm_dispatch h s f cmd num_pages cmdblk pages =
     (let page = adm_read_be32 s (cmdblk + pages); nb = unat (fm_banks f) in
      if cmd = ADM_CMD_READ_SEQ then
        do { cassert (nb \<noteq> 0);
             f1 \<leftarrow> adm_rows (f\<lparr>fm_reading_multiple_pages := True\<rparr>) page nb [0 ..< num_pages div nb];
             adm_start_list h s f1 num_pages }
      else if cmd = ADM_CMD_READ then
        (if num_pages = 1 then adm_read_one h s f (adm_read_u8 s (cmdblk + ADM_CMD_BANKS)) page
         else if num_pages > 1 then
           do { f1 \<leftarrow> adm_entries (f\<lparr>fm_reading_multiple_pages := True\<rparr>)
                  (\<lambda>i. ucast (adm_read_u8 s (cmdblk + ADM_CMD_BANKS + of_nat i)))
                  (\<lambda>i. adm_read_be32 s (cmdblk + pages + 4 * of_nat i)) [0 ..< num_pages];
                adm_start_list h s f1 num_pages }
         else Some s)
      else if cmd = ADM_CMD_WRITE_SEQ then
        do { cassert (nb \<noteq> 0);
             let n = num_pages - num_pages mod nb;
             f1 \<leftarrow> adm_entries f (\<lambda>i. of_nat (i mod nb)) (\<lambda>i. page + of_nat (i div nb)) [0 ..< n];
             Some (s\<lparr>ad_fmc := Some (s5l8900_fmc_start_program
               (f1\<lparr>fm_prog_spares := adm_metas s n (fm_prog_spares f1)\<rparr>) (of_nat n))\<rparr>) }
      else if cmd = ADM_CMD_WRITE then
        do { f1 \<leftarrow> adm_put_entry f 0 (ucast (adm_read_u8 s (cmdblk + ADM_CMD_BANKS))) page;
             Some (s\<lparr>ad_fmc := Some (s5l8900_fmc_start_program
               (f1\<lparr>fm_prog_spares := adm_metas s 1 (fm_prog_spares f1)\<rparr>) 1)\<rparr>) }
      else if cmd = ADM_CMD_ERASE then
        (let bank = adm_read_u8 s (cmdblk + ADM_CMD_CE) in
         if unat bank < FMC_NUM_BANKS then
           do { (ok, f1) \<leftarrow> s5l8900_fmc_erase_block h f (ucast bank) (page div FMC_PAGES_PER_BLOCK);
                Some (s\<lparr>ad_fmc := Some f1\<rparr>) }
         else Some s)
      else Some s)"

definition adm_run_command :: "'d fmc_host \<Rightarrow> 'd adm \<Rightarrow> 'd adm option" where
  "adm_run_command h s0 =
     (let (tf, s) = adm_find_tf s0;
          cmdblk = ucast (ad_data2_sec_addr s + tf) :: u64;
          pages = adm_pages_off s;
          raw = mem_read (ad_mem s) (cmdblk + ADM_CMD_OFFSET) 4;
          cmd = le32 (raw ! 0) (raw ! 1) (raw ! 2) (raw ! 3);
          num_pages = unat (adm_read_be16 s (cmdblk + ADM_CMD_NPAGES)) in
      case ad_fmc s of
        None \<Rightarrow> Some s
      | Some f \<Rightarrow>
          adm_dispatch h (s\<lparr>ad_result := fill_range (ad_result s) 0 4 0\<rparr>) f cmd (min num_pages FMC_MAX_LIST) cmdblk pages)"

section \<open>Registers\<close>

definition s5l8900_adm_read :: "'d adm \<Rightarrow> u64 \<Rightarrow> u64 option" where
  "s5l8900_adm_read s offset =
     (if offset = ADM_CTRL then Some 0x2
      else if offset = ADM_CTRL2 then Some 0x10
      else if ADM_RESULT \<le> offset \<and> offset \<le> ADM_RESULT + 0xC
      then map_option ucast (aget 4 (ad_result s) (unat ((offset - ADM_RESULT) div 4)))
      else Some 0)"

text \<open>The eight chip identifiers of the start-up report, as the bytes of little-endian words.\<close>

definition adm_ids :: "'d fmc option \<Rightarrow> u8 list" where
  "adm_ids f = concat (map (\<lambda>i. word_le (case f of Some g \<Rightarrow> if int i < sint (fm_banks g) then FMC_CHIP_ID else 0 | None \<Rightarrow> 0)) [0 ..< 8])"

definition s5l8900_adm_write :: "'d fmc_host \<Rightarrow> 'd adm \<Rightarrow> u64 \<Rightarrow> u64 \<Rightarrow> 'd adm option" where
  "s5l8900_adm_write h s offset value =
     (if offset = ADM_CTRL then
        Some (if value = 0x3
              then s\<lparr>ad_mem := mem_write (mem_write (ad_mem s) (ucast (ad_data2_sec_addr s)) (word_le 0x50))
                       (ucast (ad_data3_sec_addr s)) (adm_ids (ad_fmc s))\<rparr>
              else s)
      else if offset = ADM_CTRL2 then
        do { s1 \<leftarrow> (if value = 0x2 then map_option (\<lambda>t. t\<lparr>ad_irq := True\<rparr>) (adm_run_command h s) else Some s);
             Some (if value AND 0x2 = 0 then s1\<lparr>ad_irq := False\<rparr> else s1) }
      else if offset = ADM_CODE_SEC_ADDR then Some (s\<lparr>ad_code_sec_addr := ucast value\<rparr>)
      else if offset = ADM_DATA1_SEC_ADDR then Some (s\<lparr>ad_data1_sec_addr := ucast value\<rparr>)
      else if offset = ADM_DATA2_SEC_ADDR then Some (s\<lparr>ad_data2_sec_addr := ucast value, ad_tf := 0\<rparr>)
      else if offset = ADM_DATA3_SEC_ADDR then Some (s\<lparr>ad_data3_sec_addr := ucast value\<rparr>)
      else Some s)"

definition s5l8900_adm_reset :: "'d adm \<Rightarrow> 'd adm" where
  "s5l8900_adm_reset s =
     s\<lparr>ad_code_sec_addr := 0, ad_data1_sec_addr := 0, ad_data2_sec_addr := 0, ad_data3_sec_addr := 0, ad_tf := 0, ad_irq := False\<rparr>"

text \<open>What reaches the engine: its registers, a reset, and the guest writing its memory.\<close>

fun adm_step :: "'d fmc_host \<Rightarrow> 'd adm \<Rightarrow> memory bus_event \<Rightarrow> ('d adm \<times> u64) option" where
  "adm_step h s (MRead a) = map_option (\<lambda>v. (s, v)) (s5l8900_adm_read s a)"
| "adm_step h s (MWrite a v) = map_option (\<lambda>s'. (s', 0)) (s5l8900_adm_write h s a v)"
| "adm_step h s DevReset = Some (s5l8900_adm_reset s, 0)"
| "adm_step h s (Ext m) = Some (s\<lparr>ad_mem := m\<rparr>, 0)"

section \<open>Every access completes\<close>

definition adm_inv :: "raw_file adm \<Rightarrow> bool" where
  "adm_inv s = (\<forall>f. ad_fmc s = Some f \<longrightarrow> fmc_store_ok rf_size f \<and> fm_banks f \<noteq> 0)"

lemma adm_put_entry_in:
  "i < FMC_MAX_LIST \<Longrightarrow> adm_put_entry f i bank page =
     Some (f\<lparr>fm_pages_to_read := (fm_pages_to_read f)(i := page), fm_banks_to_read := (fm_banks_to_read f)(i := bank)\<rparr>)"
  by (simp add: adm_put_entry_def)

lemma adm_entries_spec:
  assumes "\<forall>i \<in> set is. i < FMC_MAX_LIST"
  shows "adm_entries f bank page is = Some (f\<lparr>
     fm_pages_to_read := (\<lambda>i. if i \<in> set is then page i else fm_pages_to_read f i),
     fm_banks_to_read := (\<lambda>i. if i \<in> set is then bank i else fm_banks_to_read f i)\<rparr>)"
  using assms
proof (induction "is" arbitrary: f)
  case (Cons i "is")
  let ?f = "f\<lparr>fm_pages_to_read := (fm_pages_to_read f)(i := page i), fm_banks_to_read := (fm_banks_to_read f)(i := bank i)\<rparr>"
  have "(\<lambda>j. if j \<in> set is then page j else fm_pages_to_read ?f j) = (\<lambda>j. if j \<in> set (i # is) then page j else fm_pages_to_read f j)"
    "(\<lambda>j. if j \<in> set is then bank j else fm_banks_to_read ?f j) = (\<lambda>j. if j \<in> set (i # is) then bank j else fm_banks_to_read f j)"
    by auto
  with Cons.IH [of ?f] Cons.prems show ?case by (simp add: adm_put_entry_in)
qed simp

lemma adm_entries_append:
  "adm_entries f bank page (is @ js) = do { f1 \<leftarrow> adm_entries f bank page is; adm_entries f1 bank page js }"
  by (induction "is" arbitrary: f) (simp_all split: Option.bind_split)

lemma adm_row_entries:
  assumes "0 < nb" "set is \<subseteq> {..<nb}"
  shows "adm_row f (page + of_nat op) (op * nb) is =
     adm_entries f (\<lambda>i. of_nat (i mod nb)) (\<lambda>i. page + of_nat (i div nb)) (map (\<lambda>i. op * nb + i) is)"
  using assms by (induction "is" arbitrary: f) (simp_all split: Option.bind_split)

text \<open>The two nested loops of the sequential read fill the list as the single loop of the sequential program does.\<close>

lemma adm_rows_entries:
  fixes f :: "'a fmc"
  assumes "0 < nb"
  shows "adm_rows f (page + of_nat op) nb [op ..< op + k] =
     adm_entries f (\<lambda>i. of_nat (i mod nb)) (\<lambda>i. page + of_nat (i div nb)) [op * nb ..< (op + k) * nb]"
proof (induction k arbitrary: f op)
  case (Suc k)
  have "[op * nb ..< (op + Suc k) * nb] = map (\<lambda>i. op * nb + i) [0 ..< nb] @ [Suc op * nb ..< (Suc op + k) * nb]"
    using upt_add_eq_append [of "op * nb" "Suc op * nb" "k * nb"] map_add_upt [of "op * nb" nb]
    by (simp add: algebra_simps)
  note split = this
  have rows: "adm_rows g (page + of_nat op + 1) nb [Suc op ..< op + Suc k] =
      adm_entries g (\<lambda>i. of_nat (i mod nb)) (\<lambda>i. page + of_nat (i div nb)) [Suc op * nb ..< (Suc op + k) * nb]"
    for g :: "'a fmc"
    using Suc.IH [of g "Suc op"] by (simp add: ac_simps del: upt_Suc)
  have row: "adm_row f (page + of_nat op) (op * nb) [0 ..< nb] =
      adm_entries f (\<lambda>i. of_nat (i mod nb)) (\<lambda>i. page + of_nat (i div nb)) (map (\<lambda>i. op * nb + i) [0 ..< nb])"
    by (rule adm_row_entries [OF assms]) auto
  have "[op ..< op + Suc k] = op # [Suc op ..< op + Suc k]" by (simp add: upt_conv_Cons del: upt_Suc)
  then show ?case unfolding split adm_entries_append by (simp only: adm_rows.simps row rows)
qed simp

lemma adm_rows_spec:
  assumes "0 < nb" "k * nb \<le> FMC_MAX_LIST"
  shows "adm_rows f page nb [0 ..< k] = Some (f\<lparr>
     fm_pages_to_read := (\<lambda>i. if i < k * nb then page + of_nat (i div nb) else fm_pages_to_read f i),
     fm_banks_to_read := (\<lambda>i. if i < k * nb then of_nat (i mod nb) else fm_banks_to_read f i)\<rparr>)"
  using adm_rows_entries [OF assms(1), of f page 0 k] adm_entries_spec [of "[0 ..< k * nb]" f] assms(2) by simp

lemma fmc_remove_keeps_ok:
  "fmc_dir_ok (Some d) \<Longrightarrow> fmc_remove_pages h bank ps d = (r, d') \<Longrightarrow> fmc_dir_ok (Some d')"
proof (induction ps arbitrary: d)
  case (Cons p ps)
  have "fmc_dir_ok (Some (d\<lparr>pd_page := (pd_page d)(bank := (pd_page d bank)(p := None))\<rparr>))"
    using Cons.prems(1) by (simp add: fmc_dir_ok_def)
  with Cons show ?case by (auto split: if_splits)
qed simp

lemma fmc_erase_dir_keeps_ok:
  assumes "fmc_dir_ok (Some d)" "fmc_erase_dir h d bank block = (r, d')"
  shows "fmc_dir_ok (Some d')"
proof (cases "fh_mkdir h")
  case True
  obtain k d1 where d1: "fmc_remove_pages h bank (fmc_block_pages block) d = (k, d1)" by fastforce
  have "fmc_dir_ok (Some d1)" by (rule fmc_remove_keeps_ok [OF assms(1) d1])
  with d1 True assms(2) show ?thesis
    by (cases k) (auto simp: fmc_erase_dir_def fmc_dir_ok_def split: if_splits)
qed (use assms in \<open>simp add: fmc_erase_dir_def\<close>)

context reliable_driver
begin

lemma erase_total:
  assumes "fh_drv h = drv" "fmc_store_ok len f"
  shows "\<exists>r f'. s5l8900_fmc_erase_block h f bank block = Some (r, f') \<and> fmc_store_ok len f' \<and> fm_banks f' = fm_banks f"
proof (cases "fm_image f")
  case (Some n)
  with assms(2) have n: "nand_ok len n" "ni_blank n = fmc_ones" "ng_pages_per_block (ni_geo n) = FMC_PAGES_PER_BLOCK"
    by (simp_all add: fmc_store_defs fmc_image_ok_def)
  from nand_erase_law [OF n(1), of bank block] obtain e n' where
    "nand_image_erase drv n bank block = Some (e, n')" "nand_ok len n'" "ni_blank n' = ni_blank n" "ni_geo n' = ni_geo n"
    by auto
  with Some n assms(1) show ?thesis
    by (simp add: s5l8900_fmc_erase_block_def fmc_store_defs fmc_image_ok_def)
next
  case None
  show ?thesis
  proof (cases "fm_nand_overlay f")
    case (Some d)
    obtain k d' where "fmc_erase_dir h d bank block = (k, d')" by fastforce
    with Some None assms(2) fmc_erase_dir_keeps_ok [of d h bank block k d'] show ?thesis
      by (simp add: s5l8900_fmc_erase_block_def fmc_store_defs)
  qed (use None assms(2) in \<open>auto simp: s5l8900_fmc_erase_block_def fmc_store_defs\<close>)
qed

lemma report_total:
  assumes "fh_drv h = drv" "fmc_store_ok len f" "\<forall>i \<in> set is. i < FMC_MAX_LIST"
  shows "\<exists>m'. adm_report_spares h f data3 is m = Some m'"
  using assms(3)
proof (induction "is" arbitrary: m)
  case (Cons i "is")
  obtain d sp where "s5l8900_fmc_load_page h f (fm_banks_to_read f i) (fm_pages_to_read f i) (fh_stack h) (fh_stack h) = Some (d, sp)"
    using load_page_cell [OF assms(1,2)] by blast
  with Cons show ?case by auto
qed simp

lemma start_list_total:
  assumes "fh_drv h = drv" "fmc_store_ok len f" "n \<le> FMC_MAX_LIST"
  shows "\<exists>m. adm_start_list h s f n = Some (s\<lparr>ad_mem := m, ad_fmc :=
     Some (f\<lparr>fm_fmdnum := of_nat (n * FMC_BYTES_PER_PAGE), fm_cur_bank_reading := - 1\<rparr>)\<rparr>)"
proof -
  let ?f = "f\<lparr>fm_fmdnum := of_nat (n * FMC_BYTES_PER_PAGE), fm_cur_bank_reading := - 1\<rparr>"
  have "fmc_store_ok len ?f" using assms(2) by (simp add: fmc_store_ok_def)
  from report_total [OF assms(1) this, of "[0 ..< n]" "ad_data3_sec_addr s" "ad_mem s"] assms(3) show ?thesis
    by (auto simp: adm_start_list_def Let_def)
qed

lemma buffer_page_total:
  assumes "fh_drv h = drv" "fmc_store_ok len f"
  shows "\<exists>f'. s5l8900_fmc_buffer_page h f page = Some f' \<and> fmc_store_ok len f' \<and> fm_banks f' = fm_banks f"
proof (cases "fmc_active_bank f")
  case (Some b)
  obtain d sp where "s5l8900_fmc_load_page h f (of_nat b) page (fm_page_buffer f) (fm_page_spare_buffer f) = Some (d, sp)"
    using load_page_cell [OF assms] by blast
  with Some assms(2) show ?thesis by (auto simp: s5l8900_fmc_buffer_page_def fmc_store_ok_def)
qed (use assms(2) in \<open>simp add: s5l8900_fmc_buffer_page_def\<close>)

lemma dispatch_total:
  assumes "fh_drv h = drv" "fmc_store_ok len f" "fm_banks f \<noteq> 0" "ad_fmc s = Some f" "n \<le> FMC_MAX_LIST"
  shows "\<exists>s' f'. adm_dispatch h s f cmd n blk pages = Some s' \<and> ad_fmc s' = Some f' \<and> fmc_store_ok len f' \<and> fm_banks f' = fm_banks f"
proof -
  let ?nb = "unat (fm_banks f)" and ?page = "adm_read_be32 s (blk + pages)"
  have nb: "0 < ?nb" using assms(3) by (simp add: unat_gt_0)
  have rows: "n div ?nb * ?nb \<le> FMC_MAX_LIST" using assms(5) div_times_less_eq_dividend [of n ?nb] by linarith
  consider "cmd = ADM_CMD_READ_SEQ" | "cmd = ADM_CMD_READ" "n = 1" | "cmd = ADM_CMD_READ" "1 < n" | "cmd = ADM_CMD_WRITE_SEQ"
    | "cmd = ADM_CMD_WRITE" | "cmd = ADM_CMD_ERASE" | "cmd \<notin> {ADM_CMD_READ_SEQ, ADM_CMD_READ, ADM_CMD_WRITE_SEQ, ADM_CMD_WRITE, ADM_CMD_ERASE}
      \<or> cmd = ADM_CMD_READ \<and> n = 0"
    by fastforce
  then show ?thesis
  proof cases
    case 1
    obtain f1 where f1: "adm_rows (f\<lparr>fm_reading_multiple_pages := True\<rparr>) ?page ?nb [0 ..< n div ?nb] = Some f1"
      "fmc_store_ok len f1" "fm_banks f1 = fm_banks f"
      using adm_rows_spec [OF nb rows, of "f\<lparr>fm_reading_multiple_pages := True\<rparr>" ?page] assms(2) by (simp add: fmc_store_ok_def)
    from start_list_total [OF assms(1) f1(2) assms(5), of s] obtain m where
      "adm_start_list h s f1 n = Some (s\<lparr>ad_mem := m, ad_fmc :=
         Some (f1\<lparr>fm_fmdnum := of_nat (n * FMC_BYTES_PER_PAGE), fm_cur_bank_reading := - 1\<rparr>)\<rparr>)" by blast
    with 1 f1 nb show ?thesis by (simp add: adm_dispatch_def adm_cmds fmc_store_ok_def)
  next
    case 2
    define f1 where "f1 = (s5l8900_fmc_set_bank (f\<lparr>fm_reading_multiple_pages := False\<rparr>) (ucast (adm_read_u8 s (blk + ADM_CMD_BANKS))))
      \<lparr>fm_fmdnum := of_nat FMC_BYTES_PER_PAGE - 1, fm_reading_spare := False, fm_fmaddr0 := push_bit 16 ?page,
       fm_fmaddr1 := drop_bit 16 ?page AND 0xFF, fm_cmd := FMC_CMD_READ\<rparr>"
    have f1: "fmc_store_ok len f1" "fm_banks f1 = fm_banks f"
      using assms(2) by (simp_all add: f1_def fmc_store_ok_def s5l8900_fmc_set_bank_def Let_def)
    from buffer_page_total [OF assms(1) f1(1), of ?page] f1(2) obtain f2 where
      "s5l8900_fmc_buffer_page h f1 ?page = Some f2" "fmc_store_ok len f2" "fm_banks f2 = fm_banks f" by auto
    with 2 show ?thesis by (simp add: adm_dispatch_def adm_read_one_def adm_cmds flip: f1_def)
  next
    case 3
    let ?e = "adm_entries (f\<lparr>fm_reading_multiple_pages := True\<rparr>) (\<lambda>i. ucast (adm_read_u8 s (blk + ADM_CMD_BANKS + of_nat i)))
      (\<lambda>i. adm_read_be32 s (blk + pages + 4 * of_nat i)) [0 ..< n]"
    obtain f1 where f1: "?e = Some f1" "fmc_store_ok len f1" "fm_banks f1 = fm_banks f"
      using adm_entries_spec [of "[0 ..< n]" "f\<lparr>fm_reading_multiple_pages := True\<rparr>"] assms(2,5) by (simp add: fmc_store_ok_def)
    from start_list_total [OF assms(1) f1(2) assms(5), of s] obtain m where
      "adm_start_list h s f1 n = Some (s\<lparr>ad_mem := m, ad_fmc :=
         Some (f1\<lparr>fm_fmdnum := of_nat (n * FMC_BYTES_PER_PAGE), fm_cur_bank_reading := - 1\<rparr>)\<rparr>)" by blast
    with 3 f1 show ?thesis by (simp add: adm_dispatch_def adm_cmds fmc_store_ok_def)
  next
    case 4
    have "\<forall>i \<in> set [0 ..< n - n mod ?nb]. i < FMC_MAX_LIST" using assms(5) by auto
    from adm_entries_spec [OF this, of f] 4 assms(2) nb show ?thesis
      by (simp add: adm_dispatch_def adm_cmds Let_def s5l8900_fmc_start_program_def fmc_store_ok_def)
  next
    case 5
    then show ?thesis
      using assms(2) by (simp add: adm_dispatch_def adm_cmds adm_put_entry_in FMC_MAX_LIST_def s5l8900_fmc_start_program_def fmc_store_ok_def)
  next
    case 6
    with erase_total [OF assms(1,2), of "ucast (adm_read_u8 s (blk + ADM_CMD_CE))" "?page div FMC_PAGES_PER_BLOCK"] assms(2,4)
    show ?thesis by (auto simp: adm_dispatch_def adm_cmds Let_def)
  next
    case 7
    with assms(2,4) show ?thesis by (auto simp: adm_dispatch_def adm_cmds)
  qed
qed

end

lemma adm_find_tf_frame: "adm_find_tf s = (tf, t) \<Longrightarrow> t = s\<lparr>ad_tf := ad_tf t\<rparr>"
  by (auto simp: adm_find_tf_def split: if_splits option.splits)

text \<open>The command word and the page count of the block at an address.\<close>

definition adm_cmd_word :: "'d adm \<Rightarrow> u64 \<Rightarrow> u32" where
  "adm_cmd_word s blk =
     (let raw = mem_read (ad_mem s) (blk + ADM_CMD_OFFSET) 4 in le32 (raw ! 0) (raw ! 1) (raw ! 2) (raw ! 3))"

lemma adm_run_dispatch:
  "adm_find_tf s = (tf, t) \<Longrightarrow> ad_fmc t = Some f \<Longrightarrow> blk = ucast (ad_data2_sec_addr t + tf) \<Longrightarrow>
     adm_run_command h s = adm_dispatch h (t\<lparr>ad_result := fill_range (ad_result t) 0 4 0\<rparr>) f (adm_cmd_word t blk)
       (min (unat (adm_read_be16 t (blk + ADM_CMD_NPAGES))) FMC_MAX_LIST) blk (adm_pages_off t)"
  by (simp add: adm_run_command_def adm_cmd_word_def Let_def)

lemma adm_run_total:
  assumes "fh_drv h = raw_ops" "adm_inv s"
  shows "\<exists>s'. adm_run_command h s = Some s' \<and> adm_inv s'"
proof -
  obtain tf t where t: "adm_find_tf s = (tf, t)" by fastforce
  have "ad_fmc t = ad_fmc s" using arg_cong [OF adm_find_tf_frame [OF t], of ad_fmc] by simp
  show ?thesis
  proof (cases "ad_fmc s")
    case None
    with t \<open>ad_fmc t = _\<close> show ?thesis by (simp add: adm_run_command_def Let_def adm_inv_def)
  next
    case (Some f)
    let ?t = "t\<lparr>ad_result := fill_range (ad_result t) 0 4 0\<rparr>"
    have f: "fmc_store_ok rf_size f" "fm_banks f \<noteq> 0" "ad_fmc ?t = Some f"
      using assms(2) Some \<open>ad_fmc t = _\<close> by (simp_all add: adm_inv_def)
    have "ad_fmc t = Some f" using f(3) by simp
    note run = adm_run_dispatch [OF t this refl, of h]
    from raw.dispatch_total [OF assms(1) f min.cobounded2] f(2) show ?thesis
      unfolding run by (fastforce simp: adm_inv_def)
  qed
qed

lemma adm_step_total:
  assumes "fh_drv h = raw_ops" "adm_inv s"
  shows "\<exists>s' r. adm_step h s e = Some (s', r) \<and> adm_inv s'"
proof (cases e)
  case (MRead a)
  have "unat ((a - ADM_RESULT) div 4) < 4" if "ADM_RESULT \<le> a" "a \<le> ADM_RESULT + 0xC"
    using that by (simp add: unat_div_word unat_sub_le ADM_RESULT_def word_le_nat_alt)
  with MRead assms(2) show ?thesis by (auto simp: s5l8900_adm_read_def)
next
  case (MWrite a v)
  have "\<exists>s'. s5l8900_adm_write h s a v = Some s' \<and> adm_inv s'"
    using adm_run_total [OF assms] assms(2) by (auto simp: s5l8900_adm_write_def adm_inv_def)
  with MWrite show ?thesis by auto
qed (use assms(2) in \<open>auto simp: adm_inv_def s5l8900_adm_reset_def\<close>)

interpretation adm: guest_device "adm_step (h\<lparr>fh_drv := raw_ops\<rparr>)" adm_inv "\<lambda>_. True" for h
  by unfold_locales (rule adm_step_total, simp)

text \<open>
  C12. The upload engine never brings the host down: with a controller that has at least one
  bank and a well-formed store, any sequence of register accesses, resets and changes of guest
  memory, whatever command blocks it holds, completes and leaves the store well formed.
\<close>

theorem adm_guest_safe:
  assumes "fh_drv h = raw_ops" "ad_fmc s = Some f" "fmc_store_ok rf_size f" "fm_banks f \<noteq> 0"
  shows "\<exists>s' rs. dev_run (adm_step h) s es = Some (s', rs) \<and> length rs = length es \<and> adm_inv s'"
proof -
  have "h\<lparr>fh_drv := raw_ops\<rparr> = h" using assms(1) by simp
  moreover have "adm_inv s" using assms(2-4) by (simp add: adm_inv_def)
  ultimately show ?thesis using adm.run_total [of s es h] by (auto simp: list_all_iff)
qed

section \<open>A sequential read\<close>

lemma adm_find_known: "ad_tf s \<noteq> 0 \<Longrightarrow> adm_find_tf s = (ad_tf s, s)"
  by (simp add: adm_find_tf_def)

text \<open>
  C21. A sequential read returns the same page of every bank, row after row: after the command
  the words popped from the controller's FIFO are the data of page \<open>p\<close> of each bank in order,
  then of page \<open>p + 1\<close> of each bank, and so on.
\<close>

theorem adm_read_seq_rows:
  assumes "fh_drv h = raw_ops" "ad_tf s \<noteq> 0" "ad_fmc s = Some f" "fmc_store_ok rf_size f" "fmc_buffer_ok rf_bytes f"
    and "fm_cmd f \<noteq> FMC_CMD_ID" "fm_cmd f \<noteq> FMC_CMD_READSTATUS"
    and "blk = ucast (ad_data2_sec_addr s + ad_tf s)" "adm_cmd_word s blk = ADM_CMD_READ_SEQ"
    and "nb = unat (fm_banks f)" "0 < nb" "nb \<le> FMC_NUM_BANKS" "unat (adm_read_be16 s (blk + ADM_CMD_NPAGES)) = k * nb"
    and "k * nb \<le> FMC_MAX_LIST" "page = adm_read_be32 s (blk + adm_pages_off s)" "unat page + k < 2 ^ 32"
  shows "\<exists>s' f' ws f''. adm_run_command h s = Some s' \<and> ad_fmc s' = Some f' \<and> fmc_pop_words h f' (k * nb * 512) = Some (ws, f'')
     \<and> concat (map word_le ws) = concat (map (\<lambda>i. take FMC_BYTES_PER_PAGE
         (fmc_cell rf_bytes f (of_nat (i mod nb)) (page + of_nat (i div nb)))) [0 ..< k * nb])"
proof -
  let ?s = "s\<lparr>ad_result := fill_range (ad_result s) 0 4 0\<rparr>" and ?n = "k * nb"
  define f1 where "f1 = (f\<lparr>fm_reading_multiple_pages := True\<rparr>)\<lparr>
    fm_pages_to_read := (\<lambda>i. if i < ?n then page + of_nat (i div nb) else fm_pages_to_read f i),
    fm_banks_to_read := (\<lambda>i. if i < ?n then of_nat (i mod nb) else fm_banks_to_read f i)\<rparr>"
  define f2 where "f2 = f1\<lparr>fm_fmdnum := of_nat (?n * FMC_BYTES_PER_PAGE), fm_cur_bank_reading := - 1\<rparr>"
  have f1: "fmc_store_ok rf_size f1" using assms(4) by (simp add: f1_def fmc_store_ok_def)
  from raw.start_list_total [OF assms(1) f1 assms(14), of ?s] obtain m where
    m: "adm_start_list h ?s f1 ?n = Some (?s\<lparr>ad_mem := m, ad_fmc := Some f2\<rparr>)" unfolding f2_def by blast
  have page: "adm_read_be32 ?s (blk + adm_pages_off s) = page" using assms(15) by (simp add: adm_read_be32_def)
  have rows: "adm_rows (f\<lparr>fm_reading_multiple_pages := True\<rparr>) page nb [0 ..< k] = Some f1"
    using adm_rows_spec [OF assms(11,14), of "f\<lparr>fm_reading_multiple_pages := True\<rparr>" page]
    by (simp add: f1_def cong: if_cong)
  have "adm_run_command h s = adm_dispatch h ?s f ADM_CMD_READ_SEQ ?n blk (adm_pages_off s)"
    using adm_run_dispatch [OF adm_find_known [OF assms(2)] assms(3,8), of h] assms(9,13,14) by simp
  also have "\<dots> = Some (?s\<lparr>ad_mem := m, ad_fmc := Some f2\<rparr>)"
    using assms(11) rows m page by (simp add: adm_dispatch_def flip: assms(10))
  finally have run: "adm_run_command h s = Some (?s\<lparr>ad_mem := m, ad_fmc := Some f2\<rparr>)" .
  have f2: "fmc_store_ok rf_size f2" "fmc_buffer_ok rf_bytes f2" "fmc_list_read f2" "fm_cur_bank_reading f2 + 1 = of_nat 0"
    "fmc_cell rf_bytes f2 = fmc_cell rf_bytes f" "unat (fm_fmdnum f2) = ?n * FMC_BYTES_PER_PAGE"
    "\<And>i. i < ?n \<Longrightarrow> fm_banks_to_read f2 i = of_nat (i mod nb) \<and> fm_pages_to_read f2 i = page + of_nat (i div nb)"
    using assms(4-7,14)
    by (simp_all add: f2_def f1_def fmc_store_ok_def fmc_buffer_ok_def fmc_list_read_def fmc_cell_def unat_of_nat fmc_sizes
        del: of_nat_mult)
  have "unat (fm_banks_to_read f2 (0 + i)) < FMC_NUM_BANKS \<and> fm_pages_to_read f2 (0 + i) \<noteq> - 1" if i: "i < ?n" for i
  proof -
    have "i div nb < k" using i assms(11) by (simp add: div_less_iff_less_mult)
    then have "unat page + unat (of_nat (i div nb) :: u32) < 2 ^ 32 - 1"
      using assms(16) by (simp add: unat_of_nat)
    then have "unat (page + of_nat (i div nb)) < 2 ^ 32 - 1" by (simp add: unat_add_small)
    then have "page + of_nat (i div nb) \<noteq> - 1"
      by (auto simp: unsigned_minus_1_eq_mask mask_eq_exp_minus_1)
    moreover have "i mod nb < FMC_NUM_BANKS" using assms(11,12) mod_less_divisor [of nb i] by linarith
    ultimately show ?thesis using f2(7) [OF i] by (simp add: unat_of_nat FMC_NUM_BANKS_def)
  qed
  with raw.read_entries [OF assms(1) f2(1-4) _ f2(6)] assms(14) obtain ws f3 where
    "fmc_pop_words h f2 (?n * 512) = Some (ws, f3)" "concat (map word_le ws) = concat (map (\<lambda>i. take FMC_BYTES_PER_PAGE
      (fmc_cell rf_bytes f2 (fm_banks_to_read f2 i) (fm_pages_to_read f2 i))) [0 ..< ?n])"
    by auto
  moreover have "map (\<lambda>i. take FMC_BYTES_PER_PAGE (fmc_cell rf_bytes f2 (fm_banks_to_read f2 i) (fm_pages_to_read f2 i))) [0 ..< ?n]
      = map (\<lambda>i. take FMC_BYTES_PER_PAGE (fmc_cell rf_bytes f (of_nat (i mod nb)) (page + of_nat (i div nb)))) [0 ..< ?n]"
    using f2(5,7) by simp
  ultimately show ?thesis using run by (simp del: map_eq_conv)
qed

section \<open>A page programmed and read back\<close>

lemma adm_page_registers:
  fixes p :: u32
  assumes "p < 2 ^ 24"
  shows "push_bit 16 (drop_bit 16 p AND 0xFF) OR drop_bit 16 (push_bit 16 p) = p"
proof (rule bit_eqI)
  fix n assume "possible_bit TYPE(u32) n"
  have ff: "(0xFF :: u32) = mask 8" by (simp add: mask_eq_exp_minus_1)
  have "p = take_bit 24 p"
    using assms by (simp add: word_unat_eq_iff unsigned_take_bit_eq take_bit_nat_eq_self word_less_nat_alt)
  then have "bit p n \<Longrightarrow> n < 24" by (metis bit_take_bit_iff)
  then show "bit (push_bit 16 (drop_bit 16 p AND 0xFF) OR drop_bit 16 (push_bit 16 p)) n = bit p n"
    unfolding ff unfolding wbits bit_mask_iff using \<open>possible_bit _ n\<close> by auto
qed

text \<open>A page being read on its own: the words come out of the buffered page.\<close>

definition fmc_single_read :: "'d fmc \<Rightarrow> u32 \<Rightarrow> u32 \<Rightarrow> bool" where
  "fmc_single_read f b p = (\<not> fm_reading_multiple_pages f \<and> \<not> fm_reading_spare f \<and> fm_cmd f = FMC_CMD_READ
     \<and> push_bit 16 (fm_fmaddr1 f) OR drop_bit 16 (fm_fmaddr0 f) = p \<and> fmc_active_bank f = Some (unat b)
     \<and> fm_buffered_bank f = b \<and> fm_buffered_page f = p)"

lemma fmc_single_pop:
  assumes "fmc_single_read f b p" "unat (fm_fmdnum f) = FMC_BYTES_PER_PAGE - 1 - 4 * k" "k < 512"
  shows "fmc_fifo_pop h f = Some (buf_word (fm_page_buffer f) k, f\<lparr>fm_fmdnum := fm_fmdnum f - 4\<rparr>)"
proof -
  have dn: "fm_fmdnum f = of_nat (2047 - 4 * k)"
    using assms(2) by (simp add: fmc_sizes word_unat_eq_iff unat_of_nat)
  have "(2048 :: u32) - fm_fmdnum f - 1 = of_nat (4 * k)"
    using assms(3) by (simp add: dn of_nat_diff)
  then have "unat (((2048 :: u32) - fm_fmdnum f - 1) div 4) = k"
    using assms(3) by (simp only: unat_div_word unat_of_nat) simp
  then show ?thesis
    using assms(1,3)
    by (simp add: fmc_single_read_def fmc_fifo_pop_def fmc_pop_single_def s5l8900_fmc_buffer_page_def FMC_CMD_READ_def
        FMC_CMD_ID_def FMC_CMD_READSTATUS_def fmc_sizes get32_def buf_word_def Let_def)
qed

lemma fmc_single_pops:
  assumes "fmc_single_read f b p" "unat (fm_fmdnum f) = FMC_BYTES_PER_PAGE - 1 - 4 * k" "k + n \<le> 512"
  shows "\<exists>f'. fmc_pop_words h f n = Some (map (buf_word (fm_page_buffer f)) [k ..< k + n], f')"
  using assms
proof (induction n arbitrary: f k)
  case (Suc n)
  let ?f = "f\<lparr>fm_fmdnum := fm_fmdnum f - 4\<rparr>"
  have pop: "fmc_fifo_pop h f = Some (buf_word (fm_page_buffer f) k, ?f)"
    using Suc.prems by (intro fmc_single_pop) auto
  show ?case
  proof (cases "n = 0")
    case False
    have "4 \<le> fm_fmdnum f" using Suc.prems(2,3) False by (simp add: word_le_nat_alt fmc_sizes)
    then have "unat (fm_fmdnum ?f) = FMC_BYTES_PER_PAGE - 1 - 4 * (k + 1)"
      using Suc.prems(2,3) by (simp add: unat_sub_le)
    moreover have "fmc_single_read ?f b p"
      using Suc.prems(1) by (simp add: fmc_single_read_def fmc_active_bank_def)
    ultimately show ?thesis
      using Suc.IH [of ?f "k + 1"] Suc.prems(3) pop by (auto simp: upt_conv_Cons simp del: upt_Suc)
  qed (simp add: pop)
qed simp

text \<open>The command block the engine finds in guest memory.\<close>

definition adm_block :: "'d adm \<Rightarrow> u32 \<Rightarrow> nat \<Rightarrow> u8 \<Rightarrow> u32 \<Rightarrow> bool" where
  "adm_block s cmd n bank page =
     (ad_tf s \<noteq> 0 \<and> (let blk = ucast (ad_data2_sec_addr s + ad_tf s) in
        adm_cmd_word s blk = cmd \<and> unat (adm_read_be16 s (blk + ADM_CMD_NPAGES)) = n
        \<and> adm_read_u8 s (blk + ADM_CMD_BANKS) = bank \<and> adm_read_be32 s (blk + adm_pages_off s) = page))"

lemma adm_run_write:
  assumes "adm_block s ADM_CMD_WRITE n bank page" "ad_fmc s = Some f"
  shows "\<exists>g res. adm_run_command h s = Some (s\<lparr>ad_result := res, ad_fmc := Some (s5l8900_fmc_start_program g 1)\<rparr>)
     \<and> fmc_same_store g f \<and> fm_banks_to_read g 0 = ucast bank \<and> fm_pages_to_read g 0 = page
     \<and> fm_prog_spares g 0 = mem_read (ad_mem s) (ucast (ad_data3_sec_addr s)) FMC_META_BYTES"
proof -
  let ?s = "s\<lparr>ad_result := fill_range (ad_result s) 0 4 0\<rparr>" and ?blk = "ucast (ad_data2_sec_addr s + ad_tf s) :: u64"
  have b: "adm_cmd_word s ?blk = ADM_CMD_WRITE" "adm_read_u8 ?s (?blk + ADM_CMD_BANKS) = bank"
    "adm_read_be32 ?s (?blk + adm_pages_off s) = page"
    using assms(1) by (simp_all add: adm_block_def Let_def adm_read_u8_def adm_read_be32_def)
  have "adm_find_tf s = (ad_tf s, s)" using assms(1) by (simp add: adm_block_def adm_find_known)
  note run = adm_run_dispatch [OF this assms(2) refl, of h]
  let ?g = "f\<lparr>fm_pages_to_read := (fm_pages_to_read f)(0 := page), fm_banks_to_read := (fm_banks_to_read f)(0 := ucast bank),
    fm_prog_spares := adm_metas ?s 1 (fm_prog_spares f)\<rparr>"
  have "adm_run_command h s = Some (?s\<lparr>ad_fmc := Some (s5l8900_fmc_start_program ?g 1)\<rparr>)"
    using run b by (simp add: adm_dispatch_def adm_cmds adm_put_entry_in FMC_MAX_LIST_def)
  moreover have "fmc_same_store ?g f" "fm_banks_to_read ?g 0 = ucast bank" "fm_pages_to_read ?g 0 = page"
    "fm_prog_spares ?g 0 = mem_read (ad_mem s) (ucast (ad_data3_sec_addr s)) FMC_META_BYTES"
    by (simp_all add: fmc_same_store_def adm_metas_def)
  ultimately show ?thesis by blast
qed

lemma adm_run_read_one:
  assumes "adm_block s ADM_CMD_READ 1 bank page" "ad_fmc s = Some f" "fh_drv h = raw_ops" "fmc_store_ok rf_size f"
    and "fm_buffered_page f = - 1" "unat bank < FMC_NUM_BANKS" "page < 2 ^ 24"
  shows "\<exists>s' g. adm_run_command h s = Some s' \<and> ad_fmc s' = Some g \<and> fmc_single_read g (ucast bank) page
     \<and> unat (fm_fmdnum g) = FMC_BYTES_PER_PAGE - 1
     \<and> slice (fm_page_buffer g) 0 FMC_BYTES_PER_PAGE = take FMC_BYTES_PER_PAGE (fmc_cell rf_bytes f (ucast bank) page)"
proof -
  let ?s = "s\<lparr>ad_result := fill_range (ad_result s) 0 4 0\<rparr>" and ?blk = "ucast (ad_data2_sec_addr s + ad_tf s) :: u64"
  define b :: u32 where "b = ucast bank"
  have bb: "unat b < FMC_NUM_BANKS" using assms(6) by (simp add: b_def unsigned_ucast_eq take_bit_nat_eq_self FMC_NUM_BANKS_def)
  have blk: "adm_cmd_word s ?blk = ADM_CMD_READ" "unat (adm_read_be16 s (?blk + ADM_CMD_NPAGES)) = 1"
    "adm_read_u8 ?s (?blk + ADM_CMD_BANKS) = bank" "adm_read_be32 ?s (?blk + adm_pages_off s) = page"
    using assms(1) by (simp_all add: adm_block_def Let_def adm_read_u8_def adm_read_be32_def)
  define f1 where "f1 = (s5l8900_fmc_set_bank (f\<lparr>fm_reading_multiple_pages := False\<rparr>) b)
    \<lparr>fm_fmdnum := of_nat FMC_BYTES_PER_PAGE - 1, fm_reading_spare := False, fm_fmaddr0 := push_bit 16 page,
     fm_fmaddr1 := drop_bit 16 page AND 0xFF, fm_cmd := FMC_CMD_READ\<rparr>"
  have act: "fmc_active_bank f1 = Some (unat b)"
    using fmc_active_set_bank [OF bb, of "f\<lparr>fm_reading_multiple_pages := False\<rparr>"] by (simp add: f1_def fmc_active_bank_def)
  have f1: "fmc_store_ok rf_size f1" "fmc_buffer_ok rf_bytes f1" "fmc_cell rf_bytes f1 = fmc_cell rf_bytes f"
    using assms(4,5) by (simp_all add: f1_def fmc_store_ok_def fmc_buffer_ok_def fmc_cell_def)
  have "page \<noteq> - 1" using assms(7) by (auto simp: word_less_nat_alt unsigned_minus_1_eq_mask mask_eq_exp_minus_1)
  from raw.buffer_page_load [OF assms(3) f1(1,2) act this] f1(3) obtain d sp where
    buf: "s5l8900_fmc_buffer_page h f1 page = Some (f1\<lparr>fm_page_buffer := d, fm_page_spare_buffer := sp,
        fm_buffered_page := page, fm_buffered_bank := b\<rparr>)"
      "slice d 0 FMC_BYTES_PER_PAGE @ slice sp 0 FMC_BYTES_PER_SPARE = fmc_cell rf_bytes f b page" by auto
  let ?g = "f1\<lparr>fm_page_buffer := d, fm_page_spare_buffer := sp, fm_buffered_page := page, fm_buffered_bank := b\<rparr>"
  have "fmc_active_bank ?g = fmc_active_bank f1" by (simp add: fmc_active_bank_def)
  then have single: "fmc_single_read ?g b page"
    using act adm_page_registers [OF assms(7)] by (simp add: fmc_single_read_def) (simp add: f1_def)
  have dn: "unat (fm_fmdnum ?g) = FMC_BYTES_PER_PAGE - 1" by (simp add: f1_def fmc_sizes)
  have data: "slice (fm_page_buffer ?g) 0 FMC_BYTES_PER_PAGE = take FMC_BYTES_PER_PAGE (fmc_cell rf_bytes f b page)"
    unfolding buf(2) [symmetric] by simp
  have "adm_find_tf s = (ad_tf s, s)" using assms(1) by (simp add: adm_block_def adm_find_known)
  from adm_run_dispatch [OF this assms(2) refl, of h] blk buf(1) obtain s' where
    "adm_run_command h s = Some s'" "ad_fmc s' = Some ?g"
    by (simp add: adm_dispatch_def adm_cmds adm_read_one_def FMC_MAX_LIST_def b_def flip: f1_def [unfolded b_def])
  with single dn data show ?thesis unfolding b_def by blast
qed

lemma take_map2: "take n (map2 f xs ys) = map2 f (take n xs) (take n ys)"
  by (simp add: take_map take_zip)

text \<open>
  C2. Program, then read back: a page programmed through the engine and the FIFO, when the
  program of the store succeeds, and then read through the engine and the FIFO, gives the
  old contents of the page ANDed with the words that were sent.
\<close>

theorem adm_program_read_back:
  assumes "fh_drv h = raw_ops" "ad_fmc s = Some f" "fmc_store_ok rf_size f" "fmc_writable f"
    and "adm_block s ADM_CMD_WRITE n bank page" "unat bank < FMC_NUM_BANKS" "page < 2 ^ 24"
    and "length ws = 512" "length pad = 4"
    and "fmc_program_page h f (ucast bank) page (copy_in (\<lambda>_. 0) 0 (concat (map word_le ws)))
      (copy_in (\<lambda>_. 0xFF) 0 (mem_read (ad_mem s) (ucast (ad_data3_sec_addr s)) FMC_META_BYTES)) = Some (True, t)"
    and "adm_block (s\<lparr>ad_mem := m\<rparr>) ADM_CMD_READ 1 bank page"
  shows "\<exists>s1 f1 f2 s3 f3 vs f4. adm_run_command h s = Some s1 \<and> ad_fmc s1 = Some f1 \<and> fmc_push_words h f1 (ws @ pad) = Some f2
     \<and> adm_run_command h (s1\<lparr>ad_mem := m, ad_fmc := Some f2\<rparr>) = Some s3 \<and> ad_fmc s3 = Some f3
     \<and> fmc_pop_words h f3 512 = Some (vs, f4)
     \<and> concat (map word_le vs) = map2 (AND) (take FMC_BYTES_PER_PAGE (fmc_cell rf_bytes f (ucast bank) page)) (concat (map word_le ws))"
proof -
  define e where "e = \<lparr>pe_bank = ucast bank, pe_page = page,
    pe_meta = mem_read (ad_mem s) (ucast (ad_data3_sec_addr s)) FMC_META_BYTES, pe_words = ws, pe_pad = pad\<rparr>"
  let ?bytes = "concat (map word_le ws)"
  have len: "length (mem_read (ad_mem s) (ucast (ad_data3_sec_addr s)) FMC_META_BYTES) = FMC_META_BYTES"
    by (simp add: mem_read_def)
  from adm_run_write [OF assms(5,2), of h] obtain g res where
    g: "adm_run_command h s = Some (s\<lparr>ad_result := res, ad_fmc := Some (s5l8900_fmc_start_program g 1)\<rparr>)"
      "fmc_same_store g f" "fmc_queued g 0 e"
    by (auto simp: e_def fmc_queued_def)
  let ?f1 = "s5l8900_fmc_start_program g 1"
  have prog: "fmc_do h f (pe_op e) = Some (True, t)" using assms(10) len by (simp add: pe_op_def e_def)
  have "pe_ok e" using assms(8,9) by (simp add: pe_ok_def e_def)
  with fmc_stream [of "[e]" 0 1 ?f1 f h t] g(2,3) prog obtain f2 where
    f2: "fmc_push_words h ?f1 (ws @ pad) = Some f2" "fmc_same_store f2 t" "fm_buffered_page f2 = - 1"
    by (auto simp: s5l8900_fmc_start_program_def fmc_same_store_def fmc_queued_def FMC_MAX_LIST_def pe_stream_def e_def)
  from raw.do_cell [OF assms(1,3,4), of "pe_op e"] prog have
    t: "fmc_store_ok rf_size t" "fmc_cell rf_bytes t = fmc_spec (pe_op e) (fmc_cell rf_bytes f)"
    by (auto simp: pe_op_def simp del: fmc_do.simps)
  then have st: "fmc_store_ok rf_size f2" "fmc_cell rf_bytes f2 = fmc_spec (pe_op e) (fmc_cell rf_bytes f)"
    using f2(2) by (simp_all add: fmc_same_store_def fmc_store_ok_def fmc_cell_def)
  let ?s2 = "s\<lparr>ad_result := res, ad_mem := m, ad_fmc := Some f2\<rparr>"
  have "adm_block ?s2 ADM_CMD_READ 1 bank page"
    using assms(11) by (simp add: adm_block_def Let_def adm_cmd_word_def adm_read_be16_def adm_read_be32_def adm_read_u8_def
        adm_pages_off_def)
  from adm_run_read_one [OF this _ assms(1) st(1) f2(3) assms(6,7)] obtain s3 f3 where
    3: "adm_run_command h ?s2 = Some s3" "ad_fmc s3 = Some f3" "fmc_single_read f3 (ucast bank) page"
      "unat (fm_fmdnum f3) = FMC_BYTES_PER_PAGE - 1"
      "slice (fm_page_buffer f3) 0 FMC_BYTES_PER_PAGE = take FMC_BYTES_PER_PAGE (fmc_cell rf_bytes f2 (ucast bank) page)"
    by auto
  define N where "N = (512 :: nat)"
  have N: "4 * N = FMC_BYTES_PER_PAGE" by (simp add: N_def fmc_sizes)
  from fmc_single_pops [OF 3(3), of 0 N h] 3(4) obtain f4 where
    4: "fmc_pop_words h f3 N = Some (map (buf_word (fm_page_buffer f3)) [0 ..< N], f4)"
    by (auto simp: N_def simp del: upt_rec_numeral)
  have "slice (copy_in (\<lambda>_. 0) 0 ?bytes) 0 FMC_BYTES_PER_PAGE = ?bytes"
    using slice_copy_in [of "\<lambda>_. 0" 0 ?bytes] assms(8) by (simp add: fmc_sizes)
  then have "concat (map word_le (map (buf_word (fm_page_buffer f3)) [0 ..< N])) =
      map2 (AND) (take FMC_BYTES_PER_PAGE (fmc_cell rf_bytes f (ucast bank) page)) ?bytes"
    unfolding buf_words N 3(5) st(2) using assms(8) by (simp add: pe_op_def e_def take_map2 fmc_sizes)
  with g(1) f2(1) 3(1,2) 4 show ?thesis unfolding N_def by (intro exI conjI) (assumption | simp)+
qed

section \<open>A concrete engine\<close>

text \<open>The data2 section at 0x1000 and a transfer block of the newer firmware, with the given command and page count.\<close>

definition adm_sample_mem :: "u8 \<Rightarrow> u8 \<Rightarrow> memory" where
  "adm_sample_mem cmd n = (\<lambda>_. 0)(0x2129 := cmd, 0x212D := n)"

definition adm_sample :: "memory \<Rightarrow> raw_file adm" where
  "adm_sample m = \<lparr>ad_irq = False, ad_code_sec_addr = 0, ad_data1_sec_addr = 0, ad_data2_sec_addr = 0x1000, ad_data3_sec_addr = 0x8000,
     ad_result = (\<lambda>_. 0), ad_tf = ADM_TF_V17, ad_mem = m, ad_fmc = Some fmc_sample\<rparr>"

lemmas adm_sample_simps = adm_sample_def adm_sample_mem_def adm_cmd_word_def adm_read_be16_def adm_read_be32_def adm_read_u8_def
  adm_pages_off_def mem_read_def be32_at_def be32_def le32_def le16_def ADM_TF_V17_def ADM_TF_V14_def ADM_CMD_OFFSET_def
  ADM_CMD_NPAGES_def ADM_CMD_BANKS_def adm_cmds

theorem adm_guest_safe_witness:
  "\<exists>s' rs. dev_run (adm_step fmc_sample_host) (adm_sample (adm_sample_mem 2 9)) [MWrite ADM_CTRL2 2, MRead ADM_RESULT] = Some (s', rs)
     \<and> length rs = 2"
  using adm_guest_safe [of fmc_sample_host "adm_sample (adm_sample_mem 2 9)" fmc_sample "[MWrite ADM_CTRL2 2, MRead ADM_RESULT]"]
    fmc_sample_ok(1)
  by (simp add: adm_sample_def fmc_sample_host_def) (auto simp: fmc_sample_def)

theorem adm_read_seq_rows_witness:
  "\<exists>s' f' ws f''. adm_run_command fmc_sample_host (adm_sample (adm_sample_mem 2 1)) = Some s' \<and> ad_fmc s' = Some f'
     \<and> fmc_pop_words fmc_sample_host f' (1 * 1 * 512) = Some (ws, f'') \<and> concat (map word_le ws) = take FMC_BYTES_PER_PAGE fmc_ones"
proof -
  let ?s = "adm_sample (adm_sample_mem 2 1)" and ?blk = "0x2104 :: u64"
  have h: "fh_drv fmc_sample_host = raw_ops" "ad_tf ?s \<noteq> 0" "ad_fmc ?s = Some fmc_sample" "fmc_buffer_ok rf_bytes fmc_sample"
    "fm_cmd fmc_sample \<noteq> FMC_CMD_ID" "fm_cmd fmc_sample \<noteq> FMC_CMD_READSTATUS" "1 = unat (fm_banks fmc_sample)"
    by (simp_all add: fmc_sample_host_def adm_sample_def ADM_TF_V17_def fmc_sample_def fmc_buffer_ok_def FMC_CMD_ID_def
        FMC_CMD_READSTATUS_def)
  have b: "?blk = ucast (ad_data2_sec_addr ?s + ad_tf ?s)" "adm_cmd_word ?s ?blk = ADM_CMD_READ_SEQ"
    "unat (adm_read_be16 ?s (?blk + ADM_CMD_NPAGES)) = 1 * 1" "0 = adm_read_be32 ?s (?blk + adm_pages_off ?s)"
    by (simp_all add: adm_sample_simps)
  from adm_read_seq_rows [OF h(1-3) fmc_sample_ok(1) h(4-6) b(1,2) h(7) _ _ b(3) _ b(4)] show ?thesis
    by (simp add: fmc_sample_ok(3) FMC_NUM_BANKS_def FMC_MAX_LIST_def)
qed

theorem adm_program_read_back_witness:
  "\<exists>s1 f1 f2 s3 f3 vs f4. adm_run_command fmc_sample_host (adm_sample (adm_sample_mem 5 1)) = Some s1 \<and> ad_fmc s1 = Some f1
     \<and> fmc_push_words fmc_sample_host f1 (replicate 512 0x12345678 @ [0, 0, 0, 0]) = Some f2
     \<and> adm_run_command fmc_sample_host (s1\<lparr>ad_mem := adm_sample_mem 3 1, ad_fmc := Some f2\<rparr>) = Some s3 \<and> ad_fmc s3 = Some f3
     \<and> fmc_pop_words fmc_sample_host f3 512 = Some (vs, f4) \<and> length vs = 512"
proof -
  let ?s = "adm_sample (adm_sample_mem 5 1)"
  define ws where "ws = replicate 512 (0x12345678 :: u32)"
  have lw: "length ws = 512" by (simp add: ws_def)
  have h: "fh_drv fmc_sample_host = raw_ops" "ad_fmc ?s = Some fmc_sample"
    by (simp_all add: fmc_sample_host_def adm_sample_def)
  have b: "adm_block ?s ADM_CMD_WRITE 1 0 0" "adm_block (?s\<lparr>ad_mem := adm_sample_mem 3 1\<rparr>) ADM_CMD_READ 1 0 0"
    by (simp_all add: adm_block_def Let_def adm_sample_simps)
  obtain t where "fmc_program_page fmc_sample_host fmc_sample (ucast (0 :: u8)) 0 (copy_in (\<lambda>_. 0) 0 (concat (map word_le ws)))
      (copy_in (\<lambda>_. 0xFF) 0 (mem_read (ad_mem ?s) (ucast (ad_data3_sec_addr ?s)) FMC_META_BYTES)) = Some (True, t)"
    by (simp add: fmc_program_page_def s5l8900_fmc_load_page_def fmc_load_dirs_def fmc_erased_page_def fmc_write_file_def
        fmc_sample_def fmc_sample_host_def fmc_sizes Let_def)
  from adm_program_read_back [OF h fmc_sample_ok(1,2) b(1) _ _ lw _ this b(2), of "[0, 0, 0, 0]"] obtain s1 f1 f2 s3 f3 vs f4 where
    r: "adm_run_command fmc_sample_host ?s = Some s1" "ad_fmc s1 = Some f1"
      "fmc_push_words fmc_sample_host f1 (ws @ [0, 0, 0, 0]) = Some f2"
      "adm_run_command fmc_sample_host (s1\<lparr>ad_mem := adm_sample_mem 3 1, ad_fmc := Some f2\<rparr>) = Some s3" "ad_fmc s3 = Some f3"
      "fmc_pop_words fmc_sample_host f3 512 = Some (vs, f4)"
      "concat (map word_le vs) = map2 (AND) (take FMC_BYTES_PER_PAGE (fmc_cell rf_bytes fmc_sample (ucast (0 :: u8)) 0)) (concat (map word_le ws))"
    by (auto simp: FMC_NUM_BANKS_def)
  have "4 * length vs = length (concat (map word_le vs))" by (simp only: length_words_le)
  also have "\<dots> = 2048" unfolding r(7) by (simp add: fmc_sample_ok(3) fmc_sizes lw)
  finally have "length vs = 512" by simp
  with r(1-6) show ?thesis unfolding ws_def by blast
qed

end
