(* ===== verification/Host_Utils.thy ===== *)
theory Host_Utils
  imports Prelude
begin

text \<open>
  The wide integer arithmetic of \<open>util/host-utils.c\<close> and \<open>include/qemu/host-utils.h\<close> that the
  clocks and timers count with: the 64 by 64 bit product built from 32-bit halves, the 128 by 64
  bit division after Knuth. A division by zero is \<open>None\<close>.
\<close>

section \<open>Products\<close>

text \<open>The two halves of the \<open>LL\<close> union.\<close>

definition lo32 :: "u64 \<Rightarrow> u64" where "lo32 w = take_bit 32 w"
definition hi32 :: "u64 \<Rightarrow> u64" where "hi32 w = drop_bit 32 w"
definition ll32 :: "u64 \<Rightarrow> u64 \<Rightarrow> u64" where "ll32 lo hi = take_bit 32 lo OR push_bit 32 (take_bit 32 hi)"

definition mul64 :: "u64 \<Rightarrow> u64 \<Rightarrow> u64 \<times> u64" where
  "mul64 a b =
     (let rl = lo32 a * lo32 b;
          rm = lo32 a * hi32 b;
          rn = hi32 a * lo32 b;
          rh = hi32 a * hi32 b;
          c = hi32 rl + lo32 rm + lo32 rn;
          rl = ll32 (lo32 rl) c;
          c = drop_bit 32 c;
          c = c + hi32 rm + hi32 rn + lo32 rh;
          rh = ll32 c (hi32 rh + drop_bit 32 c)
      in (rl, rh))"

definition mulu64 :: "u64 \<Rightarrow> u64 \<Rightarrow> u64 \<times> u64" where
  "mulu64 a b = mul64 a b"

section \<open>Division\<close>

definition clz :: "'a::len word \<Rightarrow> nat" where
  "clz w = length (takeWhile Not (rev (map (bit w) [0 ..< LENGTH('a)])))"

text \<open>
  One digit of the schoolbook division, the half of \<open>udiv_qrnnd\<close> that is written twice: \<open>n\<close> is
  the running remainder, \<open>h\<close> the next half word of the dividend. \<open>k\<close> is the width of a half.
\<close>

definition qrnnd_digit :: "nat \<Rightarrow> 'a::len word \<Rightarrow> 'a word \<Rightarrow> 'a word \<Rightarrow> ('a word \<times> 'a word) option" where
  "qrnnd_digit k n h d =
     (let d0 = take_bit k d; d1 = drop_bit k d in
      if d1 = 0 then None
      else
        let r = n mod d1; q = n div d1; m = q * d0;
            r = push_bit k r OR h;
            (q, r) = (if r < m
                      then let q = q - 1; r = r + d in
                           if r \<ge> d then if r < m then (q - 1, r + d) else (q, r) else (q, r)
                      else (q, r))
        in Some (q, r - m))"

definition udiv_qrnnd :: "u64 \<Rightarrow> u64 \<Rightarrow> u64 \<Rightarrow> (u64 \<times> u64) option" where
  "udiv_qrnnd n1 n0 d =
     do { (q1, r1) \<leftarrow> qrnnd_digit 32 n1 (drop_bit 32 n0) d;
          (q0, r0) \<leftarrow> qrnnd_digit 32 r1 (take_bit 32 n0) d;
          Some (push_bit 32 q1 OR q0, r0) }"

definition divu128 :: "u64 \<Rightarrow> u64 \<Rightarrow> u64 \<Rightarrow> (u64 \<times> u64 \<times> u64) option" where
  "divu128 dlo dhi divisor =
     (if divisor = 0 \<or> dhi = 0 then
        (if divisor = 0 then None else Some (dlo div divisor, 0, dlo mod divisor))
      else
        let sh = clz divisor in
        if dhi < divisor then
          (let (divisor, dhi, dlo) =
             (if sh \<noteq> 0 then (push_bit sh divisor, push_bit sh dhi OR drop_bit (64 - sh) dlo, push_bit sh dlo)
              else (divisor, dhi, dlo))
           in do { (q, r) \<leftarrow> udiv_qrnnd dhi dlo divisor; Some (q, 0, drop_bit sh r) })
        else
          do { (divisor, dhi, dlo, qh) \<leftarrow>
                 (if sh \<noteq> 0 then
                    (let divisor = push_bit sh divisor;
                         dhighest = drop_bit (64 - sh) dhi;
                         dhi = push_bit sh dhi OR drop_bit (64 - sh) dlo;
                         dlo = push_bit sh dlo
                     in do { (qh, dhi) \<leftarrow> udiv_qrnnd dhighest dhi divisor; Some (divisor, dhi, dlo, qh) })
                  else Some (divisor, dhi - divisor, dlo, 1));
               (q, r) \<leftarrow> udiv_qrnnd dhi dlo divisor;
               Some (q, qh, drop_bit sh r) })"

section \<open>Halves of a word\<close>

lemma unat_take: "unat (take_bit n w) = unat w mod 2 ^ n" for w :: "'a::len word"
  by (simp only: unsigned_take_bit_eq) (simp only: take_bit_eq_mod)

lemma unat_drop: "unat (drop_bit n w) = unat w div 2 ^ n" for w :: "'a::len word"
  by (simp only: unsigned_drop_bit_eq) (simp add: drop_bit_eq_div take_bit_nat_eq_self)

lemma unat_lo32: "unat (lo32 w) = unat w mod 2 ^ 32"
  by (simp only: lo32_def unat_take)

lemma unat_push: "unat (push_bit n w) = unat w * 2 ^ n mod 2 ^ LENGTH('a)" for w :: "'a::len word"
  by (simp only: unsigned_push_bit_eq) (simp only: push_bit_eq_mult take_bit_eq_mod)

lemma unat_hi32: "unat (hi32 w) = unat w div 2 ^ 32"
  by (simp only: hi32_def unat_drop)

lemma or_disjoint: "a AND b = 0 \<Longrightarrow> a OR b = a + b" for a b :: "'a::len word"
  by (simp add: disjunctive_add_eq_or)

lemma unat_push_or:
  fixes r h :: "'a::len word"
  assumes "unat h < 2 ^ n" "unat r * 2 ^ n < 2 ^ LENGTH('a)"
  shows "unat (push_bit n r OR h) = unat r * 2 ^ n + unat h"
proof -
  have h: "take_bit n h = h" using assms(1) by (simp only: word_unat_eq_iff unat_take mod_less)
  have "push_bit n r AND take_bit n h = 0" by (rule bit_eqI) (auto simp: wbits bit_take_bit_iff)
  then have "unat (push_bit n r OR h) = unat (push_bit n r + h)" by (simp add: h or_disjoint)
  also have "\<dots> = (unat r * 2 ^ n + unat h) mod 2 ^ LENGTH('a)"
    by (simp add: unat_word_ariths unat_push mod_simps)
  also have "\<dots> = unat r * 2 ^ n + unat h"
  proof (cases "n < LENGTH('a)")
    case True
    then have e: "(2 :: nat) ^ LENGTH('a) = 2 ^ (LENGTH('a) - n) * 2 ^ n" by (simp flip: power_add)
    with assms(2) have "unat r + 1 \<le> 2 ^ (LENGTH('a) - n)" by simp
    from mult_le_mono1 [OF this, of "2 ^ n"] assms(1) show ?thesis by (simp add: e)
  next
    case False
    then have "(2 :: nat) ^ LENGTH('a) \<le> 2 ^ n" by simp
    with assms(2) have "unat r = 0" by (cases "unat r") auto
    then show ?thesis using unsigned_less [of h, where ?'a = nat] by simp
  qed
  finally show ?thesis .
qed

lemma unat_ll32: "unat (ll32 lo hi) = unat hi mod 2 ^ 32 * 2 ^ 32 + unat lo mod 2 ^ 32"
proof -
  have "unat (push_bit 32 (take_bit 32 hi) OR take_bit 32 lo) = unat hi mod 2 ^ 32 * 2 ^ 32 + unat lo mod 2 ^ 32"
    by (subst unat_push_or) (simp_all add: unat_take)
  then show ?thesis by (simp add: ll32_def or.commute)
qed

section \<open>The product\<close>

lemma unat_mul_half:
  fixes a b :: u64
  assumes "unat a < 2 ^ 32" "unat b < 2 ^ 32"
  shows "unat (a * b) = unat a * unat b"
  using mult_strict_mono [of "unat a" "2 ^ 32" "unat b" "2 ^ 32"] assms by (simp add: unat_word_ariths)

text \<open>The column sums of the schoolbook product, as numbers.\<close>

lemma mul_columns:
  fixes B al ah bl bh :: nat
  assumes B: "0 < B" and l: "al < B" "ah < B" "bl < B" "bh < B"
  defines "c \<equiv> al * bl div B + al * bh mod B + ah * bl mod B"
  defines "e \<equiv> c div B + al * bh div B + ah * bl div B + ah * bh mod B"
  shows "((ah * bh div B + e div B) mod B * B + e mod B) * (B * B) + (c mod B * B + al * bl mod B) = (ah * B + al) * (bh * B + bl)"
    and "c < 3 * B" and "e < 4 * B"
proof -
  show c3: "c < 3 * B" using B l less_mult_imp_div_less [of "al * bl" B B] mult_strict_mono [of al B bl B]
      mod_less_divisor [OF B, of "al * bh"] mod_less_divisor [OF B, of "ah * bl"]
    unfolding c_def by linarith
  have q: "al * bh div B < B" "ah * bl div B < B" using l B by (auto intro!: less_mult_imp_div_less mult_strict_mono)
  have "c div B < 3" using c3 by (simp add: less_mult_imp_div_less)
  with q mod_less_divisor [OF B, of "ah * bh"] show "e < 4 * B" unfolding e_def
    using B by linarith
  define p where "p = ah * bh div B * B + e"
  have "(ah * B + al) * (bh * B + bl) = ah * bh * (B * B) + (al * bh + ah * bl) * B + al * bl" by (simp add: algebra_simps)
  also have "\<dots> = p * (B * B) + (c mod B * B + al * bl mod B)"
  proof -
    have "al * bl = al * bl div B * B + al * bl mod B" "al * bh = al * bh div B * B + al * bh mod B"
      "ah * bl = ah * bl div B * B + ah * bl mod B" "ah * bh = ah * bh div B * B + ah * bh mod B" "c = c div B * B + c mod B"
      by (simp_all only: div_mult_mod_eq)
    then show ?thesis unfolding p_def e_def using c_def by algebra
  qed
  finally have eq: "(ah * B + al) * (bh * B + bl) = p * (B * B) + (c mod B * B + al * bl mod B)" .
  have "ah * B + al < B * B" "bh * B + bl < B * B"
    using mult_le_mono1 [of "Suc ah" B B] mult_le_mono1 [of "Suc bh" B B] l by simp_all
  then have "(ah * B + al) * (bh * B + bl) < (B * B) * (B * B)" using B by (intro mult_strict_mono) auto
  then have "p < B * B" using eq B by (metis add_lessD1 mult_less_cancel2)
  then have "ah * bh div B + e div B < B" unfolding p_def using B
    by (metis add.commute div_mult_self3 less_mult_imp_div_less not_gr_zero)
  then have "(ah * bh div B + e div B) mod B * B + e mod B = p" unfolding p_def by (simp add: distrib_right)
  with eq show "((ah * bh div B + e div B) mod B * B + e mod B) * (B * B) + (c mod B * B + al * bl mod B) = (ah * B + al) * (bh * B + bl)"
    by simp
qed

lemma unat_sum3:
  fixes a b c :: "'a::len word"
  assumes "unat a + unat b + unat c < 2 ^ LENGTH('a)"
  shows "unat (a + b + c) = unat a + unat b + unat c"
  using assms by (subst unat_add_small; subst unat_add_small) simp_all

lemma unat_sum4:
  fixes a b c d :: "'a::len word"
  assumes "unat a + unat b + unat c + unat d < 2 ^ LENGTH('a)"
  shows "unat (a + b + c + d) = unat a + unat b + unat c + unat d"
  using assms by (subst unat_add_small; subst unat_sum3) simp_all

lemma mul64_value:
  assumes "mul64 a b = (lo, hi)"
  shows "unat hi * 2 ^ 64 + unat lo = unat a * unat b"
proof -
  let ?B = "2 ^ 32 :: nat"
  let ?al = "unat a mod ?B" and ?ah = "unat a div ?B" and ?bl = "unat b mod ?B" and ?bh = "unat b div ?B"
  have h: "unat w div ?B < ?B" for w :: u64
    using unsigned_less [of w, where ?'a = nat] by (simp add: less_mult_imp_div_less)
  have B: "0 < ?B" by simp
  have m: "?al < ?B" "?bl < ?B" by (simp_all only: mod_less_divisor [OF B])
  note cols = mul_columns [OF B m(1) h [of a] m(2) h [of b]]
  have prods: "unat (lo32 a * lo32 b) = ?al * ?bl" "unat (lo32 a * hi32 b) = ?al * ?bh"
    "unat (hi32 a * lo32 b) = ?ah * ?bl" "unat (hi32 a * hi32 b) = ?ah * ?bh"
    by (subst unat_mul_half; simp only: unat_lo32 unat_hi32 h m)+
  define c where "c = hi32 (lo32 a * lo32 b) + lo32 (lo32 a * hi32 b) + lo32 (hi32 a * lo32 b)"
  define e where "e = drop_bit 32 c + hi32 (lo32 a * hi32 b) + hi32 (hi32 a * lo32 b) + lo32 (hi32 a * hi32 b)"
  have c: "unat c = ?al * ?bl div ?B + ?al * ?bh mod ?B + ?ah * ?bl mod ?B"
    unfolding c_def by (subst unat_sum3) (simp_all only: unat_lo32 unat_hi32 prods, rule less_trans [OF cols(2)], simp)
  have e: "unat e = unat c div ?B + ?al * ?bh div ?B + ?ah * ?bl div ?B + ?ah * ?bh mod ?B"
    unfolding e_def by (subst unat_sum4) (simp_all only: unat_lo32 unat_hi32 prods unat_drop c, rule less_trans [OF cols(3)], simp)
  have r: "lo = ll32 (lo32 (lo32 a * lo32 b)) c" "hi = ll32 e (hi32 (hi32 a * hi32 b) + drop_bit 32 e)"
    using assms by (simp_all add: mul64_def Let_def c_def e_def)
  have "unat (hi32 (hi32 a * hi32 b) + drop_bit 32 e) mod ?B = (?ah * ?bh div ?B + unat e div ?B) mod ?B"
  proof -
    have "unat (x + y) mod ?B = (unat x + unat y) mod ?B" for x y :: u64 by (simp add: unat_word_ariths mod_mod_cancel)
    then show ?thesis by (simp only: unat_hi32 prods unat_drop)
  qed
  then have "unat hi * (?B * ?B) + unat lo = (?ah * ?B + ?al) * (?bh * ?B + ?bl)"
    unfolding cols(1) [symmetric] r unat_ll32 unat_lo32 prods e c by (simp only: mod_mod_trivial)
  then show ?thesis by simp
qed

section \<open>The division\<close>

text \<open>One digit, as numbers: the estimate is at most two too large.\<close>

lemma digit_estimate:
  fixes B d0 d1 n h :: nat
  assumes B: "B \<le> 2 * d1" "d1 < B" "d0 < B" and n: "n < d1 * B + d0" and h: "h < B"
  defines "d \<equiv> d1 * B + d0" and "q \<equiv> n div d1" and "m \<equiv> n div d1 * d0" and "r \<equiv> n mod d1 * B + h"
  shows "m < B * B" and "r < d" and "n * B + h + m = q * d + r" and "m \<le> r + 2 * d"
proof -
  have pos: "0 < d1" "0 < B" using B by linarith+
  have "n < (B + 2) * d1"
    using n B(1,3) by (simp add: algebra_simps)
  then have "n div d1 \<le> B + 1" using less_mult_imp_div_less [of n "B + 2" d1] by simp
  then have "m \<le> (B + 1) * (B - 1)" unfolding m_def using B(3) by (intro mult_le_mono) simp_all
  also have "(B + 1) * (B - 1) < B * B" using pos(2) by (cases B) (simp_all add: algebra_simps)
  finally show m: "m < B * B" .
  have "Suc (n mod d1) * B \<le> d1 * B" using mod_less_divisor [OF pos(1), of n] by (intro mult_le_mono1) simp
  then show "r < d" unfolding r_def d_def using h by simp
  have "n = n div d1 * d1 + n mod d1" by simp
  then show "n * B + h + m = q * d + r" unfolding m_def q_def r_def d_def by algebra
  have "B * B \<le> 2 * (d1 * B)" using mult_le_mono1 [OF B(1), of B] by (simp add: mult.assoc)
  with m have "m \<le> 2 * (d1 * B)" by (rule less_imp_le [OF less_le_trans])
  then show "m \<le> r + 2 * d" unfolding d_def distrib_left by (simp add: trans_le_add1 trans_le_add2)
qed

text \<open>The correction steps of the code, over the words.\<close>

lemma digit_correct:
  fixes q r m d :: "'a::len word"
  assumes "unat r < unat d" "unat m \<le> unat r + 2 * unat d" "\<And>c. unat r + c * unat d < unat m \<Longrightarrow> c < unat q"
  obtains c where "(if r < m then let q = q - 1; r = r + d in if r \<ge> d then if r < m then (q - 1, r + d) else (q, r) else (q, r) else (q, r))
      = (q - of_nat c, r + of_nat c * d)"
    "c \<le> unat q" "unat m \<le> unat r + c * unat d" "unat r + c * unat d - unat m < unat d"
proof -
  let ?W = "2 ^ LENGTH('a) :: nat"
  have rd: "unat (r + d) = (unat r + unat d) mod ?W" by (simp only: unat_word_ariths)
  have wrap: "unat r + unat d - ?W < unat d" using unsigned_less [of r, where ?'a = nat] assms(1) by linarith
  have mW: "unat m < ?W" by (fact unsigned_less)
  consider (0) "unat m \<le> unat r" | (1) "unat r < unat m" "unat m \<le> unat r + unat d" | (2) "unat r + unat d < unat m"
    by linarith
  then show thesis
  proof cases
    case 0
    then have "\<not> r < m" by (simp only: word_less_nat_alt not_less)
    then show ?thesis using 0 assms(1) by (intro that [of 0]) simp_all
  next
    case 1
    have "\<not> (d \<le> r + d \<and> r + d < m)"
    proof (cases "unat r + unat d < ?W")
      case True
      then show ?thesis using 1 by (simp only: word_less_nat_alt rd mod_less) linarith
    next
      case False
      then have "unat (r + d) = (unat r + unat d - ?W) mod ?W" unfolding rd by (intro le_mod_geq) simp
      also have "\<dots> = unat r + unat d - ?W"
        using less_trans [OF wrap unsigned_less [of d, where ?'a = nat]] by (rule mod_less)
      finally show ?thesis using wrap by (simp only: word_le_nat_alt) linarith
    qed
    moreover have "1 \<le> unat q" using 1 assms(3) [of 0] by simp
    moreover have "r < m" using 1 by (simp only: word_less_nat_alt)
    ultimately show ?thesis using 1 assms(1) by (intro that [of 1]) (auto simp: Let_def)
  next
    case 2
    then have "unat (r + d) = unat r + unat d" unfolding rd using less_trans [OF _ mW] by (intro mod_less)
    then have "d \<le> r + d" "r + d < m" "r < m" using 2 by (simp_all only: word_le_nat_alt word_less_nat_alt)
    moreover have "2 \<le> unat q" using 2 assms(3) [of 1] by simp
    moreover have "q - 1 - 1 = q - of_nat 2" "r + d + d = r + of_nat 2 * d" by (simp_all add: algebra_simps)
    ultimately show ?thesis using 2 assms(1,2) by (intro that [of 2]; linarith?) (simp only: Let_def if_True)
  qed
qed

lemma digit_value:
  fixes n h d :: "'a::len word"
  assumes k: "LENGTH('a) = 2 * k" and norm: "2 ^ (LENGTH('a) - 1) \<le> unat d" and n: "n < d" and h: "unat h < 2 ^ k"
  obtains q r where "qrnnd_digit k n h d = Some (q, r)" "unat q * unat d + unat r = unat n * 2 ^ k + unat h" "r < d"
    "unat q < 2 ^ k"
proof -
  define B d1 d0 where "B = (2 :: nat) ^ k" and "d1 = unat d div B" and "d0 = unat d mod B"
  have BB: "2 ^ LENGTH('a) = B * B" by (simp add: k B_def mult_2 power_add)
  have k0: "0 < k" using k len_gt_0 [where ?'a = 'a] by linarith
  have d: "unat d = d1 * B + d0" by (simp add: d1_def d0_def)
  have "2 ^ (LENGTH('a) - 1) = B div 2 * B" using k0 by (cases k) (simp_all add: k B_def mult_2 power_add distrib_left)
  then have "B div 2 \<le> d1" using norm div_le_mono [of "B div 2 * B" "unat d" B] by (simp add: d1_def B_def)
  moreover have "B = 2 * (B div 2)" using k0 by (simp add: B_def)
  ultimately have lim1: "B \<le> 2 * d1" by linarith
  have lim2: "d1 < B" unfolding d1_def
    using unsigned_less [of d, where ?'a = nat] by (simp only: BB less_mult_imp_div_less)
  have lim3: "d0 < B" by (simp add: d0_def B_def)
  have lim4: "unat n < d1 * B + d0" "unat h < B" using n h by (simp_all only: word_less_nat_alt d B_def)
  note lim = lim1 lim2 lim3 lim4
  define r m where "r = push_bit k (n mod drop_bit k d) OR h" and "m = n div drop_bit k d * take_bit k d"
  note est = digit_estimate [OF lim]
  have ud: "unat (drop_bit k d) = d1" "unat (take_bit k d) = d0" by (simp_all only: unat_drop unat_take d1_def d0_def B_def)
  have um: "unat m = unat n div d1 * d0" unfolding m_def using est(1)
    by (simp only: unat_word_ariths(2) unat_div_word ud BB mod_less)
  have ur: "unat r = unat n mod d1 * B + unat h" unfolding r_def
  proof (subst unat_push_or)
    show "unat h < 2 ^ k" by (fact h)
    have "unat n mod d1 * B < B * B" using est(2) unsigned_less [of d, where ?'a = nat] unfolding BB d by linarith
    then show "unat (n mod drop_bit k d) * 2 ^ k < 2 ^ LENGTH('a)" by (simp only: unat_mod_word ud BB B_def [symmetric])
  qed (simp only: unat_mod_word ud B_def)
  have uq: "unat (n div drop_bit k d) = unat n div d1" by (simp only: unat_div_word ud)
  have balance: "unat n * B + unat h + unat m = unat n div d1 * unat d + unat r" using est(3) by (simp only: um ur d)
  have small: "c < unat (n div drop_bit k d)" if "unat r + c * unat d < unat m" for c
  proof (rule ccontr)
    assume "\<not> c < unat (n div drop_bit k d)"
    then have "unat n div d1 * unat d \<le> c * unat d" by (simp add: uq)
    with that balance show False by linarith
  qed
  obtain c where c: "(if r < m then let q = n div drop_bit k d - 1; r = r + d in if r \<ge> d then if r < m then (q - 1, r + d) else (q, r) else (q, r)
        else (n div drop_bit k d, r)) = (n div drop_bit k d - of_nat c, r + of_nat c * d)"
    "c \<le> unat (n div drop_bit k d)" "unat m \<le> unat r + c * unat d" "unat r + c * unat d - unat m < unat d"
    using digit_correct [of r d m "n div drop_bit k d"] est(2,4) small by (auto simp only: um ur d)
  define q' r' where "q' = n div drop_bit k d - of_nat c" and "r' = r + of_nat c * d - m"
  have "drop_bit k d \<noteq> 0" using ud(1) lim(1,2) by (metis linorder_not_less mult_0_right unat_0 zero_less_iff_neq_zero le_zero_eq)
  then have "qrnnd_digit k n h d = Some (q', r')"
    using c(1) unfolding qrnnd_digit_def Let_def r_def m_def q'_def r'_def by (simp add: Let_def)
  moreover have r': "unat r' = unat r + c * unat d - unat m"
  proof -
    have "r' = of_nat (unat r + c * unat d - unat m)" using c(3) by (simp add: r'_def of_nat_diff)
    then show ?thesis using c(4) unsigned_less [of d, where ?'a = nat] by (simp only: unat_of_nat mod_less less_trans)
  qed
  moreover have q': "unat q' = unat n div d1 - c"
  proof -
    have "q' = of_nat (unat (n div drop_bit k d) - c)" using c(2) by (simp add: q'_def of_nat_diff)
    then show ?thesis using unsigned_less [of "n div drop_bit k d", where ?'a = nat] by (simp add: unat_of_nat uq)
  qed
  moreover have val: "unat q' * unat d + unat r' = unat n * B + unat h"
  proof -
    have "(unat n div d1 - c) * unat d + c * unat d = unat n div d1 * unat d"
      using c(2) by (simp add: uq flip: distrib_right)
    then show ?thesis unfolding q' r' using balance c(3) by linarith
  qed
  moreover have "unat q' < B"
  proof -
    have "unat n * B + unat h < Suc (unat n) * B" using lim(5) by simp
    also have "\<dots> \<le> unat d * B" using n by (intro mult_le_mono1) (simp add: word_less_nat_alt)
    finally have "unat q' * unat d + unat r' < B * unat d" unfolding val by (simp add: mult.commute)
    then show ?thesis using mult_less_cancel2 [of "unat q'" "unat d" B] by linarith
  qed
  ultimately show thesis using that c(4) by (simp add: B_def word_less_nat_alt)
qed

lemma udiv_qrnnd_value:
  assumes "2 ^ 63 \<le> unat d" "n1 < d"
  obtains q r where "udiv_qrnnd n1 n0 d = Some (q, r)" "unat q * unat d + unat r = unat n1 * 2 ^ 64 + unat n0" "r < d"
proof -
  have k: "LENGTH(64) = 2 * 32" and norm: "2 ^ (LENGTH(64) - 1) \<le> unat d" using assms(1) by simp_all
  have h: "unat (drop_bit 32 n0) < 2 ^ 32" "unat (take_bit 32 n0) < 2 ^ 32"
    using unsigned_less [of n0, where ?'a = nat] by (simp_all only: unat_drop unat_take) (simp_all add: less_mult_imp_div_less)
  obtain q1 r1 where 1: "qrnnd_digit 32 n1 (drop_bit 32 n0) d = Some (q1, r1)"
      "unat q1 * unat d + unat r1 = unat n1 * 2 ^ 32 + unat (drop_bit 32 n0)" "r1 < d" "unat q1 < 2 ^ 32"
    by (rule digit_value [OF k norm assms(2) h(1)])
  obtain q0 r0 where 0: "qrnnd_digit 32 r1 (take_bit 32 n0) d = Some (q0, r0)"
      "unat q0 * unat d + unat r0 = unat r1 * 2 ^ 32 + unat (take_bit 32 n0)" "r0 < d" "unat q0 < 2 ^ 32"
    by (rule digit_value [OF k norm 1(3) h(2)])
  have "unat (push_bit 32 q1 OR q0) = unat q1 * 2 ^ 32 + unat q0"
    using 1(4) 0(4) by (intro unat_push_or) simp_all
  moreover have "unat n0 = unat (drop_bit 32 n0) * 2 ^ 32 + unat (take_bit 32 n0)"
    by (simp only: unat_drop unat_take div_mult_mod_eq)
  moreover have "(2 :: nat) ^ 64 = 2 ^ 32 * 2 ^ 32" by simp
  ultimately have "unat (push_bit 32 q1 OR q0) * unat d + unat r0 = unat n1 * 2 ^ 64 + unat n0"
    using 1(2) 0(2) by algebra
  then show thesis using that 1(1) 0(1,3) by (simp add: udiv_qrnnd_def)
qed

lemma clz_normalises:
  fixes d :: "'a::len word"
  assumes "d \<noteq> 0"
  shows "clz d < LENGTH('a)" and "2 ^ (LENGTH('a) - 1) \<le> unat d * 2 ^ clz d" and "unat d * 2 ^ clz d < 2 ^ LENGTH('a)"
proof -
  let ?W = "LENGTH('a)" let ?xs = "rev (map (bit d) [0 ..< ?W])"
  obtain b where b: "bit d b" using assms by (metis bit_eqI bit_0_eq bot_apply bot_bool_def)
  then have "b < ?W" by (rule bit_imp_le_length)
  with b have "\<exists>x \<in> set ?xs. x" by (force simp: image_iff)
  then have "takeWhile Not ?xs \<noteq> ?xs" by (auto simp: takeWhile_eq_all_conv)
  then have n: "clz d < length ?xs" unfolding clz_def by (metis takeWhile_eq_take take_all not_less)
  then show W: "clz d < ?W" by simp
  have "?xs ! clz d" using nth_length_takeWhile [of Not ?xs] n by (simp add: clz_def)
  then have "bit d (?W - 1 - clz d)" using W by (simp add: rev_nth)
  then have "odd (unat d div 2 ^ (?W - 1 - clz d))" by (simp add: bit_unsigned_iff flip: bit_iff_odd)
  then have "2 ^ (?W - 1 - clz d) \<le> unat d" by (rule_tac ccontr) (simp add: not_le)
  then have "2 ^ (?W - 1 - clz d) * 2 ^ clz d \<le> unat d * 2 ^ clz d" by (rule mult_le_mono1)
  moreover have "?W - 1 - clz d + clz d = ?W - 1" using W by simp
  ultimately show "2 ^ (?W - 1) \<le> unat d * 2 ^ clz d" by (simp only: flip: power_add)
  have above: "\<not> bit d j" if "?W - clz d \<le> j" for j
  proof
    assume "bit d j"
    then have "j < ?W" by (rule bit_imp_le_length)
    from this that have "?W - 1 - j < clz d" by linarith
    then have "?xs ! (?W - 1 - j) \<in> set (takeWhile Not ?xs)" unfolding clz_def by (metis nth_mem takeWhile_nth)
    then have "\<not> ?xs ! (?W - 1 - j)" by (rule conjunct2 [OF set_takeWhileD])
    then show False using \<open>bit d j\<close> \<open>j < ?W\<close> by (simp add: rev_nth)
  qed
  then have "take_bit (?W - clz d) d = d" by (intro bit_eqI) (metis bit_take_bit_iff not_less)
  then have "unat d < 2 ^ (?W - clz d)" using unat_take [of "?W - clz d" d] by (metis mod_less_divisor zero_less_numeral zero_less_power)
  then have "unat d * 2 ^ clz d < 2 ^ (?W - clz d) * 2 ^ clz d" by simp
  moreover have "?W - clz d + clz d = ?W" using W by simp
  ultimately show "unat d * 2 ^ clz d < 2 ^ ?W" by (simp only: flip: power_add)
qed

lemma unat_push_or_mod:
  fixes r h :: "'a::len word"
  assumes "unat h < 2 ^ n" "n \<le> LENGTH('a)"
  shows "unat (push_bit n r OR h) = unat r mod 2 ^ (LENGTH('a) - n) * 2 ^ n + unat h"
proof -
  have e: "push_bit n r = push_bit n (take_bit (LENGTH('a) - n) r)"
    by (rule bit_eqI) (auto simp: bit_push_bit_iff bit_take_bit_iff)
  have "unat r mod 2 ^ (LENGTH('a) - n) * 2 ^ n < 2 ^ (LENGTH('a) - n) * 2 ^ n" by simp
  also have "\<dots> = 2 ^ LENGTH('a)" using assms(2) by (simp flip: power_add)
  finally show ?thesis unfolding e using assms(1) by (subst unat_push_or) (simp_all only: unat_take)
qed

text \<open>A two-word number shifted left by \<open>sh\<close> is three words.\<close>

lemma shift_wide:
  fixes hi lo :: "'a::len word"
  assumes "0 < sh" "sh < LENGTH('a)"
  shows "(unat hi * 2 ^ LENGTH('a) + unat lo) * 2 ^ sh =
     unat (drop_bit (LENGTH('a) - sh) hi) * (2 ^ LENGTH('a) * 2 ^ LENGTH('a)) +
     unat (push_bit sh hi OR drop_bit (LENGTH('a) - sh) lo) * 2 ^ LENGTH('a) + unat (push_bit sh lo)"
proof -
  let ?W = "LENGTH('a)"
  define S V where "S = (2 :: nat) ^ sh" and "V = (2 :: nat) ^ (?W - sh)"
  have VS: "2 ^ ?W = V * S" using assms by (simp add: S_def V_def flip: power_add)
  have "unat lo < V * S" using unsigned_less [of lo, where ?'a = nat] by (simp only: VS)
  then have "unat lo div V < S" by (simp add: less_mult_imp_div_less mult.commute)
  then have mid: "unat (push_bit sh hi OR drop_bit (?W - sh) lo) = unat hi mod V * S + unat lo div V"
    using assms by (subst unat_push_or_mod) (simp_all only: unat_drop S_def V_def less_imp_le)
  have low: "unat (push_bit sh lo) = unat lo mod V * S"
    using unat_push_or_mod [of "0 :: 'a word" sh lo] assms by (simp add: S_def V_def)
  have "unat hi = unat hi div V * V + unat hi mod V" "unat lo = unat lo div V * V + unat lo mod V" by simp_all
  then show ?thesis unfolding mid low VS unat_drop V_def [symmetric] S_def [symmetric] by algebra
qed

lemma unscale_division:
  fixes Q d S r N :: nat
  assumes "0 < S" "Q * (d * S) + r = N * S" "r < d * S"
  shows "Q * d + r div S = N" "r div S < d"
proof -
  have "Q * d * S \<le> N * S" unfolding mult.assoc using assms(2) by linarith
  then have "Q * d \<le> N" using assms(1) by (simp only: mult_le_cancel2)
  then have "r = (N - Q * d) * S" using assms(2) by (simp add: diff_mult_distrib mult.assoc)
  then have "r div S = N - Q * d" using assms(1) by simp
  with \<open>Q * d \<le> N\<close> show "Q * d + r div S = N" by simp
  show "r div S < d" using assms(3) by (simp add: less_mult_imp_div_less)
qed

text \<open>What \<open>divu128\<close> promises: quotient and remainder of the 128-bit number \<open>dhi * 2\<^sup>6\<^sup>4 + dlo\<close>.\<close>

definition quot_rem :: "nat \<Rightarrow> nat \<Rightarrow> u64 \<times> u64 \<times> u64 \<Rightarrow> bool" where
  "quot_rem N d = (\<lambda>(lo, hi, r). (unat hi * 2 ^ 64 + unat lo) * d + unat r = N \<and> unat r < d)"

lemma two_digits:
  fixes B :: nat
  shows "q * D + r = h * B + l \<Longrightarrow> (qh * D + h) * B + l = N \<Longrightarrow> (qh * B + q) * D + r = N"
    and "(t * B + m) * B + l = t * (B * B) + m * B + l"
  by algebra+

lemma divu128_step:
  fixes d :: u64
  assumes d: "d \<noteq> 0" and D: "unat D = unat d * 2 ^ clz d" and h: "h < D"
    and N: "(unat qh * unat D + unat h) * 2 ^ 64 + unat l = N * 2 ^ clz d"
  obtains q r where "udiv_qrnnd h l D = Some (q, r)" "quot_rem N (unat d) (q, qh, drop_bit (clz d) r)"
proof -
  have "2 ^ 63 \<le> unat D" unfolding D using clz_normalises(2) [OF d] by simp
  then obtain q r where 1: "udiv_qrnnd h l D = Some (q, r)" "unat q * unat D + unat r = unat h * 2 ^ 64 + unat l" "r < D"
    by (rule udiv_qrnnd_value [OF _ h])
  have "(unat qh * 2 ^ 64 + unat q) * unat D + unat r = N * 2 ^ clz d" using 1(2) N by (rule two_digits(1))
  then have "(unat qh * 2 ^ 64 + unat q) * unat d + unat r div 2 ^ clz d = N" "unat r div 2 ^ clz d < unat d"
    using unscale_division [of "2 ^ clz d" "unat qh * 2 ^ 64 + unat q" "unat d" "unat r" N] 1(3)
    by (simp_all only: D word_less_nat_alt) simp_all
  then show thesis using that [OF 1(1)] by (simp only: quot_rem_def prod.case unat_drop)
qed

lemma unat_push_clz: "d \<noteq> 0 \<Longrightarrow> unat (push_bit (clz d) d) = unat d * 2 ^ clz d" for d :: "'a::len word"
  unfolding unat_push by (rule mod_less [OF clz_normalises(3)])

text \<open>The two ways into the normalised division: one digit of the quotient, or two.\<close>

lemma divu128_below:
  fixes d :: u64
  assumes d: "d \<noteq> 0" and dhi: "dhi \<noteq> 0" "dhi < d"
  obtains lo hi r where "divu128 dlo dhi d = Some (lo, hi, r)" "quot_rem (unat dhi * 2 ^ 64 + unat dlo) (unat d) (lo, hi, r)"
proof -
  let ?sh = "clz d" let ?N = "unat dhi * 2 ^ 64 + unat dlo"
  define D h l where "D = push_bit ?sh d" and "h = (if ?sh \<noteq> 0 then push_bit ?sh dhi OR drop_bit (64 - ?sh) dlo else dhi)"
    and "l = (if ?sh \<noteq> 0 then push_bit ?sh dlo else dlo)"
  have D: "unat D = unat d * 2 ^ ?sh" unfolding D_def by (rule unat_push_clz [OF d])
  have "?N < Suc (unat dhi) * 2 ^ 64" using unsigned_less [of dlo, where ?'a = nat] by simp
  also have "\<dots> \<le> unat d * 2 ^ 64" using dhi(2) by (intro mult_le_mono1) (simp add: word_less_nat_alt)
  finally have "?N * 2 ^ ?sh < unat d * 2 ^ 64 * 2 ^ ?sh" by simp
  then have less: "?N * 2 ^ ?sh < unat D * 2 ^ 64" unfolding D by (simp only: mult.assoc mult.commute [of "2 ^ 64"])
  have N: "?N * 2 ^ ?sh = unat h * 2 ^ 64 + unat l"
  proof (cases "?sh = 0")
    case False
    have "unat D * 2 ^ 64 < 2 ^ 64 * 2 ^ 64" using unsigned_less [of D, where ?'a = nat] by simp
    with less shift_wide [of ?sh dhi dlo] False clz_normalises(1) [OF d]
    have "unat (drop_bit (64 - ?sh) dhi) = 0" by (cases "unat (drop_bit (64 - ?sh) dhi)") simp_all
    then show ?thesis using shift_wide [of ?sh dhi dlo] False clz_normalises(1) [OF d] by (simp add: h_def l_def)
  qed (simp add: h_def l_def)
  have "unat h * 2 ^ 64 < unat D * 2 ^ 64" using less unfolding N by linarith
  then have "h < D" by (simp add: word_less_nat_alt)
  moreover have "(unat (0 :: u64) * unat D + unat h) * 2 ^ 64 + unat l = ?N * 2 ^ ?sh" by (simp only: N unat_0) simp
  ultimately obtain q r where "udiv_qrnnd h l D = Some (q, r)" "quot_rem ?N (unat d) (q, 0, drop_bit ?sh r)"
    by (rule divu128_step [OF d D])
  then show thesis using that d dhi by (simp add: divu128_def Let_def D_def h_def l_def split: if_splits)
qed

lemma divu128_above:
  fixes d :: u64
  assumes d: "d \<noteq> 0" and dhi: "\<not> dhi < d"
  obtains lo hi r where "divu128 dlo dhi d = Some (lo, hi, r)" "quot_rem (unat dhi * 2 ^ 64 + unat dlo) (unat d) (lo, hi, r)"
proof (cases "clz d = 0")
  case True
  have "2 ^ 63 \<le> unat d" using clz_normalises(2) [OF d] True by simp
  then have "dhi - d < d" using unsigned_less [of dhi, where ?'a = nat] dhi
    by (simp add: word_less_nat_alt unat_sub_le word_le_nat_alt)
  moreover have "(unat (1 :: u64) * unat d + unat (dhi - d)) * 2 ^ 64 + unat dlo = (unat dhi * 2 ^ 64 + unat dlo) * 2 ^ clz d"
    using dhi True by (simp add: unat_sub_le word_le_nat_alt not_less)
  ultimately obtain q r where "udiv_qrnnd (dhi - d) dlo d = Some (q, r)"
      "quot_rem (unat dhi * 2 ^ 64 + unat dlo) (unat d) (q, 1, drop_bit (clz d) r)"
    using divu128_step [OF d, of d "dhi - d" 1 dlo] True by auto
  moreover have "dhi \<noteq> 0" using d dhi by (auto simp: word_gt_0)
  ultimately show thesis using that d dhi True by (simp add: divu128_def Let_def)
next
  case False
  let ?sh = "clz d" let ?N = "unat dhi * 2 ^ 64 + unat dlo"
  let ?top = "drop_bit (64 - ?sh) dhi" and ?mid = "push_bit ?sh dhi OR drop_bit (64 - ?sh) dlo" and ?D = "push_bit ?sh d"
  have sh: "?sh < 64" using clz_normalises(1) [OF d] by simp
  have D: "unat ?D = unat d * 2 ^ ?sh" by (rule unat_push_clz [OF d])
  have "unat ?top < 2 ^ ?sh" using unsigned_less [of dhi, where ?'a = nat] sh
    by (simp only: unat_drop) (simp add: less_mult_imp_div_less flip: power_add)
  also have "2 ^ ?sh \<le> unat ?D" using d unfolding D by (simp add: unat_gt_0 Suc_leI)
  finally have "?top < ?D" by (simp only: word_less_nat_alt)
  moreover have "2 ^ 63 \<le> unat ?D" unfolding D using clz_normalises(2) [OF d] by simp
  ultimately obtain qh h where 1: "udiv_qrnnd ?top ?mid ?D = Some (qh, h)" "unat qh * unat ?D + unat h = unat ?top * 2 ^ 64 + unat ?mid" "h < ?D"
    using udiv_qrnnd_value by blast
  have "?N * 2 ^ ?sh = unat ?top * (2 ^ 64 * 2 ^ 64) + unat ?mid * 2 ^ 64 + unat (push_bit ?sh dlo)"
    using shift_wide [of ?sh dhi dlo] False sh by simp
  then have "(unat qh * unat ?D + unat h) * 2 ^ 64 + unat (push_bit ?sh dlo) = ?N * 2 ^ ?sh" unfolding 1(2) two_digits(2) by (rule sym)
  then obtain q r where "udiv_qrnnd h (push_bit ?sh dlo) ?D = Some (q, r)" "quot_rem ?N (unat d) (q, qh, drop_bit ?sh r)"
    by (rule divu128_step [OF d D 1(3)])
  moreover have "dhi \<noteq> 0" using d dhi by (auto simp: word_gt_0)
  ultimately show thesis using that d dhi False 1(1) by (simp add: divu128_def Let_def)
qed

lemma divu128_value:
  assumes d: "d \<noteq> 0"
  obtains lo hi r where "divu128 dlo dhi d = Some (lo, hi, r)" "quot_rem (unat dhi * 2 ^ 64 + unat dlo) (unat d) (lo, hi, r)"
proof (cases "dhi = 0")
  case True
  then show ?thesis using d that [of "dlo div d" 0 "dlo mod d"]
    by (simp add: divu128_def quot_rem_def unat_div_word unat_mod_word unat_gt_0)
next
  case False
  then show ?thesis using divu128_below [OF d False] divu128_above [OF d] that by metis
qed

lemma quot_rem_div:
  assumes "quot_rem N d (lo, hi, r)"
  shows "unat hi * 2 ^ 64 + unat lo = N div d" "unat r = N mod d"
proof -
  from assms have N: "N = (unat hi * 2 ^ 64 + unat lo) * d + unat r" and r: "unat r < d" by (simp_all add: quot_rem_def)
  show "unat hi * 2 ^ 64 + unat lo = N div d" unfolding N using r by (subst div_mult_self3) simp_all
  show "unat r = N mod d" unfolding N using r by (simp only: mod_mult_self3 mod_less)
qed

text \<open>
  C9. The portable 128 by 64 bit division is the division: for every non-zero divisor it returns,
  with the quotient and the remainder of the two-word dividend.
\<close>

theorem divu128_exact:
  assumes "divisor \<noteq> 0"
  shows "\<exists>lo hi rem. divu128 dlo dhi divisor = Some (lo, hi, rem)
     \<and> unat hi * 2 ^ 64 + unat lo = (unat dhi * 2 ^ 64 + unat dlo) div unat divisor
     \<and> unat rem = (unat dhi * 2 ^ 64 + unat dlo) mod unat divisor"
  using divu128_value [OF assms, of dlo dhi] quot_rem_div by metis

theorem divu128_exact_witness:
  "\<exists>lo hi rem. divu128 5 9 2 = Some (lo, hi, rem) \<and> unat hi * 2 ^ 64 + unat lo = 83010348331692982274 \<and> unat rem = 1"
  using divu128_exact [of 2 5 9] by simp

end
