(* ===== verification/Host_Signed.thy ===== *)
theory Host_Signed
  imports Host_Utils "HOL-Library.Signed_Division"
begin

text \<open>
  The signed product and division of \<open>util/host-utils.c\<close>, which reduce to the unsigned ones.
\<close>

definition muls64 :: "u64 \<Rightarrow> u64 \<Rightarrow> u64 \<times> u64" where
  "muls64 a b =
     (let (lo, rh) = mul64 a b;
          rh = (if sint b < 0 then rh - a else rh);
          rh = (if sint a < 0 then rh - b else rh)
      in (lo, rh))"

text \<open>The signed division: the sign of the remainder is the dividend's, as in C.\<close>

definition neg128 :: "u64 \<Rightarrow> u64 \<Rightarrow> u64 \<times> u64" where
  "neg128 lo hi = (if lo = 0 then (0, - hi) else (- lo, NOT hi))"

definition divs128 :: "u64 \<Rightarrow> u64 \<Rightarrow> u64 \<Rightarrow> (u64 \<times> u64 \<times> u64) option" where
  "divs128 lo hi divisor =
     (let neg = sint hi < 0;
          (ulo, uhi) = (if neg then neg128 lo hi else (lo, hi));
          neg_quotient = (neg \<noteq> (sint divisor < 0));
          divisor = (if sint divisor < 0 then - divisor else divisor)
      in do { (ulo, uhi, rem) \<leftarrow> divu128 ulo uhi divisor;
              let (lo, hi) = (if neg_quotient then neg128 ulo uhi else (ulo, uhi));
              Some (lo, hi, if neg then - rem else rem) })"

section \<open>Signed forms\<close>

text \<open>The two words of a signed 128-bit number.\<close>

definition s128 :: "u64 \<Rightarrow> u64 \<Rightarrow> int" where
  "s128 lo hi = sint hi * 2 ^ 64 + uint lo"

definition u128 :: "u64 \<Rightarrow> u64 \<Rightarrow> int" where
  "u128 lo hi = uint hi * 2 ^ 64 + uint lo"

lemma sint_u64: "sint w = (if uint w < 2 ^ 63 then uint w else uint w - 2 ^ 64)" for w :: u64
proof -
  have r: "- (2 ^ 63) \<le> sint w" "sint w < 2 ^ 63" using sint_greater_eq [of w] sint_less [of w] by simp_all
  have "uint w = sint w mod 2 ^ 64" using uint_sint [of w] by (simp add: take_bit_eq_mod)
  also have "\<dots> = (if sint w < 0 then sint w + 2 ^ 64 else sint w)"
  proof (cases "sint w < 0")
    case True
    have "sint w mod 2 ^ 64 = (sint w + 2 ^ 64) mod 2 ^ 64" by simp
    also have "\<dots> = sint w + 2 ^ 64" using True r by (intro mod_pos_pos_trivial) simp_all
    finally show ?thesis using True by simp
  qed (use r in simp)
  finally show ?thesis using r by (simp split: if_splits)
qed

lemma u128_range: "0 \<le> u128 lo hi" "u128 lo hi < 2 ^ 128"
proof -
  have "uint hi * 2 ^ 64 \<le> (2 ^ 64 - 1) * 2 ^ 64" using uint_lt2p [of hi] by (intro mult_right_mono) simp_all
  then show "u128 lo hi < 2 ^ 128" unfolding u128_def using uint_lt2p [of lo] by simp
qed (simp add: u128_def)

lemma s128_u128: "s128 lo hi = (if u128 lo hi < 2 ^ 127 then u128 lo hi else u128 lo hi - 2 ^ 128)"
proof -
  have lo: "0 \<le> uint lo" "uint lo < 2 ^ 64" using uint_lt2p [of lo] by simp_all
  have "uint hi * 2 ^ 64 + uint lo < 2 ^ 127 \<longleftrightarrow> uint hi < 2 ^ 63" using lo by (simp, linarith)
  then show ?thesis unfolding s128_def u128_def sint_u64 by (simp add: algebra_simps)
qed

lemma uint_neg_u64: "uint (- w) = (if w = 0 then 0 else 2 ^ 64 - uint w)" for w :: u64
proof (cases "w = 0")
  case False
  then have "uint w \<noteq> 0" by (simp add: uint_0_iff)
  then show ?thesis using uint_lt2p [of w] False zmod_zminus1_eq_if [of "uint w" "2 ^ 64"] by (simp add: uint_word_ariths)
qed simp

lemma uint_not_u64: "uint (NOT w) = 2 ^ 64 - 1 - uint w" for w :: u64
proof -
  have "NOT w = - 1 - w" by (simp add: not_eq_complement)
  moreover have "uint (- 1 - w) = uint (- 1 :: u64) - uint w" using uint_minus_simple_alt [of w "- 1"] by simp
  ultimately show ?thesis by (simp add: unsigned_minus_1_eq_mask mask_eq_exp_minus_1)
qed

lemma neg128_value:
  assumes "neg128 lo hi = (lo', hi')" "u128 lo hi \<noteq> 0"
  shows "u128 lo' hi' = 2 ^ 128 - u128 lo hi"
proof (cases "lo = 0")
  case True
  with assms(2) have "hi \<noteq> 0" by (auto simp: u128_def)
  with True assms(1) show ?thesis by (auto simp: neg128_def u128_def uint_neg_u64)
next
  case False
  with assms(1) show ?thesis by (auto simp: neg128_def u128_def uint_neg_u64 uint_not_u64)
qed

lemma signed_product:
  fixes B :: int
  assumes "h * B + lo = a * b"
  shows "(h - eb * a - ea * b + B * k) * B + lo = (a - ea * B) * (b - eb * B) + (k - ea * eb) * (B * B)"
  using assms by algebra

text \<open>The signed product is the product of the signed readings, as a signed 128-bit number.\<close>

lemma muls64_value:
  assumes "muls64 a b = (lo, hi)"
  shows "s128 lo hi = sint a * sint b"
proof -
  define ea eb :: int where "ea = of_bool (sint a < 0)" and "eb = of_bool (sint b < 0)"
  obtain h where h: "mul64 a b = (lo, h)" using assms by (cases "mul64 a b") (auto simp: muls64_def Let_def)
  have hi: "hi = (let rh = if sint b < 0 then h - a else h in if sint a < 0 then rh - b else rh)"
    using assms h by (simp add: muls64_def Let_def)
  have ab: "sint a = uint a - ea * 2 ^ 64" "sint b = uint b - eb * 2 ^ 64"
    using uint_lt2p [of a] uint_lt2p [of b] unfolding ea_def eb_def sint_u64 by auto
  have prod: "uint h * 2 ^ 64 + uint lo = uint a * uint b"
    using arg_cong [OF mul64_value [OF h], of int] by simp
  have "sint hi mod 2 ^ 64 = (uint h - eb * uint a - ea * uint b) mod 2 ^ 64"
  proof -
    have "sint w mod 2 ^ 64 = uint w" for w :: u64 using uint_sint [of w] by (simp add: take_bit_eq_mod)
    then show ?thesis using uint_lt2p [of h] by (simp add: hi ea_def eb_def uint_word_ariths mod_simps)
  qed
  then obtain k where k: "sint hi = uint h - eb * uint a - ea * uint b + 2 ^ 64 * k"
    by (auto simp: mod_eq_dvd_iff dvd_def) (metis add_diff_cancel_left' diff_add_cancel)
  have eq: "s128 lo hi = sint a * sint b + (k - ea * eb) * (2 ^ 64 * 2 ^ 64)"
    unfolding s128_def k ab by (rule signed_product [OF prod])
  have "\<bar>sint a * sint b\<bar> \<le> 2 ^ 63 * 2 ^ 63" unfolding abs_mult
    using sint_greater_eq [of a] sint_less [of a] sint_greater_eq [of b] sint_less [of b] by (intro mult_mono) auto
  moreover have "- (2 ^ 127) \<le> s128 lo hi" "s128 lo hi < 2 ^ 127" using u128_range [of lo hi] unfolding s128_u128 by auto
  ultimately have "k - ea * eb = 0" unfolding eq by (simp add: abs_le_iff)
  then show ?thesis using eq by simp
qed

lemma s128_range: "- (2 ^ 127) \<le> s128 lo hi" "s128 lo hi < 2 ^ 127"
  using u128_range [of lo hi] unfolding s128_u128 by auto

lemma s128_neg: "sint hi < 0 \<longleftrightarrow> s128 lo hi < 0"
proof -
  have "0 \<le> uint lo" "uint lo < 2 ^ 64" using uint_lt2p [of lo] by simp_all
  then show ?thesis unfolding s128_def by (simp, linarith)
qed

lemma uint_abs_u64: "uint (if sint d < 0 then - d else d) = \<bar>sint d\<bar>" for d :: u64
  using uint_lt2p [of d] by (auto simp: sint_u64 uint_neg_u64)

lemma u128_abs:
  assumes "(if sint hi < 0 then neg128 lo hi else (lo, hi)) = (ulo, uhi)"
  shows "u128 ulo uhi = \<bar>s128 lo hi\<bar>"
proof (cases "sint hi < 0")
  case True
  then have neg: "s128 lo hi < 0" using s128_neg [of hi lo] by blast
  then have "u128 lo hi \<noteq> 0" using u128_range [of lo hi] unfolding s128_u128 by (auto split: if_splits)
  with True assms have "u128 ulo uhi = 2 ^ 128 - u128 lo hi" by (intro neg128_value) simp_all
  with neg show ?thesis unfolding s128_u128 using u128_range [of lo hi] by (auto split: if_splits)
next
  case False
  then have "\<not> s128 lo hi < 0" using s128_neg [of hi lo] by blast
  with False assms show ?thesis unfolding s128_u128 using u128_range [of lo hi] by (auto split: if_splits)
qed

text \<open>The sign put back: as long as the magnitude fits, the two words read as plus or minus it.\<close>

lemma s128_signed:
  assumes "(if neg then neg128 ulo uhi else (ulo, uhi)) = (lo, hi)" "u128 ulo uhi < 2 ^ 127 + of_bool neg"
  shows "s128 lo hi = (if neg then - u128 ulo uhi else u128 ulo uhi)"
proof (cases "neg \<and> u128 ulo uhi \<noteq> 0")
  case True
  then have "u128 lo hi = 2 ^ 128 - u128 ulo uhi" using assms(1) by (intro neg128_value) simp_all
  then show ?thesis unfolding s128_u128 using True assms(2) u128_range [of ulo uhi] by auto
next
  case False
  then have "u128 lo hi = u128 ulo uhi" using assms(1)
  proof (cases neg)
    case True
    with False have "uint ulo = 0" "uint uhi = 0" unfolding u128_def using uint_lt2p [of ulo]
      by (auto simp: add_nonneg_eq_0_iff)
    then show ?thesis using assms(1) True by (simp add: uint_0_iff neg128_def) 
  qed simp
  then show ?thesis unfolding s128_u128 using False assms(2) by auto
qed

lemma sint_small: "uint r < 2 ^ 63 \<Longrightarrow> sint (if neg then - r else r) = (if neg then - uint r else uint r)" for r :: u64
  by (auto simp: sint_u64 uint_neg_u64 uint_0_iff)

text \<open>
  C30. The portable signed 128 by 64 bit division is C's: the quotient is truncated towards zero
  and the remainder has the sign of the dividend, for every non-zero divisor but the one quotient
  that does not fit, the smallest number divided by minus one.
\<close>

theorem divs128_exact:
  assumes d: "divisor \<noteq> 0" and fits: "\<not> (s128 lo hi = - (2 ^ 127) \<and> sint divisor = - 1)"
  shows "\<exists>qlo qhi rem. divs128 lo hi divisor = Some (qlo, qhi, rem)
     \<and> s128 qlo qhi = s128 lo hi sdiv sint divisor \<and> sint rem = s128 lo hi smod sint divisor"
proof -
  let ?N = "s128 lo hi" and ?D = "sint divisor" and ?neg = "(sint hi < 0) \<noteq> (sint divisor < 0)"
  define a where "a = (if sint divisor < 0 then - divisor else divisor)"
  have a: "uint a = \<bar>?D\<bar>" "a \<noteq> 0" unfolding a_def uint_abs_u64 using d by (auto simp: uint_abs_u64)
  obtain ulo uhi where u: "(if sint hi < 0 then neg128 lo hi else (lo, hi)) = (ulo, uhi)" by fastforce
  obtain vlo vhi r where v: "divu128 ulo uhi a = Some (vlo, vhi, r)" "quot_rem (unat uhi * 2 ^ 64 + unat ulo) (unat a) (vlo, vhi, r)"
    by (rule divu128_value [OF a(2)])
  obtain qlo qhi where q: "(if ?neg then neg128 vlo vhi else (vlo, vhi)) = (qlo, qhi)" by fastforce
  have "u128 vlo vhi = u128 ulo uhi div uint a" "uint r = u128 ulo uhi mod uint a"
    using quot_rem_div [OF v(2), THEN arg_cong [where f = int]] by (simp_all add: u128_def zdiv_int zmod_int)
  then have mag: "u128 vlo vhi = \<bar>?N\<bar> div \<bar>?D\<bar>" "uint r = \<bar>?N\<bar> mod \<bar>?D\<bar>" by (simp_all only: u128_abs [OF u] a)
  have D: "0 < \<bar>?D\<bar>" "\<bar>?D\<bar> \<le> 2 ^ 63" using d sint_greater_eq [of divisor] sint_less [of divisor] by (auto simp: signed_eq_0_iff)
  have N: "\<bar>?N\<bar> \<le> 2 ^ 127" "0 \<le> ?N \<Longrightarrow> \<bar>?N\<bar> < 2 ^ 127" using s128_range [of lo hi] by auto
  have "u128 vlo vhi < 2 ^ 127 + of_bool ?neg"
  proof (cases "?neg \<or> 0 \<le> ?N")
    case True
    have "\<bar>?N\<bar> div \<bar>?D\<bar> \<le> \<bar>?N\<bar>" using zdiv_mono2 [of "\<bar>?N\<bar>" 1 "\<bar>?D\<bar>"] D(1) by simp
    with N True show ?thesis unfolding mag s128_neg [of hi lo] by auto
  next
    case False
    then have neg: "?N < 0" "?D < 0" using s128_neg [of hi lo] by auto
    show ?thesis
    proof (cases "?D = - 1")
      case True
      with fits N(1) neg(1) show ?thesis unfolding mag by auto
    next
      case False
      with neg(2) have "\<bar>?N\<bar> div \<bar>?D\<bar> \<le> \<bar>?N\<bar> div 2" by (intro zdiv_mono2) auto
      also have "\<dots> < 2 ^ 127" using N(1) by simp
      finally show ?thesis unfolding mag by simp
    qed
  qed
  note s128_signed [OF q this]
  moreover have "uint r < 2 ^ 63" unfolding mag(2) using pos_mod_bound [OF D(1), of "\<bar>?N\<bar>"] D(2) by linarith
  note sint_small [OF this, of "sint hi < 0"]
  ultimately have "s128 qlo qhi = ?N sdiv ?D" "sint (if sint hi < 0 then - r else r) = ?N smod ?D"
    unfolding mag signed_divide_int_def signed_modulo_int_def s128_neg [of hi lo] using D(1)
    by (auto simp: sgn_if)
  moreover have "divs128 lo hi divisor = Some (qlo, qhi, if sint hi < 0 then - r else r)"
    using u v(1) q by (simp add: divs128_def Let_def flip: a_def)
  ultimately show ?thesis by blast
qed

theorem divs128_exact_witness:
  "\<exists>qlo qhi rem. divs128 (- 7) (- 1) 2 = Some (qlo, qhi, rem) \<and> s128 qlo qhi = - 3 \<and> sint rem = - 1"
proof -
  have "s128 (- 7) (- 1) = - 7" by (simp add: s128_def uint_neg_u64)
  then show ?thesis using divs128_exact [of 2 "- 7" "- 1"] by (simp add: signed_divide_int_def signed_modulo_int_def)
qed

end
