(* ===== verification/Host_Clock.thy ===== *)
theory Host_Clock
  imports Host_Utils
begin

text \<open>
  The 96-bit scaling \<open>muldiv64\<close> of \<open>include/qemu/host-utils.h\<close> in its two builds, and the
  conversions of \<open>include/hw/core/clock.h\<close> between time and ticks.
\<close>

section \<open>Scaling\<close>

text \<open>The build with a 128-bit type, and the build without one.\<close>

definition muldiv64 :: "u64 \<Rightarrow> u32 \<Rightarrow> u32 \<Rightarrow> u64 option" where
  "muldiv64 a b c = (if c = 0 then None else Some (of_nat (unat a * unat b div unat c)))"

definition muldiv64_round_up :: "u64 \<Rightarrow> u32 \<Rightarrow> u32 \<Rightarrow> u64 option" where
  "muldiv64_round_up a b c = (if c = 0 then None else Some (of_nat ((unat a * unat b + unat c - 1) div unat c)))"

definition muldiv64_rounding :: "u64 \<Rightarrow> u32 \<Rightarrow> u32 \<Rightarrow> bool \<Rightarrow> u64 option" where
  "muldiv64_rounding a b c round_up =
     (if c = 0 then None
      else
        let b = ucast b; c = ucast c;
            rl = lo32 a * b;
            rl = (if round_up then rl + (c - 1) else rl);
            rh = hi32 a * b + drop_bit 32 rl
        in Some (ll32 ((push_bit 32 (rh mod c) + take_bit 32 rl) div c) (rh div c)))"

section \<open>Clocks\<close>

text \<open>A clock's period is in units of \<open>2\<^sup>-\<^sup>3\<^sup>2\<close> ns.\<close>

definition clock_ns_to_ticks :: "u64 \<Rightarrow> u64 \<Rightarrow> u64 option" where
  "clock_ns_to_ticks period ns =
     (let lo = push_bit 32 ns; hi = drop_bit 32 ns in
      if period = 0 then Some 0
      else do { (lo, hi, rem) \<leftarrow> divu128 lo hi period; Some lo })"

definition clock_ticks_to_ns :: "u64 \<Rightarrow> u64 \<Rightarrow> u64" where
  "clock_ticks_to_ns period ticks =
     (let (ns_low, ns_high) = mulu64 period ticks in
      if ns_high AND push_bit 31 (mask 33) \<noteq> 0 then mask 63
      else drop_bit 32 ns_low OR push_bit 32 ns_high)"

section \<open>Scaling and clocks\<close>

text \<open>The long division by a 32-bit divisor, as numbers.\<close>

lemma muldiv_columns:
  fixes B :: nat
  assumes "0 < B" "0 < c" "c \<le> B"
  shows "(rh * B + l) div c = rh div c * B + (rh mod c * B + l) div c" and "l < B \<Longrightarrow> (rh mod c * B + l) div c < B"
proof -
  have eq: "rh * B + l = (rh mod c * B + l) + rh div c * B * c"
  proof -
    have "rh * B = (rh div c * c + rh mod c) * B" by simp
    then show ?thesis by (simp only: algebra_simps)
  qed
  then show "(rh * B + l) div c = rh div c * B + (rh mod c * B + l) div c"
    unfolding eq using assms(2) by (simp only: div_mult_self1 neq0_conv)
  assume l: "l < B"
  have "rh mod c * B + l < Suc (rh mod c) * B" using l by simp
  also have "\<dots> \<le> c * B" using mod_less_divisor [OF assms(2), of rh] by (intro mult_le_mono1) simp
  finally show "(rh mod c * B + l) div c < B" by (simp add: less_mult_imp_div_less mult.commute)
qed

lemma muldiv_total:
  fixes B :: nat
  shows "a = ad * B + am \<Longrightarrow> rl = am * b + e \<Longrightarrow> rl = q * B + r \<Longrightarrow> a * b + e = (ad * b + q) * B + r"
  by algebra

lemma mod_two_digits:
  fixes B :: nat
  assumes "l < B"
  shows "(h * B + l) mod (B * B) = h mod B * B + l"
proof -
  have "(h * B + l) mod (B * B) = B * ((h * B + l) div B mod B) + (h * B + l) mod B" by (rule mod_mult2_eq)
  then show ?thesis using assms by simp
qed

lemma muldiv64_rounding_value:
  assumes c: "c \<noteq> 0"
  shows "muldiv64_rounding a b c up = Some (of_nat ((unat a * unat b + (if up then unat c - 1 else 0)) div unat c))"
proof -
  let ?B = "2 ^ 32 :: nat" and ?e = "if up then unat c - 1 else 0"
  define rl where "rl = (let rl = lo32 a * ucast b in if up then rl + (ucast c - 1) else rl)"
  define rh where "rh = hi32 a * ucast b + drop_bit 32 rl"
  have b: "unat (ucast b :: u64) = unat b" "unat (ucast c :: u64) = unat c" by (simp_all only: unat_ucast_u64)
  have lim: "unat a mod ?B < ?B" "unat a div ?B < ?B" "unat b < ?B" "unat c < ?B"
    using unsigned_less [of a, where ?'a = nat] unsigned_less [of b, where ?'a = nat] unsigned_less [of c, where ?'a = nat]
    by (simp_all add: less_mult_imp_div_less)
  have prod: "unat (lo32 a * ucast b) = unat a mod ?B * unat b" "unat (hi32 a * ucast b) = unat a div ?B * unat b"
    using lim by (simp_all only: unat_mul_half unat_lo32 unat_hi32 b)
  have low: "unat a mod ?B * unat b \<le> (?B - 1) * (?B - 1)" "unat a div ?B * unat b \<le> (?B - 1) * (?B - 1)"
    using lim by (intro mult_le_mono; simp)+
  have "unat (ucast c - 1 :: u64) = unat c - 1" using c b(2) by (subst unat_dec_word) (auto simp: word_unat_eq_iff)
  then have rl: "unat rl = unat a mod ?B * unat b + ?e"
    unfolding rl_def using low(1) lim(4) prod(1) by (simp add: unat_add_small)
  have rlB: "unat rl div ?B < ?B" using unsigned_less [of rl, where ?'a = nat] by (simp add: less_mult_imp_div_less)
  have rh: "unat rh = unat a div ?B * unat b + unat rl div ?B"
    unfolding rh_def using low(2) rlB prod(2) by (subst unat_add_small) (simp_all only: unat_drop, simp)
  have total: "unat a * unat b + ?e = unat rh * ?B + unat rl mod ?B"
    unfolding rh by (rule muldiv_total) (simp_all only: div_mult_mod_eq rl)
  have cB: "0 < unat c" "unat c \<le> ?B" using c lim(4) by (simp_all add: unat_gt_0)
  define x where "x = (push_bit 32 (rh mod ucast c) + take_bit 32 rl) div (ucast c :: u64)"
  have "unat rh mod unat c < ?B" using mod_less_divisor [OF cB(1), of "unat rh"] lim(4) by simp
  then have R: "unat rh mod unat c * ?B \<le> (?B - 1) * ?B" by (intro mult_le_mono1) simp
  then have p: "unat (push_bit 32 (rh mod ucast c)) = unat rh mod unat c * ?B"
    unfolding unat_push unat_mod_word b by (intro mod_less) simp
  have ux: "unat x = (unat rh mod unat c * ?B + unat rl mod ?B) div unat c"
  proof -
    have "unat rl mod ?B < ?B" by simp
    with R have "unat rh mod unat c * ?B + unat rl mod ?B < 2 ^ 64" by simp
    then show ?thesis unfolding x_def unat_div_word b by (subst unat_add_small) (simp_all only: p unat_take, simp)
  qed
  have "unat (ll32 x (rh div ucast c)) = unat rh div unat c mod ?B * ?B + unat x mod ?B"
    by (simp only: unat_ll32 unat_div_word b)
  also have "unat x mod ?B = unat x" unfolding ux using cB by (intro mod_less muldiv_columns(2)) simp_all
  also have "unat rh div unat c mod ?B * ?B + unat x = (unat rh div unat c * ?B + unat x) mod (?B * ?B)"
    unfolding ux using cB by (intro mod_two_digits [symmetric] muldiv_columns(2)) simp_all
  also have "unat rh div unat c * ?B + unat x = (unat a * unat b + ?e) div unat c"
    unfolding ux total using cB by (intro muldiv_columns(1) [symmetric]) simp_all
  finally have "ll32 x (rh div ucast c) = of_nat ((unat a * unat b + ?e) div unat c)"
    by (simp add: word_unat_eq_iff unat_of_nat)
  then show ?thesis using c by (simp add: muldiv64_rounding_def Let_def x_def rh_def rl_def)
qed

text \<open>
  C28. The two builds of the 96-bit scaling, with a 128-bit type and without one, give the same
  result for all arguments, rounding down and rounding up; both divide by zero on a zero divisor.
\<close>

theorem muldiv64_builds_agree:
  "muldiv64_rounding a b c False = muldiv64 a b c \<and> muldiv64_rounding a b c True = muldiv64_round_up a b c"
proof (cases "c = 0")
  case False
  then have "unat a * unat b + (unat c - 1) = unat a * unat b + unat c - 1" by (simp add: unat_gt_0 Suc_leI)
  with False show ?thesis by (simp add: muldiv64_rounding_value muldiv64_def muldiv64_round_up_def)
qed (simp add: muldiv64_rounding_def muldiv64_def muldiv64_round_up_def)

lemma clock_ns_to_ticks_value:
  assumes "period \<noteq> 0"
  shows "clock_ns_to_ticks period ns = Some (of_nat (unat ns * 2 ^ 32 div unat period))"
proof -
  have "unat ns * 2 ^ 32 = unat (drop_bit 32 ns) * 2 ^ 64 + unat (push_bit 32 ns)"
    using shift_wide [of 32 0 ns] by simp
  moreover obtain lo hi r where v: "divu128 (push_bit 32 ns) (drop_bit 32 ns) period = Some (lo, hi, r)"
      "quot_rem (unat (drop_bit 32 ns) * 2 ^ 64 + unat (push_bit 32 ns)) (unat period) (lo, hi, r)"
    by (rule divu128_value [OF assms])
  moreover note quot_rem_div(1) [OF v(2)]
  ultimately have "unat hi * 2 ^ 64 + unat lo = unat ns * 2 ^ 32 div unat period" by metis
  moreover have "of_nat (unat hi * 2 ^ 64 + unat lo) = lo"
    using unsigned_less [of lo, where ?'a = nat] by (simp only: word_unat_eq_iff unat_of_nat) simp
  ultimately have "lo = of_nat (unat ns * 2 ^ 32 div unat period)" by metis
  then show ?thesis using assms v(1) by (simp add: clock_ns_to_ticks_def)
qed

lemma clock_high_bits: "hi AND push_bit 31 (mask 33) = 0 \<longleftrightarrow> unat hi < 2 ^ 31" for hi :: u64
proof -
  have "hi AND push_bit 31 (mask 33) = hi AND NOT (mask 31)"
    by (rule bit_eqI) (auto simp: wbits bit_mask_iff dest: bit_imp_le_length)
  moreover have "unat (hi AND NOT (mask 31)) = 0 \<longleftrightarrow> unat hi < 2 ^ 31"
    unfolding unat_align by (simp add: div_eq_0_iff)
  ultimately show ?thesis by (simp add: unat_eq_zero)
qed

lemma clock_ticks_to_ns_value: "unat (clock_ticks_to_ns period t) = min (unat period * unat t div 2 ^ 32) (2 ^ 63 - 1)"
proof -
  obtain lo hi where m: "mul64 period t = (lo, hi)" by fastforce
  have "unat period * unat t div 2 ^ 32 = (unat lo + unat hi * 2 ^ 32 * 2 ^ 32) div 2 ^ 32"
    using mul64_value [OF m] by (simp add: add.commute)
  also have "\<dots> = unat hi * 2 ^ 32 + unat lo div 2 ^ 32" by (subst div_mult_self1) simp_all
  finally have q: "unat period * unat t div 2 ^ 32 = unat hi * 2 ^ 32 + unat lo div 2 ^ 32" .
  have l: "unat lo div 2 ^ 32 < 2 ^ 32" using unsigned_less [of lo, where ?'a = nat] by (simp add: less_mult_imp_div_less)
  show ?thesis
  proof (cases "unat hi < 2 ^ 31")
    case True
    then have h: "unat hi * 2 ^ 32 \<le> (2 ^ 31 - 1) * 2 ^ 32" by (intro mult_le_mono1) simp
    then have "unat (push_bit 32 hi OR drop_bit 32 lo) = unat hi * 2 ^ 32 + unat lo div 2 ^ 32"
      using l by (subst unat_push_or) (simp_all only: unat_drop, simp)
    then have "unat (clock_ticks_to_ns period t) = unat hi * 2 ^ 32 + unat lo div 2 ^ 32"
      using True m clock_high_bits [of hi] by (simp add: clock_ticks_to_ns_def mulu64_def or.commute)
    then show ?thesis unfolding q using h l by simp
  next
    case False
    then have "2 ^ 63 \<le> unat hi * 2 ^ 32" by simp
    then have "min (unat period * unat t div 2 ^ 32) (2 ^ 63 - 1) = 2 ^ 63 - 1" unfolding q by simp
    moreover have "clock_ticks_to_ns period t = mask 63"
      using False m clock_high_bits [of hi] by (simp add: clock_ticks_to_ns_def mulu64_def)
    ultimately show ?thesis by (simp add: mask_eq_exp_minus_1)
  qed
qed

text \<open>
  C29. Time and ticks convert back and forth: with a period of at least a nanosecond, a number of
  ticks turned into time and back, as long as the time fits in 63 bits, gives the same number of
  ticks or one less.
\<close>

theorem clock_roundtrip:
  assumes "2 ^ 32 \<le> unat period" "unat period * unat t < 2 ^ 95"
  shows "\<exists>t'. clock_ns_to_ticks period (clock_ticks_to_ns period t) = Some t' \<and> unat t' \<le> unat t \<and> unat t \<le> unat t' + 1"
proof -
  define n where "n = unat period * unat t div 2 ^ 32"
  define q where "q = n * 2 ^ 32 div unat period"
  have "n < 2 ^ 63" using assms(2) by (simp add: n_def less_mult_imp_div_less)
  then have n: "unat (clock_ticks_to_ns period t) = n" unfolding clock_ticks_to_ns_value n_def [symmetric] by simp
  have le: "n * 2 ^ 32 \<le> unat t * unat period" by (simp add: n_def mult.commute [of "unat t"])
  have p: "0 < unat period" using assms(1) by (rule less_le_trans [rotated]) simp
  have qt: "q \<le> unat t" using div_le_mono [OF le, of "unat period"] p by (simp add: q_def)
  have "unat period * unat t < n * 2 ^ 32 + 2 ^ 32"
    using dividend_less_div_times [of "2 ^ 32" "unat period * unat t"] unfolding n_def by (simp add: add.commute)
  also have "\<dots> \<le> n * 2 ^ 32 + unat period" using assms(1) by simp
  finally have "(unat t - 1) * unat period \<le> n * 2 ^ 32" by (cases "unat t") (simp_all add: mult.commute)
  then have tq: "unat t - 1 \<le> q" unfolding q_def using div_le_mono [of "(unat t - 1) * unat period" _ "unat period"] p by fastforce
  have "q < 2 ^ 64" using qt unsigned_less [of t, where ?'a = nat] by simp
  then have "unat (of_nat q :: u64) = q" by (simp add: unat_of_nat)
  moreover have "clock_ns_to_ticks period (clock_ticks_to_ns period t) = Some (of_nat q)"
    using p by (subst clock_ns_to_ticks_value) (auto simp: n q_def unat_gt_0)
  ultimately show ?thesis using qt tq by auto
qed

theorem clock_roundtrip_witness:
  "\<exists>t'. clock_ns_to_ticks 0x155555555555 (clock_ticks_to_ns 0x155555555555 1000) = Some t' \<and> unat t' \<le> 1000 \<and> 1000 \<le> unat t' + 1"
  using clock_roundtrip [of "0x155555555555" 1000] by simp

end
