(* ===== verification/QTimer.thy ===== *)
theory QTimer
  imports Prelude
begin

text \<open>
  The timer list of \<open>util/qemu-timer.c\<close>: timers armed on a clock, chained in the order they expire,
  and the main loop's run over the expired ones. A timer is a number (its address), the chain
  \<open>active_timers\<close> a list of them. The clock's reading, the outcome of a replay checkpoint and the
  callbacks are arguments or fields; \<open>tl_dev\<close> is what the callbacks change.

  Times are 64-bit signed nanoseconds, as integers; where the code adds or subtracts them the result
  wraps. A timer with no list is a null pointer: \<open>None\<close>.
\<close>

datatype clock_type = QEMU_CLOCK_REALTIME | QEMU_CLOCK_VIRTUAL | QEMU_CLOCK_HOST | QEMU_CLOCK_VIRTUAL_RT

record qtimer =
  qt_expire :: int
  qt_attributes :: u32
  qt_scale :: int
  qt_timer_list :: bool

record 'w tlist =
  tl_type :: clock_type
  tl_enabled :: bool
  tl_now :: int
  tl_replay :: bool
  tl_active :: "nat list"
  tl_timer :: "nat \<Rightarrow> qtimer"
  tl_notified :: nat
  tl_cpu_work :: "nat list"
  tl_dev :: 'w

definition INT64_MAX :: int where "INT64_MAX = 2 ^ 63 - 1"
definition QEMU_TIMER_ATTR_EXTERNAL :: u32 where "QEMU_TIMER_ATTR_EXTERNAL = 1"
definition SCALE_MS :: int where "SCALE_MS = 1000000"

text \<open>Signed arithmetic wraps (the build sets \<open>-fwrapv\<close>).\<close>

definition wrap64 :: "int \<Rightarrow> int" where
  "wrap64 x = sint (word_of_int x :: u64)"

section \<open>Arming and disarming\<close>

abbreviation expire_time :: "'w tlist \<Rightarrow> nat \<Rightarrow> int" where
  "expire_time s t \<equiv> qt_expire (tl_timer s t)"

definition set_expire :: "'w tlist \<Rightarrow> nat \<Rightarrow> int \<Rightarrow> 'w tlist" where
  "set_expire s t e = s\<lparr>tl_timer := (tl_timer s)(t := (tl_timer s t)\<lparr>qt_expire := e\<rparr>)\<rparr>"

definition timer_expired_ns :: "'w tlist \<Rightarrow> nat option \<Rightarrow> int \<Rightarrow> bool" where
  "timer_expired_ns s head current_time = (case head of None \<Rightarrow> False | Some t \<Rightarrow> expire_time s t \<le> current_time)"

definition timer_init_full :: "'w tlist \<Rightarrow> nat \<Rightarrow> int \<Rightarrow> u32 \<Rightarrow> 'w tlist" where
  "timer_init_full s t scale attributes =
     s\<lparr>tl_timer := (tl_timer s)(t := \<lparr>qt_expire = - 1, qt_attributes = attributes, qt_scale = scale, qt_timer_list = True\<rparr>)\<rparr>"

definition timer_deinit :: "'w tlist \<Rightarrow> nat \<Rightarrow> 'w tlist option" where
  "timer_deinit s t =
     do { cassert (expire_time s t = - 1);
          Some (s\<lparr>tl_timer := (tl_timer s)(t := (tl_timer s t)\<lparr>qt_timer_list := False\<rparr>)\<rparr>) }"

definition timer_del_locked :: "'w tlist \<Rightarrow> nat \<Rightarrow> 'w tlist" where
  "timer_del_locked s t = (set_expire s t (- 1))\<lparr>tl_active := remove1 t (tl_active s)\<rparr>"

definition timerlist_notify :: "'w tlist \<Rightarrow> 'w tlist" where
  "timerlist_notify s = s\<lparr>tl_notified := Suc (tl_notified s)\<rparr>"

text \<open>The walk over the chain stops at the first timer that expires after the new one.\<close>

definition timer_mod_ns_locked :: "'w tlist \<Rightarrow> nat \<Rightarrow> int \<Rightarrow> bool \<times> 'w tlist" where
  "timer_mod_ns_locked s t e =
     (if tl_replay s \<and> tl_type s = QEMU_CLOCK_VIRTUAL \<and> qt_attributes (tl_timer s t) AND QEMU_TIMER_ATTR_EXTERNAL = 0 \<and> e \<le> tl_now s
      then (False, s\<lparr>tl_cpu_work := tl_cpu_work s @ [t]\<rparr>)
      else
        let before = takeWhile (\<lambda>u. timer_expired_ns s (Some u) e) (tl_active s);
            after = dropWhile (\<lambda>u. timer_expired_ns s (Some u) e) (tl_active s)
        in (before = [], (set_expire s t (max e 0))\<lparr>tl_active := before @ t # after\<rparr>))"

definition timer_del :: "'w tlist \<Rightarrow> nat \<Rightarrow> 'w tlist" where
  "timer_del s t = (if qt_timer_list (tl_timer s t) then timer_del_locked s t else s)"

definition timer_mod_ns :: "'w tlist \<Rightarrow> nat \<Rightarrow> int \<Rightarrow> 'w tlist option" where
  "timer_mod_ns s t e =
     (if qt_timer_list (tl_timer s t) then
        let (rearm, s1) = timer_mod_ns_locked (timer_del_locked s t) t e
        in Some (if rearm then timerlist_notify s1 else s1)
      else None)"

definition timer_mod_anticipate_ns :: "'w tlist \<Rightarrow> nat \<Rightarrow> int \<Rightarrow> 'w tlist option" where
  "timer_mod_anticipate_ns s t e =
     (if qt_timer_list (tl_timer s t) then
        let (rearm, s1) =
          (if expire_time s t = - 1 \<or> expire_time s t > e
           then timer_mod_ns_locked (if expire_time s t \<noteq> - 1 then timer_del_locked s t else s) t e
           else (False, s))
        in Some (if rearm then timerlist_notify s1 else s1)
      else None)"

definition timer_mod :: "'w tlist \<Rightarrow> nat \<Rightarrow> int \<Rightarrow> 'w tlist option" where
  "timer_mod s t e = timer_mod_ns s t (wrap64 (e * qt_scale (tl_timer s t)))"

definition timer_mod_anticipate :: "'w tlist \<Rightarrow> nat \<Rightarrow> int \<Rightarrow> 'w tlist option" where
  "timer_mod_anticipate s t e = timer_mod_anticipate_ns s t (wrap64 (e * qt_scale (tl_timer s t)))"

definition timer_pending :: "'w tlist \<Rightarrow> nat \<Rightarrow> bool" where
  "timer_pending s t = (expire_time s t \<ge> 0)"

definition timer_expire_time_ns :: "'w tlist \<Rightarrow> nat \<Rightarrow> u64" where
  "timer_expire_time_ns s t = (if timer_pending s t then of_int (expire_time s t) else - 1)"

section \<open>Deadlines\<close>

definition timerlist_has_timers :: "'w tlist \<Rightarrow> bool" where
  "timerlist_has_timers s = (tl_active s \<noteq> [])"

definition timerlist_expired :: "'w tlist \<Rightarrow> bool" where
  "timerlist_expired s = (case tl_active s of [] \<Rightarrow> False | t # _ \<Rightarrow> expire_time s t \<le> tl_now s)"

definition timerlist_deadline_ns :: "'w tlist \<Rightarrow> int" where
  "timerlist_deadline_ns s =
     (case tl_active s of [] \<Rightarrow> - 1
      | t # _ \<Rightarrow> if \<not> tl_enabled s then - 1
                 else let delta = wrap64 (expire_time s t - tl_now s) in if delta \<le> 0 then 0 else delta)"

definition qemu_soonest_timeout :: "int \<Rightarrow> int \<Rightarrow> int" where
  "qemu_soonest_timeout a b = (if (word_of_int a :: u64) < word_of_int b then a else b)"

text \<open>Over all the lists of a clock, skipping the timers with an attribute outside the mask.\<close>

fun qemu_clock_deadline_ns_all :: "bool \<Rightarrow> u32 \<Rightarrow> int \<Rightarrow> 'w tlist list \<Rightarrow> int \<Rightarrow> int" where
  "qemu_clock_deadline_ns_all enabled attr_mask now [] deadline = (if enabled then deadline else - 1)"
| "qemu_clock_deadline_ns_all enabled attr_mask now (l # ls) deadline =
     (if \<not> enabled then - 1
      else case dropWhile (\<lambda>t. qt_attributes (tl_timer l t) AND NOT attr_mask \<noteq> 0) (tl_active l) of
        [] \<Rightarrow> qemu_clock_deadline_ns_all enabled attr_mask now ls deadline
      | t # _ \<Rightarrow> qemu_clock_deadline_ns_all enabled attr_mask now ls
                  (qemu_soonest_timeout deadline (max 0 (wrap64 (expire_time l t - now)))))"

definition qemu_timeout_ns_to_ms :: "int \<Rightarrow> int" where
  "qemu_timeout_ns_to_ms ns =
     (if ns < 0 then - 1 else if ns = 0 then 0
      else let n = wrap64 (ns + SCALE_MS - 1) in min (if n < 0 then - ((- n) div SCALE_MS) else n div SCALE_MS) (2 ^ 31 - 1))"

definition qemu_clock_enable :: "'w tlist \<Rightarrow> bool \<Rightarrow> 'w tlist" where
  "qemu_clock_enable s enabled =
     (let s1 = s\<lparr>tl_enabled := enabled\<rparr> in if enabled \<and> \<not> tl_enabled s then timerlist_notify s1 else s1)"

section \<open>Running the expired timers\<close>

text \<open>
  The loop of \<open>timerlist_run_timers\<close>. A callback may arm timers again, so the loop may go on for
  ever: then it has no value. \<open>cp n\<close> is the answer of the replay checkpoint before the \<open>n\<close>-th timer,
  \<open>cp 0\<close> the one before the loop.
\<close>

definition timer_unchain :: "'w tlist \<Rightarrow> nat \<Rightarrow> nat list \<Rightarrow> 'w tlist" where
  "timer_unchain s t rest = (set_expire s t (- 1))\<lparr>tl_active := rest\<rparr>"

partial_function (option) timerlist_loop ::
  "(nat \<Rightarrow> 'w tlist \<Rightarrow> 'w tlist option) \<Rightarrow> (nat \<Rightarrow> bool) \<Rightarrow> int \<Rightarrow> nat \<Rightarrow> bool \<Rightarrow> 'w tlist \<Rightarrow> (bool \<times> 'w tlist) option" where
  "timerlist_loop cb cp current_time n progress s =
     (case tl_active s of
        [] \<Rightarrow> Some (progress, s)
      | t # rest \<Rightarrow>
          if \<not> timer_expired_ns s (Some t) current_time then Some (progress, s)
          else if tl_replay s \<and> tl_type s = QEMU_CLOCK_VIRTUAL \<and> qt_attributes (tl_timer s t) AND QEMU_TIMER_ATTR_EXTERNAL = 0 \<and> \<not> cp n
          then Some (progress, s)
          else do { s1 \<leftarrow> cb t (timer_unchain s t rest); timerlist_loop cb cp current_time (Suc n) True s1 })"

definition timerlist_run_timers ::
  "(nat \<Rightarrow> 'w tlist \<Rightarrow> 'w tlist option) \<Rightarrow> (nat \<Rightarrow> bool) \<Rightarrow> 'w tlist \<Rightarrow> (bool \<times> 'w tlist) option" where
  "timerlist_run_timers cb cp s =
     (if tl_active s = [] then Some (False, s)
      else if \<not> tl_enabled s then Some (False, s)
      else if (tl_type s = QEMU_CLOCK_HOST \<or> tl_type s = QEMU_CLOCK_VIRTUAL_RT) \<and> \<not> cp 0 then Some (False, s)
      else timerlist_loop cb cp (tl_now s) 1 False s)"

section \<open>The chain\<close>

text \<open>The chain holds exactly the armed timers, each once, in the order of their deadlines.\<close>

definition tl_ok :: "'w tlist \<Rightarrow> bool" where
  "tl_ok s = (distinct (tl_active s) \<and> sorted (map (expire_time s) (tl_active s))
     \<and> (\<forall>t. (t \<in> set (tl_active s) \<longleftrightarrow> 0 \<le> expire_time s t) \<and> - 1 \<le> expire_time s t))"

text \<open>What a client sees: the deadline of each armed timer.\<close>

definition deadlines :: "'w tlist \<Rightarrow> nat \<rightharpoonup> int" where
  "deadlines s t = (if t \<in> set (tl_active s) then Some (expire_time s t) else None)"

lemmas tl_defs = set_expire_def timer_unchain_def timerlist_notify_def

lemma tl_notify [simp]: "tl_ok (timerlist_notify s) = tl_ok s" "deadlines (timerlist_notify s) = deadlines s"
  by (simp_all add: tl_ok_def deadlines_def timerlist_notify_def fun_eq_iff)

text \<open>Taking a timer off the chain.\<close>

lemma tl_del:
  assumes "tl_ok s"
  shows "tl_ok (timer_del_locked s t)" and "deadlines (timer_del_locked s t) = (deadlines s)(t := None)"
proof -
  let ?s = "timer_del_locked s t"
  from assms have d: "distinct (tl_active s)" by (simp add: tl_ok_def)
  then have act: "tl_active ?s = filter (\<lambda>u. u \<noteq> t) (tl_active s)"
    by (simp add: timer_del_locked_def distinct_remove1_removeAll removeAll_filter_not_eq eq_commute)
  have exp: "expire_time ?s u = (if u = t then - 1 else expire_time s u)" for u
    by (simp add: timer_del_locked_def tl_defs)
  have "map (expire_time ?s) (tl_active ?s) = map (expire_time s) (tl_active ?s)" by (simp add: act exp)
  moreover have "sorted (map (expire_time s) (tl_active ?s))" using assms unfolding act tl_ok_def by (intro sorted_filter) blast
  ultimately have "sorted (map (expire_time ?s) (tl_active ?s))" by (simp only:)
  then show "tl_ok ?s" using assms d unfolding tl_ok_def exp by (auto simp: act)
  show "deadlines ?s = (deadlines s)(t := None)" by (rule ext) (simp add: deadlines_def act exp)
qed

text \<open>Putting a timer that is not armed on the chain.\<close>

lemma walk_set: "set (takeWhile P xs @ x # dropWhile P xs) = insert x (set xs)"
  by (induction xs) auto

lemma walk_distinct: "x \<notin> set xs \<Longrightarrow> distinct xs \<Longrightarrow> distinct (takeWhile P xs @ x # dropWhile P xs)"
proof (induction xs)
  case (Cons a xs)
  then show ?case using walk_set [of P xs x] by auto
qed simp

lemma walk_sorted:
  fixes f g :: "'a \<Rightarrow> int"
  assumes "sorted (map f xs)" "x \<notin> set xs" "\<forall>u \<in> set xs. 0 \<le> f u"
    and g: "g x = max e 0" "\<And>u. u \<noteq> x \<Longrightarrow> g u = f u"
  shows "sorted (map g (takeWhile (\<lambda>u. f u \<le> e) xs @ x # dropWhile (\<lambda>u. f u \<le> e) xs))"
  using assms(1-3)
proof (induction xs)
  case (Cons a xs)
  let ?W = "takeWhile (\<lambda>u. f u \<le> e) xs @ x # dropWhile (\<lambda>u. f u \<le> e) xs"
  have ga: "g a = f a" and gx: "\<forall>u \<in> set xs. g u = f u" using Cons.prems(2) by (auto intro: g(2))
  show ?case
  proof (cases "f a \<le> e")
    case True
    have "\<forall>u \<in> set ?W. g a \<le> g u" unfolding walk_set ga using True Cons.prems(1) gx g(1) by auto
    moreover have "sorted (map g ?W)" using Cons by simp
    ultimately show ?thesis using True by auto
  next
    case False
    have "sorted (map g xs)" using gx Cons.prems(1) by (metis list.simps(9) map_eq_conv sorted_wrt.simps(2))
    with False Cons.prems ga gx g(1) show ?thesis by auto
  qed
qed (simp add: g)

lemma tl_insert:
  fixes e :: int
  assumes ok: "tl_ok s" and t: "t \<notin> set (tl_active s)"
  defines "P \<equiv> \<lambda>u. timer_expired_ns s (Some u) e"
  defines "s' \<equiv> (set_expire s t (max e 0))\<lparr>tl_active := takeWhile P (tl_active s) @ t # dropWhile P (tl_active s)\<rparr>"
  shows "tl_ok s'" and "deadlines s' = (deadlines s)(t \<mapsto> max e 0)"
proof -
  have P: "P = (\<lambda>u. expire_time s u \<le> e)" by (simp add: P_def timer_expired_ns_def)
  have exp: "expire_time s' = (expire_time s)(t := max e 0)" by (simp add: s'_def tl_defs fun_eq_iff)
  have act: "tl_active s' = takeWhile P (tl_active s) @ t # dropWhile P (tl_active s)" by (simp add: s'_def)
  have mem: "set (tl_active s') = insert t (set (tl_active s))" unfolding act by (rule walk_set)
  have "sorted (map (expire_time s') (tl_active s'))" unfolding act exp P
    by (rule walk_sorted [where f = "expire_time s"]) (use ok t in \<open>auto simp: tl_ok_def\<close>)
  moreover have "distinct (tl_active s')" unfolding act using ok t by (intro walk_distinct) (simp_all add: tl_ok_def)
  moreover have "(u \<in> set (tl_active s') \<longleftrightarrow> 0 \<le> expire_time s' u) \<and> - 1 \<le> expire_time s' u" for u
    by (cases "u = t") (use ok in \<open>simp_all add: mem fun_cong [OF exp] tl_ok_def\<close>)
  ultimately show "tl_ok s'" by (simp add: tl_ok_def)
  show "deadlines s' = (deadlines s)(t \<mapsto> max e 0)" by (rule ext) (simp add: deadlines_def mem fun_cong [OF exp])
qed

text \<open>
  Arming refines an update of the deadlines. Under replay an already expired timer of the virtual
  clock becomes work for the CPU instead and is not armed.
\<close>

definition arm :: "'w tlist \<Rightarrow> nat \<Rightarrow> int \<Rightarrow> int option" where
  "arm s t e = (if tl_replay s \<and> tl_type s = QEMU_CLOCK_VIRTUAL \<and> qt_attributes (tl_timer s t) AND QEMU_TIMER_ATTR_EXTERNAL = 0 \<and> e \<le> tl_now s
     then None else Some (max e 0))"

text \<open>What the operations on timers leave alone: the clock, and every timer's settings.\<close>

definition tl_same :: "'w tlist \<Rightarrow> 'w tlist \<Rightarrow> bool" where
  "tl_same s s' = (tl_type s' = tl_type s \<and> tl_enabled s' = tl_enabled s \<and> tl_now s' = tl_now s \<and> tl_replay s' = tl_replay s
     \<and> (\<forall>t. qt_attributes (tl_timer s' t) = qt_attributes (tl_timer s t) \<and> qt_scale (tl_timer s' t) = qt_scale (tl_timer s t)
          \<and> qt_timer_list (tl_timer s' t) = qt_timer_list (tl_timer s t)))"

lemma tl_same_refl [simp]: "tl_same s s"
  by (simp add: tl_same_def)

lemma tl_same_trans: "tl_same s s' \<Longrightarrow> tl_same s' s'' \<Longrightarrow> tl_same s s''"
  by (simp add: tl_same_def)

lemma tl_same_del: "tl_same s (timer_del_locked s t)" "tl_same s (timer_unchain s t rest)" "tl_same s (timerlist_notify s)"
  by (simp_all add: tl_same_def timer_del_locked_def tl_defs)

lemma tl_same_arm: "tl_same s s' \<Longrightarrow> arm s' t e = arm s t e"
  by (simp add: tl_same_def arm_def)

lemma deadlines_None: "tl_ok s \<Longrightarrow> deadlines s t = None \<longleftrightarrow> expire_time s t = - 1"
proof -
  assume "tl_ok s"
  then have "t \<in> set (tl_active s) \<longleftrightarrow> 0 \<le> expire_time s t" "- 1 \<le> expire_time s t" by (auto simp: tl_ok_def)
  then show ?thesis by (simp add: deadlines_def)
qed

lemma tl_mod_locked:
  assumes ok: "tl_ok s" and t: "deadlines s t = None"
  obtains r s' where "timer_mod_ns_locked s t e = (r, s')" "tl_ok s'" "deadlines s' = (deadlines s)(t := arm s t e)"
    "tl_same s s'" "tl_dev s' = tl_dev s"
proof (cases "arm s t e = None")
  case True
  let ?s = "s\<lparr>tl_cpu_work := tl_cpu_work s @ [t]\<rparr>"
  have "timer_mod_ns_locked s t e = (False, ?s)" using True by (auto simp: timer_mod_ns_locked_def arm_def split: if_splits)
  moreover have "tl_ok ?s" using ok by (simp add: tl_ok_def)
  moreover have "deadlines ?s = (deadlines s)(t := arm s t e)" using t True by (auto simp: deadlines_def fun_eq_iff split: if_splits)
  moreover have "tl_same s ?s" "tl_dev ?s = tl_dev s" by (simp_all add: tl_same_def)
  ultimately show thesis by (rule that)
next
  case False
  then have a: "arm s t e = Some (max e 0)" by (auto simp: arm_def)
  have n: "t \<notin> set (tl_active s)" using t by (auto simp: deadlines_def split: if_splits)
  let ?P = "\<lambda>u. timer_expired_ns s (Some u) e"
  let ?s = "(set_expire s t (max e 0))\<lparr>tl_active := takeWhile ?P (tl_active s) @ t # dropWhile ?P (tl_active s)\<rparr>"
  have "timer_mod_ns_locked s t e = (takeWhile ?P (tl_active s) = [], ?s)"
    using False unfolding timer_mod_ns_locked_def arm_def Let_def by (auto split: if_splits)
  moreover have "tl_same s ?s" "tl_dev ?s = tl_dev s" by (simp_all add: tl_same_def tl_defs)
  ultimately show thesis using that [of _ ?s] tl_insert [OF ok n, of e] a by simp
qed

lemma tl_mod_ns:
  assumes ok: "tl_ok s" and l: "qt_timer_list (tl_timer s t)"
  obtains s' where "timer_mod_ns s t e = Some s'" "tl_ok s'" "deadlines s' = (deadlines s)(t := arm s t e)"
    "tl_same s s'" "tl_dev s' = tl_dev s"
proof -
  let ?d = "timer_del_locked s t"
  have d: "tl_ok ?d" "deadlines ?d t = None" using tl_del [OF ok, of t] by simp_all
  obtain r s' where m: "timer_mod_ns_locked ?d t e = (r, s')" "tl_ok s'" "deadlines s' = (deadlines ?d)(t := arm ?d t e)"
      "tl_same ?d s'" "tl_dev s' = tl_dev ?d"
    by (rule tl_mod_locked [OF d])
  have "arm ?d t e = arm s t e" by (rule tl_same_arm [OF tl_same_del(1)])
  moreover have "tl_same s s'" by (rule tl_same_trans [OF tl_same_del(1) m(4)])
  moreover have "tl_dev s' = tl_dev s" using m(5) by (simp add: timer_del_locked_def tl_defs)
  moreover note tl_same_trans [OF \<open>tl_same s s'\<close> tl_same_del(3)]
  ultimately show thesis using that l m(1-3) tl_del(2) [OF ok, of t]
    by (cases r) (simp_all add: timer_mod_ns_def, simp add: timerlist_notify_def)
qed

lemma wrap64_id: "- (2 ^ 63) \<le> x \<Longrightarrow> x \<le> INT64_MAX \<Longrightarrow> wrap64 x = x"
  by (simp add: wrap64_def INT64_MAX_def signed_of_int signed_take_bit_int_eq_self)

lemma tl_anticipate:
  assumes ok: "tl_ok s" and l: "qt_timer_list (tl_timer s t)"
  obtains s' where "timer_mod_anticipate_ns s t e = Some s'" "tl_ok s'" "tl_same s s'" "tl_dev s' = tl_dev s"
    "deadlines s' = (if \<forall>f. deadlines s t = Some f \<longrightarrow> e < f then (deadlines s)(t := arm s t e) else deadlines s)"
proof (cases "deadlines s t")
  case None
  have "expire_time s t = - 1" using None ok by (simp add: deadlines_None)
  moreover obtain r s' where m: "timer_mod_ns_locked s t e = (r, s')" "tl_ok s'" "deadlines s' = (deadlines s)(t := arm s t e)"
      "tl_same s s'" "tl_dev s' = tl_dev s"
    by (rule tl_mod_locked [OF ok None])
  moreover note tl_same_trans [OF m(4) tl_same_del(3)]
  ultimately show thesis using that l None
    by (cases r) (simp_all add: timer_mod_anticipate_ns_def, simp add: timerlist_notify_def)
next
  case (Some f)
  then have f: "f = expire_time s t" "expire_time s t \<noteq> - 1" using deadlines_None [OF ok, of t] by (auto simp: deadlines_def split: if_splits)
  show thesis
  proof (cases "e < f")
    case True
    obtain s' where m: "timer_mod_ns s t e = Some s'" "tl_ok s'" "deadlines s' = (deadlines s)(t := arm s t e)"
        "tl_same s s'" "tl_dev s' = tl_dev s"
      by (rule tl_mod_ns [OF ok l])
    moreover have "timer_mod_anticipate_ns s t e = timer_mod_ns s t e"
      using True f l by (simp add: timer_mod_anticipate_ns_def timer_mod_ns_def)
    ultimately show thesis using that True Some by simp
  next
    case False
    then have "timer_mod_anticipate_ns s t e = Some s" using f l by (simp add: timer_mod_anticipate_ns_def)
    then show thesis using that [of s] ok False Some by simp
  qed
qed

section \<open>The contract of the timer list\<close>

text \<open>The operations of a client, and what they do to the deadlines.\<close>

datatype timer_op = TMod nat int | TAnticipate nat int | TDel nat

fun timer_op_run :: "'w tlist \<Rightarrow> timer_op list \<Rightarrow> 'w tlist option" where
  "timer_op_run s [] = Some s"
| "timer_op_run s (TMod t e # os) = do { s1 \<leftarrow> timer_mod_ns s t e; timer_op_run s1 os }"
| "timer_op_run s (TAnticipate t e # os) = do { s1 \<leftarrow> timer_mod_anticipate_ns s t e; timer_op_run s1 os }"
| "timer_op_run s (TDel t # os) = timer_op_run (timer_del s t) os"

fun deadline_spec :: "(nat \<rightharpoonup> int) \<Rightarrow> timer_op \<Rightarrow> (nat \<rightharpoonup> int)" where
  "deadline_spec d (TMod t e) = d(t \<mapsto> max e 0)"
| "deadline_spec d (TAnticipate t e) = (if \<forall>f. d t = Some f \<longrightarrow> e < f then d(t \<mapsto> max e 0) else d)"
| "deadline_spec d (TDel t) = d(t := None)"

definition timeout_spec :: "(nat \<rightharpoonup> int) \<Rightarrow> int \<Rightarrow> int" where
  "timeout_spec d now = (if d = Map.empty then - 1 else max 0 (Min (ran d) - now))"

lemma timer_op_run_refines:
  assumes "tl_ok s" "\<not> tl_replay s" "\<forall>t. qt_timer_list (tl_timer s t)"
  shows "\<exists>s'. timer_op_run s os = Some s' \<and> tl_ok s' \<and> tl_same s s' \<and> deadlines s' = foldl deadline_spec (deadlines s) os"
  using assms
proof (induction os arbitrary: s)
  case (Cons o' os)
  have "\<exists>s1. timer_op_run s (o' # os) = timer_op_run s1 os \<and> tl_ok s1 \<and> tl_same s s1 \<and> deadlines s1 = deadline_spec (deadlines s) o'"
  proof (cases o')
    case (TMod t e)
    then show ?thesis using tl_mod_ns [OF Cons.prems(1), of t e] Cons.prems by (fastforce simp: arm_def)
  next
    case (TAnticipate t e)
    obtain s1 where "timer_mod_anticipate_ns s t e = Some s1" "tl_ok s1" "tl_same s s1"
        "deadlines s1 = (if \<forall>f. deadlines s t = Some f \<longrightarrow> e < f then (deadlines s)(t := arm s t e) else deadlines s)"
      using tl_anticipate [OF Cons.prems(1), of t e] Cons.prems(3) by metis
    then show ?thesis using TAnticipate Cons.prems(2) by (auto simp: arm_def)
  next
    case (TDel t)
    then show ?thesis using tl_del [OF Cons.prems(1), of t] tl_same_del(1) Cons.prems(3) by (auto simp: timer_del_def)
  qed
  then obtain s1 where s1: "timer_op_run s (o' # os) = timer_op_run s1 os" "tl_ok s1" "tl_same s s1"
      "deadlines s1 = deadline_spec (deadlines s) o'" by blast
  with Cons.prems have "\<not> tl_replay s1" "\<forall>t. qt_timer_list (tl_timer s1 t)" by (simp_all add: tl_same_def)
  from Cons.IH [OF s1(2) this] s1 show ?case using tl_same_trans by (metis foldl_Cons)
qed simp

lemma deadline_earliest:
  assumes "tl_ok s" "tl_enabled s" "0 \<le> tl_now s" "tl_now s \<le> INT64_MAX" "\<forall>e \<in> ran (deadlines s). e \<le> INT64_MAX"
  shows "timerlist_deadline_ns s = timeout_spec (deadlines s) (tl_now s)"
proof (cases "tl_active s")
  case Nil
  then have "deadlines s = Map.empty" by (simp add: deadlines_def fun_eq_iff)
  with Nil show ?thesis by (simp add: timerlist_deadline_ns_def timeout_spec_def)
next
  case (Cons t ts)
  have r: "ran (deadlines s) = expire_time s ` set (tl_active s)" by (auto simp: ran_def deadlines_def)
  have "0 \<le> expire_time s t" "expire_time s t \<le> INT64_MAX" using assms(1,5) r Cons by (auto simp: tl_ok_def)
  then have w: "wrap64 (expire_time s t - tl_now s) = expire_time s t - tl_now s"
    using assms(3,4) by (intro wrap64_id) (simp_all add: INT64_MAX_def)
  have "Min (expire_time s ` set (tl_active s)) = expire_time s t"
    using assms(1) unfolding Cons tl_ok_def by (intro Min_eqI) auto
  moreover have "deadlines s \<noteq> Map.empty" using Cons by (metis deadlines_def list.set_intros(1) option.distinct(1))
  ultimately show ?thesis using Cons assms(2) r w by (simp add: timerlist_deadline_ns_def timeout_spec_def Let_def)
qed

text \<open>
  C7. The timer list refines a table of deadlines: any sequence of arming, arming no later than
  before, and disarming leaves on the chain exactly the timers the table holds, in the order of
  their deadlines, and the main loop's timeout is the time to the earliest of them (for times and
  a clock reading that are 64-bit values, the reading not negative).
\<close>

theorem timer_list_refines:
  assumes "tl_ok s" "tl_enabled s" "\<not> tl_replay s" "\<forall>t. qt_timer_list (tl_timer s t)"
  shows "\<exists>s'. timer_op_run s os = Some s' \<and> tl_ok s' \<and> deadlines s' = foldl deadline_spec (deadlines s) os
     \<and> (0 \<le> tl_now s \<and> tl_now s \<le> INT64_MAX \<and> (\<forall>e \<in> ran (deadlines s'). e \<le> INT64_MAX) \<longrightarrow>
          timerlist_deadline_ns s' = timeout_spec (foldl deadline_spec (deadlines s) os) (tl_now s))"
proof -
  from timer_op_run_refines [OF assms(1,3,4), of os] obtain s' where
    s': "timer_op_run s os = Some s'" "tl_ok s'" "tl_same s s'" "deadlines s' = foldl deadline_spec (deadlines s) os" by blast
  then have "tl_enabled s'" "tl_now s' = tl_now s" using assms(2) by (simp_all add: tl_same_def)
  with s' deadline_earliest [of s'] show ?thesis by auto
qed

text \<open>A clock with no timer armed.\<close>

definition tl_sample :: "unit tlist" where
  "tl_sample = \<lparr>tl_type = QEMU_CLOCK_VIRTUAL, tl_enabled = True, tl_now = 100, tl_replay = False, tl_active = [],
     tl_timer = (\<lambda>_. \<lparr>qt_expire = - 1, qt_attributes = 0, qt_scale = 1, qt_timer_list = True\<rparr>),
     tl_notified = 0, tl_cpu_work = [], tl_dev = ()\<rparr>"

theorem timer_list_refines_witness:
  "\<exists>s'. timer_op_run tl_sample [TMod 1 300, TMod 2 200, TAnticipate 1 150, TDel 2] = Some s' \<and> tl_ok s' \<and> deadlines s' = [1 \<mapsto> 150]
     \<and> timerlist_deadline_ns s' = 50"
proof -
  have "tl_ok tl_sample" "deadlines tl_sample = Map.empty" by (simp_all add: tl_sample_def tl_ok_def deadlines_def fun_eq_iff)
  moreover have "([1 \<mapsto> 300, 2 \<mapsto> 200, 1 \<mapsto> 150] :: nat \<rightharpoonup> int)(2 := None) = [1 \<mapsto> 150]" by auto
  ultimately show ?thesis
    using timer_list_refines [of tl_sample "[TMod 1 300, TMod 2 200, TAnticipate 1 150, TDel 2]"]
    by (auto simp: tl_sample_def timeout_spec_def INT64_MAX_def)
qed

section \<open>The contract of the callbacks\<close>

text \<open>The armed timers that have expired.\<close>

definition due :: "'w tlist \<Rightarrow> nat set" where
  "due s = {t. \<exists>e. deadlines s t = Some e \<and> e \<le> tl_now s}"

lemma finite_due: "finite (due s)"
  by (rule finite_subset [of _ "set (tl_active s)"]) (auto simp: due_def deadlines_def split: if_splits)

text \<open>
  What the main loop relies on: a callback returns, keeps the client's invariant and the clock, and
  does not arm a timer that is due already, so each pass leaves fewer expired timers.
\<close>

locale timer_client =
  fixes cb :: "nat \<Rightarrow> 'w tlist \<Rightarrow> 'w tlist option"
    and inv :: "'w tlist \<Rightarrow> bool"
  assumes inv_ok: "inv s \<Longrightarrow> tl_ok s"
    and fires: "inv s \<Longrightarrow> tl_active s = t # rest \<Longrightarrow> expire_time s t \<le> tl_now s \<Longrightarrow>
      \<exists>s'. cb t (timer_unchain s t rest) = Some s' \<and> inv s' \<and> tl_same s s'
         \<and> (\<forall>u e. deadlines s' u = Some e \<longrightarrow> e \<le> tl_now s \<longrightarrow> u \<noteq> t \<and> deadlines s u = Some e)"
begin

lemma head_due: "inv s \<Longrightarrow> tl_active s = t # rest \<Longrightarrow> due s \<noteq> {} \<longleftrightarrow> expire_time s t \<le> tl_now s"
proof -
  assume "inv s" and a: "tl_active s = t # rest"
  then have "\<forall>u \<in> set (tl_active s). expire_time s t \<le> expire_time s u" using inv_ok [of s] by (auto simp: tl_ok_def)
  then show ?thesis using a by (force simp: due_def deadlines_def split: if_splits)
qed

lemma loop_returns:
  assumes "inv s" "\<not> tl_replay s" "now = tl_now s"
  shows "\<exists>s'. timerlist_loop cb cp now n p s = Some (p \<or> due s \<noteq> {}, s') \<and> inv s' \<and> tl_same s s' \<and> due s' = {}"
  using assms
proof (induction "card (due s)" arbitrary: s n p rule: less_induct)
  case less
  show ?case
  proof (cases "tl_active s")
    case Nil
    then have "due s = {}" by (auto simp: due_def deadlines_def)
    then show ?thesis using less.prems Nil by (subst timerlist_loop.simps) simp
  next
    case (Cons t rest)
    show ?thesis
    proof (cases "expire_time s t \<le> tl_now s")
      case False
      then have "due s = {}" using head_due [OF less.prems(1) Cons] by blast
      then show ?thesis using less.prems Cons False by (subst timerlist_loop.simps) (simp add: timer_expired_ns_def)
    next
      case True
      obtain s1 where s1: "cb t (timer_unchain s t rest) = Some s1" "inv s1" "tl_same s s1"
          "\<forall>u e. deadlines s1 u = Some e \<longrightarrow> e \<le> tl_now s \<longrightarrow> u \<noteq> t \<and> deadlines s u = Some e"
        using fires [OF less.prems(1) Cons True] by blast
      have now: "tl_now s1 = tl_now s" "\<not> tl_replay s1" using s1(3) less.prems(2) by (simp_all add: tl_same_def)
      have "t \<in> due s" using Cons True by (simp add: due_def deadlines_def)
      moreover have "due s1 \<subseteq> due s - {t}" using s1(4) now(1) by (auto simp: due_def)
      ultimately have "card (due s1) < card (due s)" by (intro psubset_card_mono finite_due) blast
      from less.hyps [OF this s1(2) now(2), of "Suc n" True] obtain s2 where
        "timerlist_loop cb cp now (Suc n) True s1 = Some (True, s2)" "inv s2" "tl_same s1 s2" "due s2 = {}"
        using less.prems(3) now(1) by auto
      moreover have "due s \<noteq> {}" using \<open>t \<in> due s\<close> by blast
      ultimately show ?thesis using Cons True s1(1,3) less.prems tl_same_trans
        by (subst timerlist_loop.simps) (auto simp: timer_expired_ns_def)
    qed
  qed
qed

lemma run_timers_returns:
  assumes "inv s" "\<not> tl_replay s" "tl_enabled s" "tl_type s = QEMU_CLOCK_VIRTUAL"
  shows "\<exists>s'. timerlist_run_timers cb cp s = Some (due s \<noteq> {}, s') \<and> inv s' \<and> tl_same s s' \<and> due s' = {}"
proof (cases "tl_active s = []")
  case True
  then have "due s = {}" by (auto simp: due_def deadlines_def)
  with True assms show ?thesis by (simp add: timerlist_run_timers_def)
next
  case False
  with loop_returns [OF assms(1,2) refl, of cp 1 False] assms(3,4) show ?thesis by (simp add: timerlist_run_timers_def)
qed

end

end
