(* ===== verification/Timer.thy ===== *)
theory Timer
  imports QTimer Host_Clock Host_Signed
begin

text \<open>
  The system timer of \<open>hw/arm/ipod_touch_timer.c\<close>: the periodic timer 4 on the main loop's timer
  list, the 64-bit tick counter, and the output waveform of timers 0 to 3. The device lives in the
  \<open>tl_dev\<close> field of the timer list it arms, whose \<open>tl_now\<close> is the virtual clock. The board's hooks
  are recorded: \<open>pt_hook_runs\<close> counts the calls of the first, \<open>pt_outputs\<close> holds what the second
  was given.
\<close>

definition TIMER_IRQSTAT :: u64 where "TIMER_IRQSTAT = 0x10000"
definition TIMER_TICKSHIGH :: u64 where "TIMER_TICKSHIGH = 0x80"
definition TIMER_TICKSLOW :: u64 where "TIMER_TICKSLOW = 0x84"
definition TIMER_STATE_START :: u32 where "TIMER_STATE_START = 1"
definition TIMER_STATE_STOP :: u64 where "TIMER_STATE_STOP = 0"
definition TIMER_STATE_MANUALUPDATE :: u32 where "TIMER_STATE_MANUALUPDATE = 2"
definition IT_TIMER_MAX_DILATION :: u32 where "IT_TIMER_MAX_DILATION = 1000000"
definition TIMER_4 :: u64 where "TIMER_4 = 0xA0"
definition TIMER_CONFIG :: u64 where "TIMER_CONFIG = 0"
definition TIMER_STATE :: u64 where "TIMER_STATE = 0x4"
definition TIMER_COUNT_BUFFER :: u64 where "TIMER_COUNT_BUFFER = 0x8"
definition TIMER_COUNT_BUFFER2 :: u64 where "TIMER_COUNT_BUFFER2 = 0xC"
definition TIMER_PRESCALER :: u64 where "TIMER_PRESCALER = 0x10"
definition TIMER_NUM_CHANNELS :: nat where "TIMER_NUM_CHANNELS = 4"
definition TIMER_STRIDE :: u64 where "TIMER_STRIDE = 0x20"
definition NANOSECONDS_PER_SECOND :: u32 where "NANOSECONDS_PER_SECOND = 1000000000"

lemmas timer_regs = TIMER_IRQSTAT_def TIMER_TICKSHIGH_def TIMER_TICKSLOW_def TIMER_STATE_START_def TIMER_STATE_STOP_def
  TIMER_STATE_MANUALUPDATE_def TIMER_4_def TIMER_CONFIG_def TIMER_STATE_def TIMER_COUNT_BUFFER_def TIMER_COUNT_BUFFER2_def
  TIMER_PRESCALER_def TIMER_NUM_CHANNELS_def TIMER_STRIDE_def

record channel =
  ch_config :: u32
  ch_state :: u32
  ch_cb :: u32
  ch_cb2 :: u32
  ch_prescaler :: u32
  ch_lcb :: u32
  ch_lcb2 :: u32
  ch_lpre :: u32
  ch_start_ns :: int

record timer_output =
  to_start_ns :: int
  to_end_ns :: int
  to_period_ns :: int
  to_high_ns :: int

record ptimer =
  pt_ticks_high :: u32
  pt_ticks_low :: u32
  pt_status :: u32
  pt_config :: u32
  pt_bcount1 :: u32
  pt_bcount2 :: u32
  pt_prescaler :: u32
  pt_irqstat :: u32
  pt_st_timer :: "nat option"
  pt_sysclk :: u64
  pt_bcreload :: u32
  pt_freq_out :: u32
  pt_dilation :: u32
  pt_irqlatch :: u32
  pt_freq_hz :: u32
  pt_first_config_hook :: bool
  pt_hook_runs :: nat
  pt_chan :: "channel carray"
  pt_input_hz :: u32
  pt_output_hook :: bool
  pt_outputs :: "(nat \<times> timer_output) list"
  pt_tick_interval :: u64
  pt_last_tick :: u64
  pt_next_planned_tick :: u64
  pt_base_time :: u64
  pt_irq :: bool

type_synonym timer_state = "ptimer tlist"

section \<open>Timer 4\<close>

definition dev_upd :: "(ptimer \<Rightarrow> ptimer) \<Rightarrow> timer_state \<Rightarrow> timer_state" where
  "dev_upd f s = s\<lparr>tl_dev := f (tl_dev s)\<rparr>"

definition now64 :: "timer_state \<Rightarrow> u64" where
  "now64 s = word_of_int (tl_now s)"

definition s5l8900_st_update :: "ptimer \<Rightarrow> ptimer option" where
  "s5l8900_st_update d =
     (let f = (if pt_freq_hz d \<noteq> 0 then pt_freq_hz d else 1000000000 div 100) in
      do { i \<leftarrow> muldiv64 (if pt_bcount1 d < 1000 then 1000 else ucast (pt_bcount1 d)) NANOSECONDS_PER_SECOND f;
           Some (d\<lparr>pt_freq_out := f, pt_tick_interval := i * ucast (pt_dilation d), pt_next_planned_tick := 0\<rparr>) })"

definition s5l8900_st_set_timer :: "timer_state \<Rightarrow> timer_state option" where
  "s5l8900_st_set_timer s =
     (let d = tl_dev s; last = now64 s - pt_base_time d in
      if pt_tick_interval d = 0 then None
      else
        let next = min (mask 63 - pt_base_time d) (last + (pt_tick_interval d - last mod pt_tick_interval d)) in
        do { st \<leftarrow> pt_st_timer d;
             s1 \<leftarrow> timer_mod (dev_upd (\<lambda>d. d\<lparr>pt_next_planned_tick := next\<rparr>) s) st (sint (next + pt_base_time d));
             Some (dev_upd (\<lambda>d. d\<lparr>pt_last_tick := last\<rparr>) s1) })"

definition s5l8900_st_tick :: "timer_state \<Rightarrow> timer_state option" where
  "s5l8900_st_tick s =
     (if pt_status (tl_dev s) AND TIMER_STATE_START \<noteq> 0 then
        s5l8900_st_set_timer (dev_upd (\<lambda>d. d\<lparr>pt_irq := True\<rparr>) s)
      else
        do { st \<leftarrow> pt_st_timer (tl_dev s);
             Some (timer_del (dev_upd (\<lambda>d. d\<lparr>pt_next_planned_tick := 0, pt_last_tick := 0\<rparr>) s) st) })"

section \<open>Timers 0 to 3\<close>

definition prediv :: "u32 carray" where
  "prediv = nth [2, 4, 16, 64, 1, 1, 1, 1]"

definition timer_channel_output :: "channel \<Rightarrow> u32 \<Rightarrow> timer_output option" where
  "timer_channel_output c input_hz =
     (if ch_start_ns c = 0 \<or> ch_lcb2 c = 0 \<or> input_hz = 0 then
        Some \<lparr>to_start_ns = 0, to_end_ns = 0, to_period_ns = 0, to_high_ns = 0\<rparr>
      else
        do { p \<leftarrow> aget 8 prediv (unat (drop_bit 8 (ch_config c) AND 7));
             let ticks = (ucast p * ucast (ch_lpre c + 1) :: u64);
             period \<leftarrow> muldiv64 (ticks * ucast (ch_lcb2 c)) NANOSECONDS_PER_SECOND input_hz;
             high \<leftarrow> muldiv64 (ticks * ucast (min (ch_lcb c) (ch_lcb2 c))) NANOSECONDS_PER_SECOND input_hz;
             Some \<lparr>to_start_ns = ch_start_ns c,
                   to_end_ns = (if drop_bit 4 (ch_config c) AND 3 = 2 then wrap64 (ch_start_ns c + sint period) else INT64_MAX),
                   to_period_ns = sint period, to_high_ns = sint high\<rparr> })"

definition timer_channel_write :: "channel \<Rightarrow> u64 \<Rightarrow> u32 \<Rightarrow> int \<Rightarrow> channel" where
  "timer_channel_write c reg value now =
     (if reg = TIMER_CONFIG then c\<lparr>ch_config := value\<rparr>
      else if reg = TIMER_STATE then
        let c = (if value AND TIMER_STATE_MANUALUPDATE \<noteq> 0
                 then c\<lparr>ch_lcb := ch_cb c, ch_lcb2 := ch_cb2 c, ch_lpre := ch_prescaler c\<rparr> else c);
            c = (if value AND TIMER_STATE_START = 0 then c\<lparr>ch_start_ns := 0\<rparr>
                 else if ch_start_ns c = 0 then c\<lparr>ch_start_ns := (if now \<noteq> 0 then now else 1)\<rparr> else c)
        in c\<lparr>ch_state := value\<rparr>
      else if reg = TIMER_COUNT_BUFFER then c\<lparr>ch_cb := value\<rparr>
      else if reg = TIMER_COUNT_BUFFER2 then c\<lparr>ch_cb2 := value\<rparr>
      else if reg = TIMER_PRESCALER then c\<lparr>ch_prescaler := value\<rparr>
      else c)"

definition timer_channel_read :: "channel \<Rightarrow> u64 \<Rightarrow> u32" where
  "timer_channel_read c reg =
     (if reg = TIMER_CONFIG then ch_config c
      else if reg = TIMER_STATE then ch_state c
      else if reg = TIMER_COUNT_BUFFER then ch_cb c
      else if reg = TIMER_COUNT_BUFFER2 then ch_cb2 c
      else if reg = TIMER_PRESCALER then ch_prescaler c
      else 0)"

section \<open>The registers\<close>

text \<open>A store to a register of timers 0 to 3; a store to STATE reports the waveform.\<close>

definition timer_channel_store :: "timer_state \<Rightarrow> u64 \<Rightarrow> u32 \<Rightarrow> timer_state option" where
  "timer_channel_store s addr value =
     (let d = tl_dev s; n = unat (addr div TIMER_STRIDE); reg = addr mod TIMER_STRIDE in
      do { c \<leftarrow> aget TIMER_NUM_CHANNELS (pt_chan d) n;
           let c = timer_channel_write c reg value (tl_now s);
           chan \<leftarrow> aset TIMER_NUM_CHANNELS (pt_chan d) n c;
           let s1 = dev_upd (\<lambda>d. d\<lparr>pt_chan := chan\<rparr>) s;
           if reg = TIMER_STATE \<and> pt_output_hook d then
             do { o' \<leftarrow> timer_channel_output c (pt_input_hz d);
                  Some (dev_upd (\<lambda>d. d\<lparr>pt_outputs := pt_outputs d @ [(n, o')]\<rparr>) s1) }
           else Some s1 })"

definition s5l8900_timer1_write :: "timer_state \<Rightarrow> u64 \<Rightarrow> u64 \<Rightarrow> timer_state option" where
  "s5l8900_timer1_write s addr value =
     (let d = tl_dev s; v = (ucast value :: u32) in
      if addr = ucast (pt_irqlatch d) then Some (dev_upd (\<lambda>d. d\<lparr>pt_irq := False\<rparr>) s)
      else if addr = TIMER_IRQSTAT then Some (dev_upd (\<lambda>d. d\<lparr>pt_irqstat := v\<rparr>) s)
      else if addr = TIMER_4 + TIMER_CONFIG then
        do { d1 \<leftarrow> s5l8900_st_update (if pt_first_config_hook d then d\<lparr>pt_hook_runs := Suc (pt_hook_runs d)\<rparr> else d);
             Some (s\<lparr>tl_dev := d1\<lparr>pt_config := v\<rparr>\<rparr>) }
      else if addr = TIMER_4 + TIMER_STATE then
        do { s1 \<leftarrow> (if v AND TIMER_STATE_START \<noteq> 0 then
                       do { d1 \<leftarrow> s5l8900_st_update (d\<lparr>pt_base_time := now64 s\<rparr>); s5l8900_st_set_timer (s\<lparr>tl_dev := d1\<rparr>) }
                     else if value = TIMER_STATE_STOP then do { st \<leftarrow> pt_st_timer d; Some (timer_del s st) }
                     else Some s);
             Some (dev_upd (\<lambda>d. d\<lparr>pt_status := v\<rparr>) s1) }
      else if addr = TIMER_4 + TIMER_COUNT_BUFFER then Some (dev_upd (\<lambda>d. d\<lparr>pt_bcount1 := v, pt_bcreload := v\<rparr>) s)
      else if addr = TIMER_4 + TIMER_COUNT_BUFFER2 then Some (dev_upd (\<lambda>d. d\<lparr>pt_bcount2 := v\<rparr>) s)
      else if addr < of_nat TIMER_NUM_CHANNELS * TIMER_STRIDE then timer_channel_store s addr v
      else Some s)"

definition s5l8900_timer1_read_locked :: "ptimer \<Rightarrow> u64 \<Rightarrow> u64 option" where
  "s5l8900_timer1_read_locked d addr =
     (if addr = TIMER_IRQSTAT then Some (ucast (pt_irqstat d))
      else if addr = ucast (pt_irqlatch d) then Some 0xffffffff
      else if addr < of_nat TIMER_NUM_CHANNELS * TIMER_STRIDE then
        do { c \<leftarrow> aget TIMER_NUM_CHANNELS (pt_chan d) (unat (addr div TIMER_STRIDE));
             Some (ucast (timer_channel_read c (addr mod TIMER_STRIDE))) }
      else Some 0)"

text \<open>The counter: reading the high word latches both.\<close>

definition s5l8900_timer1_read :: "timer_state \<Rightarrow> u64 \<Rightarrow> (timer_state \<times> u64) option" where
  "s5l8900_timer1_read s addr =
     (if addr \<noteq> TIMER_TICKSHIGH \<and> addr \<noteq> TIMER_TICKSLOW then
        do { v \<leftarrow> s5l8900_timer1_read_locked (tl_dev s) addr; Some (s, v) }
      else if addr = TIMER_TICKSHIGH then
        do { ticks \<leftarrow> clock_ns_to_ticks (pt_sysclk (tl_dev s)) (word_of_int (tl_now s div 2));
             let s1 = dev_upd (\<lambda>d. d\<lparr>pt_ticks_high := ucast (drop_bit 32 ticks), pt_ticks_low := ucast (ticks AND 0xFFFFFFFF)\<rparr>) s;
             Some (s1, ucast (pt_ticks_high (tl_dev s1))) }
      else Some (s, ucast (pt_ticks_low (tl_dev s))))"

section \<open>Life cycle\<close>

definition zero_channel :: channel where
  "zero_channel = \<lparr>ch_config = 0, ch_state = 0, ch_cb = 0, ch_cb2 = 0, ch_prescaler = 0, ch_lcb = 0, ch_lcb2 = 0, ch_lpre = 0, ch_start_ns = 0\<rparr>"

definition s5l8900_timer_init :: "timer_state \<Rightarrow> nat \<Rightarrow> timer_state" where
  "s5l8900_timer_init s st =
     timer_init_full (dev_upd (\<lambda>d. d\<lparr>pt_base_time := now64 s, pt_dilation := 1, pt_st_timer := Some st\<rparr>) s) st 1 0"

definition ipod_touch_timer_reset :: "timer_state \<Rightarrow> timer_state" where
  "ipod_touch_timer_reset s =
     (let s1 = dev_upd (\<lambda>d. d\<lparr>pt_ticks_high := 0, pt_ticks_low := 0, pt_status := 0, pt_config := 0, pt_bcount1 := 0,
            pt_bcount2 := 0, pt_prescaler := 0, pt_irqstat := 0, pt_bcreload := 0, pt_tick_interval := 0, pt_last_tick := 0,
            pt_next_planned_tick := 0, pt_base_time := now64 s, pt_chan := (\<lambda>_. zero_channel)\<rparr>) s;
          s2 = (case pt_st_timer (tl_dev s1) of None \<Rightarrow> s1 | Some st \<Rightarrow> timer_del s1 st)
      in dev_upd (\<lambda>d. d\<lparr>pt_irq := False\<rparr>) s2)"

definition ipod_touch_timer_post_load :: "timer_state \<Rightarrow> errno option" where
  "ipod_touch_timer_post_load s =
     (let d = tl_dev s in
      if pt_base_time d > now64 s \<or> pt_tick_interval d > mask 63 \<or> pt_next_planned_tick d > mask 63 - pt_base_time d \<or>
         (pt_status d AND TIMER_STATE_START \<noteq> 0 \<and> pt_tick_interval d = 0)
      then Some EINVAL else None)"

definition timer_channels_needed :: "ptimer \<Rightarrow> bool" where
  "timer_channels_needed d = list_ex (\<lambda>i. pt_chan d i \<noteq> zero_channel) [0 ..< TIMER_NUM_CHANNELS]"

text \<open>
  The device in the machine: accesses, reset, and time passing, after which the main loop runs the
  expired timers. The virtual clock stays below the end of its range.
\<close>

definition timer_cb :: "nat \<Rightarrow> timer_state \<Rightarrow> timer_state option" where
  "timer_cb t s = (if pt_st_timer (tl_dev s) = Some t then s5l8900_st_tick s else Some s)"

definition timer_advance :: "timer_state \<Rightarrow> nat \<Rightarrow> timer_state option" where
  "timer_advance s n =
     (if tl_now s + int n < INT64_MAX
      then do { (_, s1) \<leftarrow> timerlist_run_timers timer_cb (\<lambda>_. True) (s\<lparr>tl_now := tl_now s + int n\<rparr>); Some s1 }
      else Some s)"

fun timer_step :: "timer_state \<Rightarrow> nat bus_event \<Rightarrow> (timer_state \<times> u64) option" where
  "timer_step s (MRead a) = s5l8900_timer1_read s a"
| "timer_step s (MWrite a v) = do { s1 \<leftarrow> s5l8900_timer1_write s a v; Some (s1, 0) }"
| "timer_step s DevReset = Some (ipod_touch_timer_reset s, 0)"
| "timer_step s (Ext n) = do { s1 \<leftarrow> timer_advance s n; Some (s1, 0) }"

section \<open>The period of timer 4\<close>

text \<open>What the board sets: the dilation within its bounds, and no rate or one of at least 1 MHz.\<close>

definition pt_board :: "ptimer \<Rightarrow> bool" where
  "pt_board d = (0 < pt_dilation d \<and> pt_dilation d \<le> IT_TIMER_MAX_DILATION \<and> (pt_freq_hz d = 0 \<or> 1000000 \<le> pt_freq_hz d))"

definition timer4_interval :: "ptimer \<Rightarrow> nat" where
  "timer4_interval d =
     max 1000 (unat (pt_bcount1 d)) * 1000000000 div (if pt_freq_hz d = 0 then 10000000 else unat (pt_freq_hz d)) * unat (pt_dilation d)"

lemma timer4_interval_bounds:
  assumes "pt_board d"
  shows "0 < timer4_interval d" "timer4_interval d < 2 ^ 63"
proof -
  define f where "f = (if pt_freq_hz d = 0 then 10000000 else unat (pt_freq_hz d))"
  define c where "c = max 1000 (unat (pt_bcount1 d))"
  have f: "1000000 \<le> f" "f < 2 ^ 32" using assms unsigned_less [of "pt_freq_hz d", where ?'a = nat]
    by (auto simp: f_def pt_board_def word_le_nat_alt)
  have c: "1000 \<le> c" "c < 2 ^ 32" using unsigned_less [of "pt_bcount1 d", where ?'a = nat] by (auto simp: c_def)
  have m: "0 < unat (pt_dilation d)" "unat (pt_dilation d) \<le> 1000000"
    using assms by (auto simp: pt_board_def IT_TIMER_MAX_DILATION_def word_le_nat_alt word_less_nat_alt)
  have "f \<le> c * 1000000000" using f(2) c(1) by simp
  then have "0 < c * 1000000000 div f" using f(1) by (simp add: div_greater_zero_iff)
  with m(1) show "0 < timer4_interval d" unfolding timer4_interval_def by (simp flip: c_def f_def)
  have "c * 1000000000 div f \<le> c * 1000000000 div 1000000" using f(1) by (intro div_le_mono2) simp_all
  also have "\<dots> = c * 1000" by simp
  finally have "c * 1000000000 div f * unat (pt_dilation d) \<le> c * 1000 * 1000000" using m(2) by (intro mult_le_mono)
  also have "\<dots> < 2 ^ 63" using c(2) by simp
  finally show "timer4_interval d < 2 ^ 63" unfolding timer4_interval_def by (simp flip: c_def f_def)
qed

lemma st_update:
  assumes "pt_board d"
  obtains f where "s5l8900_st_update d = Some (d\<lparr>pt_freq_out := f, pt_tick_interval := of_nat (timer4_interval d), pt_next_planned_tick := 0\<rparr>)"
proof -
  let ?f = "if pt_freq_hz d \<noteq> 0 then pt_freq_hz d else 10000000"
  have c: "unat (if pt_bcount1 d < 1000 then 1000 else ucast (pt_bcount1 d) :: u64) = max 1000 (unat (pt_bcount1 d))"
    by (auto simp: word_less_nat_alt unat_ucast_u64)
  have "muldiv64 (if pt_bcount1 d < 1000 then 1000 else ucast (pt_bcount1 d)) NANOSECONDS_PER_SECOND ?f =
      Some (of_nat (max 1000 (unat (pt_bcount1 d)) * 1000000000 div (if pt_freq_hz d = 0 then 10000000 else unat (pt_freq_hz d))))"
    unfolding muldiv64_def c by (simp add: NANOSECONDS_PER_SECOND_def)
  moreover have dv: "(1000000000 div 100 :: u32) = 10000000" by (simp add: word_div_def)
  ultimately have "s5l8900_st_update d = Some (d\<lparr>pt_freq_out := ?f, pt_tick_interval := of_nat (timer4_interval d), pt_next_planned_tick := 0\<rparr>)"
    unfolding s5l8900_st_update_def Let_def dv by (simp add: timer4_interval_def)
  then show thesis by (rule that)
qed

section \<open>The invariant\<close>

lemma dev_upd_simps [simp]:
  "tl_dev (dev_upd f s) = f (tl_dev s)" "tl_ok (dev_upd f s) = tl_ok s" "deadlines (dev_upd f s) = deadlines s"
  "tl_now (dev_upd f s) = tl_now s" "tl_timer (dev_upd f s) = tl_timer s" "tl_active (dev_upd f s) = tl_active s"
  "tl_same s (dev_upd f s)" "due (dev_upd f s) = due s"
  by (simp_all add: dev_upd_def tl_ok_def deadlines_def fun_eq_iff tl_same_def due_def)

lemma set_dev_upd: "s\<lparr>tl_dev := d\<rparr> = dev_upd (\<lambda>_. d) s"
  by (simp add: dev_upd_def)

text \<open>
  The machine's clock runs and only this device's timer \<open>st\<close> is on its list; the bookkeeping is in
  range; and while timer 4 is started its period is not zero.
\<close>

definition pt_clock :: "nat \<Rightarrow> timer_state \<Rightarrow> bool" where
  "pt_clock st s = (tl_ok s \<and> \<not> tl_replay s \<and> tl_enabled s \<and> tl_type s = QEMU_CLOCK_VIRTUAL \<and> 0 \<le> tl_now s \<and> tl_now s < INT64_MAX
     \<and> qt_scale (tl_timer s st) = 1 \<and> qt_timer_list (tl_timer s st) \<and> (\<forall>t. t \<noteq> st \<longrightarrow> deadlines s t = None))"

definition pt_dev :: "nat \<Rightarrow> u64 \<Rightarrow> ptimer \<Rightarrow> bool" where
  "pt_dev st now d = (pt_board d \<and> pt_st_timer d = Some st \<and> pt_base_time d \<le> now \<and> pt_tick_interval d \<le> mask 63
     \<and> pt_next_planned_tick d \<le> mask 63 - pt_base_time d
     \<and> (pt_status d AND TIMER_STATE_START \<noteq> 0 \<longrightarrow> pt_tick_interval d \<noteq> 0))"

abbreviation pt_started :: "timer_state \<Rightarrow> bool" where
  "pt_started s \<equiv> pt_status (tl_dev s) AND TIMER_STATE_START \<noteq> 0"

definition pt_inv :: "nat \<Rightarrow> timer_state \<Rightarrow> bool" where
  "pt_inv st s = (pt_clock st s \<and> pt_dev st (now64 s) (tl_dev s) \<and> (pt_started s \<longrightarrow> deadlines s st \<noteq> None))"

lemma now64_same: "tl_same s s' \<Longrightarrow> now64 s' = now64 s"
  by (simp add: now64_def tl_same_def)

lemma pt_clock_upd [simp]: "pt_clock st (dev_upd f s) = pt_clock st s" "now64 (dev_upd f s) = now64 s"
  by (simp_all add: pt_clock_def now64_def) (simp add: dev_upd_def)

lemma pt_clock_same:
  assumes "pt_clock st s" "tl_same s s'" "tl_ok s'" "\<forall>t. t \<noteq> st \<longrightarrow> deadlines s' t = deadlines s t"
  shows "pt_clock st s'"
  using assms by (simp add: pt_clock_def tl_same_def)

lemma unat_now64: "pt_clock st s \<Longrightarrow> unat (now64 s) = nat (tl_now s)" "pt_clock st s \<Longrightarrow> nat (tl_now s) < 2 ^ 63 - 1"
proof -
  assume p: "pt_clock st s"
  then have r: "0 \<le> tl_now s" "tl_now s < 2 ^ 63 - 1" by (simp_all add: pt_clock_def INT64_MAX_def)
  then show "nat (tl_now s) < 2 ^ 63 - 1" by (simp add: nat_less_iff)
  from r have "take_bit 64 (tl_now s) = tl_now s" by (intro take_bit_int_eq_self) simp_all
  then show "unat (now64 s) = nat (tl_now s)" by (simp add: now64_def unsigned_of_int nat_take_bit_eq)
qed

text \<open>The next tick: the first multiple of the period after now, counted from the start.\<close>

definition next_tick :: "nat \<Rightarrow> nat \<Rightarrow> nat \<Rightarrow> nat" where
  "next_tick base interval now = min (2 ^ 63 - 1) (base + ((now - base) div interval + 1) * interval)"

lemma next_tick_future:
  assumes "0 < interval" "base \<le> now" "now < 2 ^ 63 - 1"
  shows "now < next_tick base interval now" "next_tick base interval now \<le> now + interval"
proof -
  have "now - base < ((now - base) div interval + 1) * interval" using dividend_less_div_times [OF assms(1), of "now - base"] by simp
  with assms(2,3) show "now < next_tick base interval now" unfolding next_tick_def by linarith
  have "next_tick base interval now \<le> base + ((now - base) div interval + 1) * interval" unfolding next_tick_def by (rule min.cobounded2)
  also have "\<dots> = base + (now - base) div interval * interval + interval" by (simp add: distrib_right)
  also have "\<dots> \<le> now + interval" using div_times_less_eq_dividend [of "now - base" interval] assms(2) by linarith
  finally show "next_tick base interval now \<le> now + interval" .
qed

lemma unat_mask63: "unat (mask 63 :: u64) = 2 ^ 63 - 1"
  by (simp add: mask_eq_exp_minus_1)

lemma planned_tick:
  fixes now base interval :: u64
  assumes b: "base \<le> now" "unat now < 2 ^ 63 - 1" and i: "interval \<noteq> 0" "interval \<le> mask 63"
  defines "lst \<equiv> now - base"
  defines "nxt \<equiv> min (mask 63 - base) (lst + (interval - lst mod interval))"
  shows "nxt \<le> mask 63 - base" and "sint (nxt + base) = int (next_tick (unat base) (unat interval) (unat now))"
proof -
  let ?B = "unat base" and ?N = "unat now" and ?I = "unat interval"
  show le: "nxt \<le> mask 63 - base" by (simp add: nxt_def)
  have I: "0 < ?I" "?I \<le> 2 ^ 63 - 1" using i by (simp_all add: unat_gt_0 word_le_nat_alt unat_mask63)
  have BN: "?B \<le> ?N" using b(1) by (simp add: word_le_nat_alt)
  have L: "unat lst = ?N - ?B" unfolding lst_def using b(1) by (simp only: unat_sub_le)
  have r: "unat (interval - lst mod interval) = ?I - (?N - ?B) mod ?I"
  proof -
    have "lst mod interval \<le> interval" using I(1) by (simp add: word_le_nat_alt unat_mod_word less_imp_le)
    then show ?thesis by (simp only: unat_sub_le unat_mod_word L)
  qed
  have "unat (lst + (interval - lst mod interval)) = (?N - ?B) + (?I - (?N - ?B) mod ?I)"
    using b(2) I(2) by (subst unat_add_small) (simp_all add: L r)
  also have "\<dots> = ((?N - ?B) div ?I + 1) * ?I"
    using div_mult_mod_eq [of "?N - ?B" ?I] mod_less_divisor [OF I(1), of "?N - ?B"]
    unfolding distrib_right mult_1 by linarith
  finally have step: "unat (lst + (interval - lst mod interval)) = ((?N - ?B) div ?I + 1) * ?I" .
  have room: "unat (mask 63 - base) = 2 ^ 63 - 1 - ?B"
    using BN b(2) by (subst unat_sub_le) (simp_all add: word_le_nat_alt unat_mask63)
  have nx: "unat nxt = min (2 ^ 63 - 1 - ?B) (((?N - ?B) div ?I + 1) * ?I)"
    unfolding nxt_def min_def word_le_nat_alt room step by (simp only: room step split: if_split) simp
  have "unat nxt + ?B = next_tick ?B ?I ?N" unfolding nx next_tick_def using BN b(2) by simp
  moreover have "next_tick ?B ?I ?N \<le> 2 ^ 63 - 1" by (simp add: next_tick_def)
  ultimately have "unat (nxt + base) = next_tick ?B ?I ?N" "unat (nxt + base) < 2 ^ 63"
    by (simp_all add: unat_add_small)
  then show "sint (nxt + base) = int (next_tick ?B ?I ?N)"
    unfolding sint_u64 by (simp add: uint_nat)
qed

lemma st_set_timer:
  assumes c: "pt_clock st s" and d: "pt_st_timer (tl_dev s) = Some st" "pt_base_time (tl_dev s) \<le> now64 s"
    and i: "pt_tick_interval (tl_dev s) \<noteq> 0" "pt_tick_interval (tl_dev s) \<le> mask 63"
  obtains s' p l where "s5l8900_st_set_timer s = Some s'" "tl_ok s'" "tl_same s s'"
    "deadlines s' = (deadlines s)(st \<mapsto> int (next_tick (unat (pt_base_time (tl_dev s))) (unat (pt_tick_interval (tl_dev s))) (nat (tl_now s))))"
    "tl_dev s' = (tl_dev s)\<lparr>pt_next_planned_tick := p, pt_last_tick := l\<rparr>" "p \<le> mask 63 - pt_base_time (tl_dev s)"
proof -
  let ?d = "tl_dev s" let ?l = "now64 s - pt_base_time ?d"
  define p where "p = min (mask 63 - pt_base_time ?d) (?l + (pt_tick_interval ?d - ?l mod pt_tick_interval ?d))"
  define e where "e = int (next_tick (unat (pt_base_time ?d)) (unat (pt_tick_interval ?d)) (nat (tl_now s)))"
  let ?s = "dev_upd (\<lambda>d. d\<lparr>pt_next_planned_tick := p\<rparr>) s"
  have p: "p \<le> mask 63 - pt_base_time ?d" "sint (p + pt_base_time ?d) = e"
    using planned_tick [OF d(2) _ i] unat_now64 [OF c] unfolding p_def e_def by simp_all
  have "0 \<le> e" "e \<le> INT64_MAX" by (simp_all add: e_def next_tick_def INT64_MAX_def)
  then have w: "wrap64 (e * qt_scale (tl_timer ?s st)) = e" "max e 0 = e" using c by (simp_all add: pt_clock_def wrap64_id)
  obtain s1 where s1: "timer_mod_ns ?s st e = Some s1" "tl_ok s1" "deadlines s1 = (deadlines ?s)(st := arm ?s st e)"
      "tl_same ?s s1" "tl_dev s1 = tl_dev ?s"
    by (rule tl_mod_ns [of ?s st e]) (use c in \<open>simp_all add: pt_clock_def\<close>)
  have "arm ?s st e = Some e" using c w(2) by (simp add: arm_def pt_clock_def dev_upd_def)
  moreover have "s5l8900_st_set_timer s = Some (dev_upd (\<lambda>d. d\<lparr>pt_last_tick := ?l\<rparr>) s1)"
    using i(1) d(1) s1(1) p(2) w(1) by (simp add: s5l8900_st_set_timer_def timer_mod_def flip: p_def)
  moreover have "tl_same s (dev_upd (\<lambda>d. d\<lparr>pt_last_tick := ?l\<rparr>) s1)"
    using tl_same_trans [of s ?s s1] tl_same_trans [of s s1 "dev_upd (\<lambda>d. d\<lparr>pt_last_tick := ?l\<rparr>) s1"] s1(4) by simp
  ultimately show thesis using s1(2,3,5) p(1)
    by (intro that [of "dev_upd (\<lambda>d. d\<lparr>pt_last_tick := ?l\<rparr>) s1" ?l p]) (simp_all add: e_def)
qed

text \<open>The tick of a started timer interrupts and plans the next one; of a stopped one, nothing more.\<close>

lemma st_tick:
  assumes c: "pt_clock st s" and d: "pt_dev st (now64 s) (tl_dev s)"
  obtains s' where "s5l8900_st_tick s = Some s'" "pt_inv st s'" "tl_same s s'" "pt_status (tl_dev s') = pt_status (tl_dev s)"
    "pt_started s \<longrightarrow> pt_irq (tl_dev s') \<and> deadlines s' = (deadlines s)(st \<mapsto>
       int (next_tick (unat (pt_base_time (tl_dev s))) (unat (pt_tick_interval (tl_dev s))) (nat (tl_now s))))"
    "\<not> pt_started s \<longrightarrow> deadlines s' = (deadlines s)(st := None)"
proof (cases "pt_started s")
  case True
  let ?s = "dev_upd (\<lambda>d. d\<lparr>pt_irq := True\<rparr>) s"
  have cs: "pt_clock st ?s" using c by simp
  have ds: "pt_st_timer (tl_dev ?s) = Some st" "pt_base_time (tl_dev ?s) \<le> now64 ?s" "pt_tick_interval (tl_dev ?s) \<noteq> 0"
      "pt_tick_interval (tl_dev ?s) \<le> mask 63"
    using d True by (simp_all add: pt_dev_def now64_def)
  obtain s' p l where s': "s5l8900_st_set_timer ?s = Some s'" "tl_ok s'" "tl_same ?s s'"
      "deadlines s' = (deadlines ?s)(st \<mapsto> int (next_tick (unat (pt_base_time (tl_dev ?s))) (unat (pt_tick_interval (tl_dev ?s))) (nat (tl_now ?s))))"
      "tl_dev s' = (tl_dev ?s)\<lparr>pt_next_planned_tick := p, pt_last_tick := l\<rparr>" "p \<le> mask 63 - pt_base_time (tl_dev ?s)"
    by (rule st_set_timer [OF cs ds])
  have same: "tl_same s s'" using tl_same_trans [OF _ s'(3), of s] by simp
  have "pt_clock st s'" using pt_clock_same [OF c same s'(2)] s'(4) by simp
  moreover have "pt_dev st (now64 s') (tl_dev s')" using d s'(5,6) unfolding now64_same [OF same] by (simp add: pt_dev_def pt_board_def)
  ultimately have "pt_inv st s'" using s'(4) by (simp add: pt_inv_def)
  then show thesis using that s'(1,4,5) same True by (simp add: s5l8900_st_tick_def)
next
  case False
  let ?s = "timer_del (dev_upd (\<lambda>d. d\<lparr>pt_next_planned_tick := 0, pt_last_tick := 0\<rparr>) s) st"
  have l: "?s = timer_del_locked (dev_upd (\<lambda>d. d\<lparr>pt_next_planned_tick := 0, pt_last_tick := 0\<rparr>) s) st"
    using c by (simp add: timer_del_def pt_clock_def)
  have ok: "tl_ok s" using c by (simp add: pt_clock_def)
  then have s': "tl_ok ?s" "deadlines ?s = (deadlines s)(st := None)" unfolding l
    using tl_del [of "dev_upd (\<lambda>d. d\<lparr>pt_next_planned_tick := 0, pt_last_tick := 0\<rparr>) s" st] by simp_all
  have same: "tl_same s ?s" unfolding l by (rule tl_same_trans [OF _ tl_same_del(1)]) simp
  have dev: "tl_dev ?s = (tl_dev s)\<lparr>pt_next_planned_tick := 0, pt_last_tick := 0\<rparr>" unfolding l by (simp add: timer_del_locked_def tl_defs)
  have "pt_clock st ?s" using pt_clock_same [OF c same s'(1)] s'(2) by simp
  moreover have "pt_dev st (now64 ?s) (tl_dev ?s)" using d unfolding now64_same [OF same] dev by (simp add: pt_dev_def pt_board_def)
  ultimately have "pt_inv st ?s" using False by (simp add: pt_inv_def dev)
  then show thesis using that [of ?s] s'(2) same False d dev by (simp add: s5l8900_st_tick_def pt_dev_def)
qed

section \<open>Under the main loop\<close>

lemma unchain_del: "tl_active s = t # rest \<Longrightarrow> timer_unchain s t rest = timer_del_locked s t"
  by (simp add: timer_unchain_def timer_del_locked_def)

lemma pt_chain: "pt_inv st s \<Longrightarrow> tl_active s = t # rest \<Longrightarrow> t = st"
  by (rule ccontr) (auto simp: pt_inv_def pt_clock_def deadlines_def split: if_splits)

lemma pt_del:
  assumes "pt_clock st s" "pt_dev st (now64 s) (tl_dev s)"
  shows "pt_clock st (timer_del_locked s st)" "pt_dev st (now64 (timer_del_locked s st)) (tl_dev (timer_del_locked s st))"
    "tl_dev (timer_del_locked s st) = tl_dev s" "deadlines (timer_del_locked s st) = (deadlines s)(st := None)"
proof -
  have ok: "tl_ok s" using assms(1) by (simp add: pt_clock_def)
  show dev: "tl_dev (timer_del_locked s st) = tl_dev s" by (simp add: timer_del_locked_def tl_defs)
  show dl: "deadlines (timer_del_locked s st) = (deadlines s)(st := None)" by (rule tl_del(2) [OF ok])
  show "pt_clock st (timer_del_locked s st)" using pt_clock_same [OF assms(1) tl_same_del(1) tl_del(1) [OF ok]] dl by simp
  show "pt_dev st (now64 (timer_del_locked s st)) (tl_dev (timer_del_locked s st))"
    using assms(2) by (simp only: dev now64_same [OF tl_same_del(1)])
qed

lemma timer_cb_fires:
  assumes inv: "pt_inv st s" and a: "tl_active s = t # rest" "expire_time s t \<le> tl_now s"
  obtains s' where "timer_cb t (timer_unchain s t rest) = Some s'" "pt_inv st s'" "tl_same s s'"
    "\<forall>u e. deadlines s' u = Some e \<longrightarrow> tl_now s < e"
    "pt_started s \<longrightarrow> pt_irq (tl_dev s') \<and> deadlines s' st =
       Some (int (next_tick (unat (pt_base_time (tl_dev s))) (unat (pt_tick_interval (tl_dev s))) (nat (tl_now s))))"
proof -
  have t: "t = st" by (rule pt_chain [OF inv a(1)])
  have c: "pt_clock st s" "pt_dev st (now64 s) (tl_dev s)" using inv by (simp_all add: pt_inv_def)
  let ?u = "timer_del_locked s st"
  note u = pt_del [OF c]
  obtain s' where s': "s5l8900_st_tick ?u = Some s'" "pt_inv st s'" "tl_same ?u s'" "pt_status (tl_dev s') = pt_status (tl_dev ?u)"
      "pt_started ?u \<longrightarrow> pt_irq (tl_dev s') \<and> deadlines s' = (deadlines ?u)(st \<mapsto>
         int (next_tick (unat (pt_base_time (tl_dev ?u))) (unat (pt_tick_interval (tl_dev ?u))) (nat (tl_now ?u))))"
      "\<not> pt_started ?u \<longrightarrow> deadlines s' = (deadlines ?u)(st := None)"
    by (rule st_tick [OF u(1,2)])
  have same: "tl_same s s'" by (rule tl_same_trans [OF tl_same_del(1) s'(3)])
  have now: "tl_now ?u = tl_now s" by (simp add: timer_del_locked_def tl_defs)
  have none: "deadlines s v = None" if "v \<noteq> st" for v using c(1) that by (simp add: pt_clock_def)
  have "\<forall>v e. deadlines s' v = Some e \<longrightarrow> tl_now s < e"
  proof (intro allI impI)
    fix v e assume e: "deadlines s' v = Some e"
    have st: "pt_started s" "v = st" using e s'(5,6) none u(3,4) by (cases "pt_started s"; cases "v = st"; simp)+
    have "e = int (next_tick (unat (pt_base_time (tl_dev s))) (unat (pt_tick_interval (tl_dev s))) (nat (tl_now s)))"
      using e s'(5) st u(3) now by simp
    moreover have "nat (tl_now s) < next_tick (unat (pt_base_time (tl_dev s))) (unat (pt_tick_interval (tl_dev s))) (nat (tl_now s))"
      using c(2) st(1) unat_now64 [OF c(1)] by (intro next_tick_future(1)) (simp_all add: pt_dev_def unat_gt_0 word_le_nat_alt)
    ultimately show "tl_now s < e" by linarith
  qed
  moreover have "timer_cb t (timer_unchain s t rest) = Some s'"
    using s'(1) u(3) c(2) by (simp add: t timer_cb_def unchain_del [OF a(1) [unfolded t]] pt_dev_def)
  ultimately show thesis using that s'(2,5) same u(3) now by simp
qed

interpretation tc: timer_client timer_cb "pt_inv st" for st
proof unfold_locales
  fix s t rest
  show "pt_inv st s \<Longrightarrow> tl_ok s" by (simp add: pt_inv_def pt_clock_def)
  assume "pt_inv st s" "tl_active s = t # rest" "expire_time s t \<le> tl_now s"
  then obtain s' where "timer_cb t (timer_unchain s t rest) = Some s'" "pt_inv st s'" "tl_same s s'"
      "\<forall>u e. deadlines s' u = Some e \<longrightarrow> tl_now s < e"
    by (rule timer_cb_fires)
  then show "\<exists>s'. timer_cb t (timer_unchain s t rest) = Some s' \<and> pt_inv st s' \<and> tl_same s s'
      \<and> (\<forall>u e. deadlines s' u = Some e \<longrightarrow> e \<le> tl_now s \<longrightarrow> u \<noteq> t \<and> deadlines s u = Some e)"
    by (metis linorder_not_le)
qed

text \<open>Time passes.\<close>

lemma pt_later:
  assumes "pt_inv st s" "tl_now s + int n < INT64_MAX"
  shows "pt_inv st (s\<lparr>tl_now := tl_now s + int n\<rparr>)"
proof -
  let ?s = "s\<lparr>tl_now := tl_now s + int n\<rparr>"
  have dl: "deadlines ?s = deadlines s" by (simp add: deadlines_def fun_eq_iff)
  have c: "pt_clock st s" "pt_dev st (now64 s) (tl_dev s)" using assms(1) by (simp_all add: pt_inv_def)
  then have "pt_clock st ?s" using assms(2) by (simp add: pt_clock_def dl tl_ok_def)
  moreover from this have "now64 s \<le> now64 ?s" using unat_now64(1) [OF c(1)] unat_now64(1) [of st ?s] c(1)
    by (simp add: word_le_nat_alt pt_clock_def nat_mono)
  then have "pt_dev st (now64 ?s) (tl_dev ?s)" using c(2) by (auto simp: pt_dev_def)
  ultimately show ?thesis using assms(1) by (simp add: pt_inv_def dl)
qed

lemma timer_advance_inv:
  assumes "pt_inv st s" "due s = {}"
  obtains s' where "timer_advance s n = Some s'" "pt_inv st s'" "due s' = {}"
proof (cases "tl_now s + int n < INT64_MAX")
  case True
  let ?s = "s\<lparr>tl_now := tl_now s + int n\<rparr>"
  have i: "pt_inv st ?s" by (rule pt_later [OF assms(1) True])
  then have "\<not> tl_replay ?s" "tl_enabled ?s" "tl_type ?s = QEMU_CLOCK_VIRTUAL" by (simp_all add: pt_inv_def pt_clock_def)
  from tc.run_timers_returns [OF i this, of "\<lambda>_. True"] that show thesis using True by (auto simp: timer_advance_def)
next
  case False
  then show thesis using that assms by (simp add: timer_advance_def)
qed

text \<open>A started timer whose deadline comes interrupts, and is armed for the next multiple of its period.\<close>

lemma timer_advance_fires:
  assumes inv: "pt_inv st s" and st: "pt_started s" and e: "deadlines s st = Some e" "e \<le> tl_now s + int n" "tl_now s + int n < INT64_MAX"
  obtains s' where "timer_advance s n = Some s'" "pt_irq (tl_dev s')" "tl_now s' = tl_now s + int n"
    "deadlines s' st = Some (int (next_tick (unat (pt_base_time (tl_dev s))) (unat (pt_tick_interval (tl_dev s))) (nat (tl_now s + int n))))"
proof -
  let ?s = "s\<lparr>tl_now := tl_now s + int n\<rparr>"
  have i: "pt_inv st ?s" by (rule pt_later [OF inv e(3)])
  have "st \<in> set (tl_active s)" "e = expire_time s st" using e(1) by (auto simp: deadlines_def split: if_splits)
  moreover obtain t rest where a: "tl_active ?s = t # rest" using \<open>st \<in> set (tl_active s)\<close> by (cases "tl_active s") auto
  moreover have t: "t = st" by (rule pt_chain [OF i a])
  ultimately have x: "expire_time ?s t \<le> tl_now ?s" using e(2) by simp
  obtain s1 where s1: "timer_cb t (timer_unchain ?s t rest) = Some s1" "pt_inv st s1" "tl_same ?s s1"
      "\<forall>u e. deadlines s1 u = Some e \<longrightarrow> tl_now ?s < e"
      "pt_started ?s \<longrightarrow> pt_irq (tl_dev s1) \<and> deadlines s1 st =
         Some (int (next_tick (unat (pt_base_time (tl_dev ?s))) (unat (pt_tick_interval (tl_dev ?s))) (nat (tl_now ?s))))"
    by (rule timer_cb_fires [OF i a x])
  have "timerlist_loop timer_cb cp (tl_now ?s) k True s1 = Some (True, s1)" for cp k
  proof (cases "tl_active s1")
    case (Cons v vs)
    then have "deadlines s1 v = Some (expire_time s1 v)" by (simp add: deadlines_def)
    then have "tl_now ?s < expire_time s1 v" using s1(4) by blast
    then show ?thesis using Cons by (subst timerlist_loop.simps) (simp add: timer_expired_ns_def)
  qed (subst timerlist_loop.simps, simp)
  then have "timerlist_run_timers timer_cb (\<lambda>_. True) ?s = Some (True, s1)"
    using a x s1(1) i unfolding timerlist_run_timers_def
    by (subst timerlist_loop.simps) (simp add: timer_expired_ns_def pt_inv_def pt_clock_def)
  then have "timer_advance s n = Some s1" using e(3) by (simp add: timer_advance_def)
  moreover have "tl_now s1 = tl_now s + int n" using s1(3) by (simp add: tl_same_def)
  ultimately show thesis using that s1(5) st by simp
qed

section \<open>Every access completes\<close>

text \<open>Updates of the device that leave what the invariant reads.\<close>

lemma pt_inv_upd:
  assumes "pt_inv st s" "pt_dev st (now64 s) (f (tl_dev s))" "pt_status (f (tl_dev s)) = pt_status (tl_dev s)"
  shows "pt_inv st (dev_upd f s)"
  using assms by (simp add: pt_inv_def)

lemma pt_frame:
  assumes "pt_inv st s" "pt_status (f (tl_dev s)) = pt_status (tl_dev s)" "pt_dilation (f (tl_dev s)) = pt_dilation (tl_dev s)"
    "pt_freq_hz (f (tl_dev s)) = pt_freq_hz (tl_dev s)" "pt_st_timer (f (tl_dev s)) = pt_st_timer (tl_dev s)"
    "pt_base_time (f (tl_dev s)) = pt_base_time (tl_dev s)" "pt_tick_interval (f (tl_dev s)) = pt_tick_interval (tl_dev s)"
    "pt_next_planned_tick (f (tl_dev s)) = pt_next_planned_tick (tl_dev s)"
  shows "pt_inv st (dev_upd f s)"
  by (rule pt_inv_upd) (use assms in \<open>simp_all add: pt_inv_def pt_dev_def pt_board_def\<close>)

lemma timer_channel_idx:
  assumes "addr < of_nat TIMER_NUM_CHANNELS * TIMER_STRIDE"
  shows "unat (addr div TIMER_STRIDE) < TIMER_NUM_CHANNELS"
  using assms by (simp add: timer_regs word_less_nat_alt unat_div_word less_mult_imp_div_less)

lemma timer_channel_output_total: "\<exists>o'. timer_channel_output c hz = Some o'"
proof -
  have "unat (drop_bit 8 (ch_config c) AND 7) < 8" by (rule unat_and_less) simp
  then show ?thesis by (auto simp: timer_channel_output_def muldiv64_def Let_def)
qed

lemma timer_channel_store_inv:
  assumes "pt_inv st s" "addr < of_nat TIMER_NUM_CHANNELS * TIMER_STRIDE"
  obtains s' where "timer_channel_store s addr v = Some s'" "pt_inv st s'" "due s' = due s"
proof -
  let ?n = "unat (addr div TIMER_STRIDE)"
  define c where "c = timer_channel_write (pt_chan (tl_dev s) ?n) (addr mod TIMER_STRIDE) v (tl_now s)"
  define s1 where "s1 = dev_upd (\<lambda>d. d\<lparr>pt_chan := (pt_chan (tl_dev s))(?n := c)\<rparr>) s"
  obtain o' where o': "timer_channel_output c (pt_input_hz (tl_dev s)) = Some o'" using timer_channel_output_total by blast
  have 1: "pt_inv st s1" "due s1 = due s" unfolding s1_def using assms(1) by (auto intro: pt_frame)
  have "pt_inv st (dev_upd (\<lambda>d. d\<lparr>pt_outputs := pt_outputs d @ [(?n, o')]\<rparr>) s1)" by (rule pt_frame) (simp_all add: 1)
  moreover have "timer_channel_store s addr v = Some (if addr mod TIMER_STRIDE = TIMER_STATE \<and> pt_output_hook (tl_dev s)
      then dev_upd (\<lambda>d. d\<lparr>pt_outputs := pt_outputs d @ [(?n, o')]\<rparr>) s1 else s1)"
    using timer_channel_idx [OF assms(2)] o' unfolding c_def s1_def by (auto simp: timer_channel_store_def Let_def)
  ultimately show thesis using that 1 by (auto split: if_splits)
qed

text \<open>Starting timer 4: the first tick is one period from now.\<close>

lemma timer4_start:
  assumes inv: "pt_inv st s" and a: "TIMER_4 + TIMER_STATE \<noteq> ucast (pt_irqlatch (tl_dev s))" and v: "(ucast v :: u32) AND TIMER_STATE_START \<noteq> 0"
  obtains s' where "s5l8900_timer1_write s (TIMER_4 + TIMER_STATE) v = Some s'" "pt_inv st s'" "pt_started s'" "tl_same s s'"
    "unat (pt_base_time (tl_dev s')) = nat (tl_now s)" "unat (pt_tick_interval (tl_dev s')) = timer4_interval (tl_dev s)"
    "deadlines s' = (deadlines s)(st \<mapsto> int (next_tick (nat (tl_now s)) (timer4_interval (tl_dev s)) (nat (tl_now s))))"
proof -
  let ?d = "(tl_dev s)\<lparr>pt_base_time := now64 s\<rparr>"
  have c: "pt_clock st s" "pt_dev st (now64 s) (tl_dev s)" using inv by (simp_all add: pt_inv_def)
  have b: "pt_board ?d" and i: "timer4_interval ?d = timer4_interval (tl_dev s)"
    using c(2) by (simp_all add: pt_dev_def pt_board_def timer4_interval_def)
  obtain f where u: "s5l8900_st_update ?d = Some (?d\<lparr>pt_freq_out := f, pt_tick_interval := of_nat (timer4_interval ?d), pt_next_planned_tick := 0\<rparr>)"
    by (rule st_update [OF b])
  define d1 where "d1 = ?d\<lparr>pt_freq_out := f, pt_tick_interval := of_nat (timer4_interval ?d), pt_next_planned_tick := 0\<rparr>"
  have I: "unat (pt_tick_interval d1) = timer4_interval (tl_dev s)"
    using timer4_interval_bounds [OF b] by (simp add: d1_def i unat_of_nat)
  let ?s = "dev_upd (\<lambda>_. d1) s"
  have d1: "pt_st_timer d1 = Some st" "pt_base_time d1 = now64 s" using c(2) by (simp_all add: d1_def pt_dev_def)
  have iv: "pt_tick_interval d1 \<noteq> 0" "pt_tick_interval d1 \<le> mask 63"
    using timer4_interval_bounds [OF b] I by (auto simp: i word_le_nat_alt unat_mask63)
  obtain s1 p l where s1: "s5l8900_st_set_timer ?s = Some s1" "tl_ok s1" "tl_same ?s s1"
      "deadlines s1 = (deadlines ?s)(st \<mapsto> int (next_tick (unat (pt_base_time (tl_dev ?s))) (unat (pt_tick_interval (tl_dev ?s))) (nat (tl_now ?s))))"
      "tl_dev s1 = (tl_dev ?s)\<lparr>pt_next_planned_tick := p, pt_last_tick := l\<rparr>" "p \<le> mask 63 - pt_base_time (tl_dev ?s)"
    by (rule st_set_timer [of st ?s]) (use c d1 iv in simp_all)
  let ?s' = "dev_upd (\<lambda>d. d\<lparr>pt_status := ucast v\<rparr>) s1"
  have same: "tl_same s s1" using tl_same_trans [of s ?s s1] s1(3) by simp
  have w: "s5l8900_timer1_write s (TIMER_4 + TIMER_STATE) v = Some ?s'"
    using a v u s1(1) unfolding s5l8900_timer1_write_def Let_def set_dev_upd by (simp add: timer_regs flip: d1_def)
  have "pt_clock st s1" using pt_clock_same [OF c(1) same s1(2)] s1(4) by simp
  moreover have "pt_dev st (now64 s1) ((tl_dev s1)\<lparr>pt_status := ucast v\<rparr>)"
    using c(2) d1 iv s1(6) unfolding now64_same [OF same] s1(5) by (simp add: pt_dev_def pt_board_def d1_def)
  ultimately have "pt_inv st ?s'" using s1(4) by (simp add: pt_inv_def)
  moreover have "tl_same s ?s'" using tl_same_trans [of s s1 ?s'] same by simp
  ultimately show thesis using that [of ?s'] w v s1(4,5) d1 I unat_now64(1) [OF c(1)] by simp
qed

lemma due_empty: "due s = {} \<longleftrightarrow> (\<forall>t e. deadlines s t = Some e \<longrightarrow> tl_now s < e)"
  by (auto simp: due_def not_le)

lemma timer4_start_due:
  assumes "pt_inv st s" "due s = {}" "deadlines s' = (deadlines s)(st \<mapsto> int (next_tick (nat (tl_now s)) (timer4_interval (tl_dev s)) (nat (tl_now s))))"
    "tl_same s s'"
  shows "due s' = {}"
proof -
  have b: "pt_board (tl_dev s)" and c: "pt_clock st s" using assms(1) by (simp_all add: pt_inv_def pt_dev_def)
  have "nat (tl_now s) < next_tick (nat (tl_now s)) (timer4_interval (tl_dev s)) (nat (tl_now s))"
    using timer4_interval_bounds(1) [OF b] unat_now64(2) [OF c] by (intro next_tick_future) simp_all
  moreover have "tl_now s' = tl_now s" using assms(4) by (simp add: tl_same_def)
  ultimately show ?thesis using assms(2,3) by (auto simp: due_empty)
qed

lemma pt_inv_del:
  assumes "pt_inv st s" "v AND TIMER_STATE_START = 0"
  shows "pt_inv st (dev_upd (\<lambda>d. d\<lparr>pt_status := v\<rparr>) s)" "pt_inv st (dev_upd (\<lambda>d. d\<lparr>pt_status := v\<rparr>) (timer_del s st))"
    "due s = {} \<Longrightarrow> due (timer_del s st) = {}"
proof -
  have c: "pt_clock st s" "pt_dev st (now64 s) (tl_dev s)" using assms(1) by (simp_all add: pt_inv_def)
  have l: "timer_del s st = timer_del_locked s st" using c(1) by (simp add: timer_del_def pt_clock_def)
  have n: "tl_now (timer_del_locked s st) = tl_now s" by (simp add: timer_del_locked_def tl_defs)
  show "pt_inv st (dev_upd (\<lambda>d. d\<lparr>pt_status := v\<rparr>) s)" using c assms(2) by (simp add: pt_inv_def pt_dev_def pt_board_def)
  show "pt_inv st (dev_upd (\<lambda>d. d\<lparr>pt_status := v\<rparr>) (timer_del s st))"
    using pt_del [OF c] assms(2) by (simp add: l pt_inv_def pt_dev_def pt_board_def)
  show "due (timer_del s st) = {}" if "due s = {}" using that by (auto simp: l due_empty pt_del [OF c] n)
qed

lemma timer_write_inv:
  assumes inv: "pt_inv st s" and d: "due s = {}"
  shows "\<exists>s'. s5l8900_timer1_write s addr value = Some s' \<and> pt_inv st s' \<and> due s' = {}"
proof -
  let ?d = "tl_dev s" and ?v = "ucast value :: u32"
  have c: "pt_clock st s" "pt_dev st (now64 s) ?d" using inv by (simp_all add: pt_inv_def)
  note frame = pt_frame [OF inv]
  consider (latch) "addr = ucast (pt_irqlatch ?d)" | (config) "addr \<noteq> ucast (pt_irqlatch ?d)" "addr = TIMER_4 + TIMER_CONFIG"
    | (state) "addr \<noteq> ucast (pt_irqlatch ?d)" "addr = TIMER_4 + TIMER_STATE"
    | (chan) "addr \<noteq> ucast (pt_irqlatch ?d)" "addr < of_nat TIMER_NUM_CHANNELS * TIMER_STRIDE"
    | (other) "addr \<noteq> ucast (pt_irqlatch ?d)" "addr \<noteq> TIMER_4 + TIMER_CONFIG" "addr \<noteq> TIMER_4 + TIMER_STATE"
        "\<not> addr < of_nat TIMER_NUM_CHANNELS * TIMER_STRIDE" by blast
  then show ?thesis
  proof cases
    case latch
    then show ?thesis using frame [of "\<lambda>d. d\<lparr>pt_irq := False\<rparr>"] d by (simp add: s5l8900_timer1_write_def Let_def)
  next
    case config
    let ?h = "if pt_first_config_hook ?d then ?d\<lparr>pt_hook_runs := Suc (pt_hook_runs ?d)\<rparr> else ?d"
    have b: "pt_board ?h" and i: "timer4_interval ?h = timer4_interval ?d" using c(2) by (simp_all add: pt_dev_def pt_board_def timer4_interval_def)
    obtain f where u: "s5l8900_st_update ?h = Some (?h\<lparr>pt_freq_out := f, pt_tick_interval := of_nat (timer4_interval ?h), pt_next_planned_tick := 0\<rparr>)"
      by (rule st_update [OF b])
    let ?d1 = "?h\<lparr>pt_freq_out := f, pt_tick_interval := of_nat (timer4_interval ?h), pt_next_planned_tick := 0, pt_config := ?v\<rparr>"
    have "unat (of_nat (timer4_interval ?h) :: u64) = timer4_interval ?h" using timer4_interval_bounds [OF b] by (simp add: unat_of_nat)
    then have "pt_dev st (now64 s) ?d1" using c(2) timer4_interval_bounds [OF b]
      by (auto simp: pt_dev_def pt_board_def word_le_nat_alt unat_mask63)
    then have "pt_inv st (dev_upd (\<lambda>_. ?d1) s)" using inv by (intro pt_inv_upd) simp_all
    moreover have "s5l8900_timer1_write s addr value = Some (dev_upd (\<lambda>_. ?d1) s)"
      using config u by (simp add: s5l8900_timer1_write_def Let_def timer_regs set_dev_upd)
    ultimately show ?thesis using d by simp
  next
    case state
    show ?thesis
    proof (cases "?v AND TIMER_STATE_START = 0")
      case True
      have "s5l8900_timer1_write s addr value =
          Some (dev_upd (\<lambda>d. d\<lparr>pt_status := ?v\<rparr>) (if value = TIMER_STATE_STOP then timer_del s st else s))"
        using state True c(2) by (simp add: s5l8900_timer1_write_def Let_def timer_regs pt_dev_def)
      then show ?thesis using pt_inv_del [OF inv True] d by (cases "value = TIMER_STATE_STOP") auto
    next
      case False
      from timer4_start [OF inv _ False] state obtain s' where s': "s5l8900_timer1_write s (TIMER_4 + TIMER_STATE) value = Some s'"
          "pt_inv st s'" "tl_same s s'"
          "deadlines s' = (deadlines s)(st \<mapsto> int (next_tick (nat (tl_now s)) (timer4_interval (tl_dev s)) (nat (tl_now s))))"
        by metis
      show ?thesis using s'(1,2) timer4_start_due [OF inv d s'(4,3)] state(2) by blast
    qed
  next
    case chan
    then have "s5l8900_timer1_write s addr value = timer_channel_store s addr ?v"
      by (auto simp: s5l8900_timer1_write_def Let_def timer_regs)
    then show ?thesis using timer_channel_store_inv [OF inv chan(2), of ?v] d by metis
  next
    case other
    then show ?thesis
      using frame [of "\<lambda>d. d\<lparr>pt_irqstat := ?v\<rparr>"] frame [of "\<lambda>d. d\<lparr>pt_bcount1 := ?v, pt_bcreload := ?v\<rparr>"]
        frame [of "\<lambda>d. d\<lparr>pt_bcount2 := ?v\<rparr>"] inv d
      by (simp add: s5l8900_timer1_write_def Let_def)
  qed
qed

lemma timer_read_inv:
  assumes "pt_inv st s" "due s = {}"
  shows "\<exists>s' r. s5l8900_timer1_read s addr = Some (s', r) \<and> pt_inv st s' \<and> due s' = {}"
proof -
  have "\<exists>ticks. clock_ns_to_ticks (pt_sysclk (tl_dev s)) ns = Some ticks" for ns
    by (cases "pt_sysclk (tl_dev s) = 0") (simp_all add: clock_ns_to_ticks_value, simp add: clock_ns_to_ticks_def Let_def)
  then obtain ticks where t: "clock_ns_to_ticks (pt_sysclk (tl_dev s)) (word_of_int (tl_now s div 2)) = Some ticks" by blast
  have "\<exists>v. s5l8900_timer1_read_locked (tl_dev s) addr = Some v"
    using timer_channel_idx [of addr] by (simp add: s5l8900_timer1_read_locked_def)
  then show ?thesis
    using t assms pt_frame [OF assms(1), of "\<lambda>d. d\<lparr>pt_ticks_high := ucast (drop_bit 32 ticks), pt_ticks_low := ucast (ticks AND 0xFFFFFFFF)\<rparr>"]
    by (auto simp: s5l8900_timer1_read_def Let_def)
qed

lemma timer_reset_inv:
  assumes "pt_clock st s" "pt_board (tl_dev s)" "pt_st_timer (tl_dev s) = Some st" "due s = {}"
  shows "pt_inv st (ipod_touch_timer_reset s) \<and> due (ipod_touch_timer_reset s) = {}"
proof -
  let ?f = "\<lambda>d. d\<lparr>pt_ticks_high := 0, pt_ticks_low := 0, pt_status := 0, pt_config := 0, pt_bcount1 := 0,
    pt_bcount2 := 0, pt_prescaler := 0, pt_irqstat := 0, pt_bcreload := 0, pt_tick_interval := 0, pt_last_tick := 0,
    pt_next_planned_tick := 0, pt_base_time := now64 s, pt_chan := (\<lambda>_. zero_channel)\<rparr>"
  have "pt_inv st (dev_upd ?f s)" using assms(1-3) by (simp add: pt_inv_def pt_dev_def pt_board_def)
  note del = pt_inv_del [OF this, of 0]
  have "pt_inv st (dev_upd (\<lambda>d. d\<lparr>pt_irq := False\<rparr>) (dev_upd (\<lambda>d. d\<lparr>pt_status := 0\<rparr>) (timer_del (dev_upd ?f s) st)))"
    by (rule pt_frame [where f = "\<lambda>d. d\<lparr>pt_irq := False\<rparr>"]) (use del in simp_all)
  moreover have "tl_dev (timer_del (dev_upd ?f s) st) = ?f (tl_dev s)" by (simp add: timer_del_def timer_del_locked_def tl_defs)
  then have "dev_upd (\<lambda>d. d\<lparr>pt_irq := False\<rparr>) (dev_upd (\<lambda>d. d\<lparr>pt_status := 0\<rparr>) (timer_del (dev_upd ?f s) st)) = ipod_touch_timer_reset s"
    using assms(3) by (simp add: ipod_touch_timer_reset_def Let_def pt_inv_def pt_dev_def) (simp add: dev_upd_def)
  ultimately have "pt_inv st (ipod_touch_timer_reset s)" by simp
  moreover have "due (ipod_touch_timer_reset s) = {}"
    using del(3) assms by (simp add: ipod_touch_timer_reset_def Let_def pt_inv_def pt_dev_def)
  ultimately show ?thesis by blast
qed

interpretation tmr: guest_device timer_step "\<lambda>s. pt_inv st s \<and> due s = {}" "\<lambda>_. True" for st
proof unfold_locales
  fix s e
  assume s: "pt_inv st s \<and> due s = {}"
  show "\<exists>s' r. timer_step s e = Some (s', r) \<and> pt_inv st s' \<and> due s' = {}"
  proof (cases e)
    case (MRead a)
    then show ?thesis using s timer_read_inv [of st s a] by simp
  next
    case (MWrite a v)
    then show ?thesis using s timer_write_inv [of st s a v] by auto
  next
    case DevReset
    then show ?thesis using s timer_reset_inv [of st s] by (simp add: pt_inv_def pt_dev_def)
  next
    case (Ext n)
    obtain s' where "timer_advance s n = Some s'" "pt_inv st s'" "due s' = {}" by (rule timer_advance_inv [of st s n]) (use s in simp_all)
    then show ?thesis using Ext by simp
  qed
qed

section \<open>What the timer promises\<close>

text \<open>
  Power-on: the device is created on a running clock with no timers, the board sets the dilation
  it was configured with (from 1 to its limit), and the device is reset.
\<close>

definition timer_boot :: "u32 \<Rightarrow> timer_state \<Rightarrow> nat \<Rightarrow> timer_state" where
  "timer_boot dilation s st =
     ipod_touch_timer_reset (dev_upd (\<lambda>d. d\<lparr>pt_dilation := dilation\<rparr>) (s5l8900_timer_init s st))"

definition pt_host :: "timer_state \<Rightarrow> bool" where
  "pt_host s = (tl_ok s \<and> tl_active s = [] \<and> \<not> tl_replay s \<and> tl_enabled s \<and> tl_type s = QEMU_CLOCK_VIRTUAL \<and> 0 \<le> tl_now s
     \<and> tl_now s < INT64_MAX \<and> (pt_freq_hz (tl_dev s) = 0 \<or> 1000000 \<le> pt_freq_hz (tl_dev s)))"

lemma timer_boot_inv:
  assumes "pt_host s" "0 < dil" "dil \<le> IT_TIMER_MAX_DILATION"
  shows "pt_inv st (timer_boot dil s st)" "due (timer_boot dil s st) = {}"
proof -
  let ?s = "s5l8900_timer_init s st" let ?b = "dev_upd (\<lambda>d. d\<lparr>pt_dilation := dil\<rparr>) ?s"
  have d: "deadlines ?s = Map.empty" using assms(1) by (simp add: deadlines_def fun_eq_iff s5l8900_timer_init_def timer_init_full_def pt_host_def)
  then have e: "due ?b = {}" by (simp add: due_empty)
  have ok: "tl_ok ?s" using assms(1) by (auto simp: tl_ok_def s5l8900_timer_init_def timer_init_full_def pt_host_def)
  have "pt_clock st ?s" using assms(1) ok d
    by (simp add: pt_clock_def) (simp add: s5l8900_timer_init_def timer_init_full_def pt_host_def dev_upd_def)
  moreover have "pt_board (tl_dev ?b)" "pt_st_timer (tl_dev ?b) = Some st"
    using assms by (simp_all add: s5l8900_timer_init_def timer_init_full_def pt_host_def pt_board_def)
  ultimately show "pt_inv st (timer_boot dil s st)" "due (timer_boot dil s st) = {}"
    using timer_reset_inv [of st ?b] e by (simp_all add: timer_boot_def)
qed

text \<open>
  C5. The timer never stalls the machine: from power-on, any sequence of register accesses, resets
  and passages of time completes, the main loop's run over the expired timers included, and as
  long as timer 4 is started its next tick is armed at a time still to come.
\<close>

theorem timer_runs_on:
  assumes "pt_host s0" "0 < dil" "dil \<le> IT_TIMER_MAX_DILATION"
  shows "\<exists>s rs. dev_run timer_step (timer_boot dil s0 st) es = Some (s, rs) \<and> length rs = length es
     \<and> (pt_started s \<longrightarrow> (\<exists>e. deadlines s st = Some e \<and> tl_now s < e))"
proof -
  have "pt_inv st (timer_boot dil s0 st) \<and> due (timer_boot dil s0 st) = {}" using timer_boot_inv [OF assms] by blast
  from tmr.run_total [OF this, of es] obtain s rs where
    s: "dev_run timer_step (timer_boot dil s0 st) es = Some (s, rs)" "pt_inv st s" "due s = {}" "length rs = length es"
    by (auto simp: list_all_iff)
  have "\<exists>e. deadlines s st = Some e \<and> tl_now s < e" if "pt_started s" using that s(2,3) by (auto simp: pt_inv_def due_empty)
  with s show ?thesis by blast
qed

text \<open>
  C6. A started timer ticks: after a store that starts timer 4, once its period has passed the
  interrupt line is raised, and the next tick is armed within a period of then. The period is the
  count (at least 1000) over the rate, times the dilation.
\<close>

theorem timer4_ticks:
  assumes "pt_inv st s" "TIMER_4 + TIMER_STATE \<noteq> ucast (pt_irqlatch (tl_dev s))" "(ucast v :: u32) AND TIMER_STATE_START \<noteq> 0"
    and "timer4_interval (tl_dev s) \<le> n" "tl_now s + int n < INT64_MAX"
  shows "\<exists>s1 s2 e. timer_step s (MWrite (TIMER_4 + TIMER_STATE) v) = Some (s1, 0) \<and> timer_step s1 (Ext n) = Some (s2, 0)
     \<and> pt_irq (tl_dev s2) \<and> deadlines s2 st = Some e \<and> tl_now s + int n < e
     \<and> e \<le> tl_now s + int n + int (timer4_interval (tl_dev s))"
proof -
  let ?I = "timer4_interval (tl_dev s)" and ?N = "nat (tl_now s)"
  obtain s1 where s1: "s5l8900_timer1_write s (TIMER_4 + TIMER_STATE) v = Some s1" "pt_inv st s1" "pt_started s1" "tl_same s s1"
      "unat (pt_base_time (tl_dev s1)) = ?N" "unat (pt_tick_interval (tl_dev s1)) = ?I"
      "deadlines s1 = (deadlines s)(st \<mapsto> int (next_tick ?N ?I ?N))"
    by (rule timer4_start [OF assms(1-3)])
  have c: "pt_clock st s" "pt_board (tl_dev s)" using assms(1) by (simp_all add: pt_inv_def pt_dev_def)
  have now: "tl_now s1 = tl_now s" "0 \<le> tl_now s" "?N < 2 ^ 63 - 1" using s1(4) c(1) unat_now64(2) [OF c(1)] by (simp_all add: tl_same_def pt_clock_def)
  note I = timer4_interval_bounds(1) [OF c(2)]
  have first: "deadlines s1 st = Some (int (next_tick ?N ?I ?N))" "int (next_tick ?N ?I ?N) \<le> tl_now s1 + int n" "tl_now s1 + int n < INT64_MAX"
    using s1(7) next_tick_future(2) [OF I, of ?N ?N] now assms(4,5) by simp_all
  obtain s2 where s2: "timer_advance s1 n = Some s2" "pt_irq (tl_dev s2)"
      "deadlines s2 st = Some (int (next_tick (unat (pt_base_time (tl_dev s1))) (unat (pt_tick_interval (tl_dev s1))) (nat (tl_now s1 + int n))))"
    by (rule timer_advance_fires [OF s1(2,3) first])
  have "nat (tl_now s + int n) < 2 ^ 63 - 1" "?N \<le> nat (tl_now s + int n)" using assms(5) now(2) by (simp_all add: INT64_MAX_def nat_less_iff)
  note fut = next_tick_future [OF I this(2,1)]
  have "tl_now s + int n < int (next_tick ?N ?I (nat (tl_now s + int n)))"
    "int (next_tick ?N ?I (nat (tl_now s + int n))) \<le> tl_now s + int n + int ?I"
    using fut now(2) by linarith+
  then show ?thesis using s1(1,5,6) s2 now(1) by auto
qed

text \<open>Between the two reads of the counter nothing but a reset or a new read of the high word touches the latch.\<close>

lemma mod_ns_dev: "timer_mod_ns s t e = Some s' \<Longrightarrow> tl_dev s' = tl_dev s"
  by (auto simp: timer_mod_ns_def timer_mod_ns_locked_def timer_del_locked_def tl_defs Let_def split: if_splits prod.splits)

lemma set_timer_latch: "s5l8900_st_set_timer s = Some s' \<Longrightarrow> pt_ticks_low (tl_dev s') = pt_ticks_low (tl_dev s)"
  by (auto simp: s5l8900_st_set_timer_def Let_def timer_mod_def bind_eq_Some_conv dest!: mod_ns_dev split: if_splits)

lemma del_dev: "tl_dev (timer_del s t) = tl_dev s" "tl_dev (timer_unchain s t rest) = tl_dev s"
  by (simp_all add: timer_del_def timer_del_locked_def tl_defs)

lemma cb_latch: "timer_cb t s = Some s' \<Longrightarrow> pt_ticks_low (tl_dev s') = pt_ticks_low (tl_dev s)"
  by (auto simp: timer_cb_def s5l8900_st_tick_def bind_eq_Some_conv del_dev dest!: set_timer_latch split: if_splits)

interpretation tcl: timer_client timer_cb "\<lambda>s. pt_inv st s \<and> pt_ticks_low (tl_dev s) = lo" for st lo
proof unfold_locales
  fix s t rest
  show "pt_inv st s \<and> pt_ticks_low (tl_dev s) = lo \<Longrightarrow> tl_ok s" using tc.inv_ok by blast
  assume a: "pt_inv st s \<and> pt_ticks_low (tl_dev s) = lo" "tl_active s = t # rest" "expire_time s t \<le> tl_now s"
  then obtain s' where "timer_cb t (timer_unchain s t rest) = Some s'" "pt_inv st s'" "tl_same s s'"
      "\<forall>u e. deadlines s' u = Some e \<longrightarrow> e \<le> tl_now s \<longrightarrow> u \<noteq> t \<and> deadlines s u = Some e"
    using tc.fires [of st s t rest] by blast
  then show "\<exists>s'. timer_cb t (timer_unchain s t rest) = Some s' \<and> (pt_inv st s' \<and> pt_ticks_low (tl_dev s') = lo) \<and> tl_same s s'
      \<and> (\<forall>u e. deadlines s' u = Some e \<longrightarrow> e \<le> tl_now s \<longrightarrow> u \<noteq> t \<and> deadlines s u = Some e)"
    using a(1) cb_latch del_dev(2) by metis
qed

lemma advance_latch:
  assumes "pt_inv st s" "timer_advance s n = Some s'"
  shows "pt_ticks_low (tl_dev s') = pt_ticks_low (tl_dev s)"
proof (cases "tl_now s + int n < INT64_MAX")
  case True
  let ?s = "s\<lparr>tl_now := tl_now s + int n\<rparr>"
  have i: "pt_inv st ?s \<and> pt_ticks_low (tl_dev ?s) = pt_ticks_low (tl_dev s)" using pt_later [OF assms(1) True] by simp
  then have "\<not> tl_replay ?s" "tl_enabled ?s" "tl_type ?s = QEMU_CLOCK_VIRTUAL" by (simp_all add: pt_inv_def pt_clock_def)
  from tcl.run_timers_returns [OF i this, of "\<lambda>_. True"] show ?thesis using assms(2) True by (auto simp: timer_advance_def)
qed (use assms(2) in \<open>simp add: timer_advance_def\<close>)

lemma write_latch: "s5l8900_timer1_write s a v = Some s' \<Longrightarrow> pt_ticks_low (tl_dev s') = pt_ticks_low (tl_dev s)"
  by (auto simp: s5l8900_timer1_write_def Let_def bind_eq_Some_conv s5l8900_st_update_def timer_channel_store_def del_dev
      dest!: set_timer_latch split: if_splits)

lemma step_latch:
  assumes "pt_inv st s" "timer_step s e = Some (s', r)" "e \<noteq> DevReset" "e \<noteq> MRead TIMER_TICKSHIGH"
  shows "pt_ticks_low (tl_dev s') = pt_ticks_low (tl_dev s)"
proof (cases e)
  case (MRead a)
  then show ?thesis using assms(2,4) by (auto simp: s5l8900_timer1_read_def bind_eq_Some_conv split: if_splits)
next
  case (MWrite a v)
  then show ?thesis using assms(2) by (auto simp: bind_eq_Some_conv dest: write_latch)
next
  case (Ext n)
  then show ?thesis using assms(1,2) by (auto simp: bind_eq_Some_conv dest: advance_latch)
qed (use assms(3) in simp)

lemma run_latch:
  assumes "pt_inv st s" "due s = {}" "DevReset \<notin> set es" "MRead TIMER_TICKSHIGH \<notin> set es"
  shows "\<exists>s' rs. dev_run timer_step s es = Some (s', rs) \<and> length rs = length es \<and> pt_ticks_low (tl_dev s') = pt_ticks_low (tl_dev s)"
  using assms
proof (induction es arbitrary: s)
  case (Cons e es)
  obtain s1 r where s1: "timer_step s e = Some (s1, r)" "pt_inv st s1" "due s1 = {}"
    using tmr.step_total [of st s e] Cons.prems(1,2) by blast
  have "pt_ticks_low (tl_dev s1) = pt_ticks_low (tl_dev s)" using step_latch [OF Cons.prems(1) s1(1)] Cons.prems(3,4) by auto
  with Cons.IH [OF s1(2,3)] Cons.prems(3,4) s1(1) show ?case by auto
qed simp

lemma ticks_halves:
  fixes ticks :: u64
  shows "unat (ucast (ucast (drop_bit 32 ticks) :: u32) :: u64) * 2 ^ 32 + unat (ucast (ucast (ticks AND 0xFFFFFFFF) :: u32) :: u64) = unat ticks"
proof -
  have m: "(0xFFFFFFFF :: u64) = mask 32" by (simp add: mask_eq_exp_minus_1)
  have "unat (drop_bit 32 ticks) = unat ticks div 2 ^ 32" "unat (ticks AND 0xFFFFFFFF) = unat ticks mod 2 ^ 32"
    unfolding m by (simp_all only: unat_drop unat_and_mask)
  moreover have "unat ticks div 2 ^ 32 < 2 ^ 32" using unsigned_less [of ticks, where ?'a = nat] by (simp add: less_mult_imp_div_less)
  ultimately show ?thesis by (simp add: unat_ucast_u64 unat_ucast_u32 word_le_nat_alt)
qed

text \<open>
  C26. The tick counter is coherent: the high word and then the low word, read in that order, are the two
  halves of the number of ticks of the clock at the first read, at half the clock's rate, however
  much time passes and whatever else the guest accesses in between, short of a reset or a new read
  of the high word.
\<close>

theorem timer_counter_coherent:
  assumes "pt_inv st s" "due s = {}" "pt_sysclk (tl_dev s) \<noteq> 0" "DevReset \<notin> set es" "MRead TIMER_TICKSHIGH \<notin> set es"
  shows "\<exists>s' hi rs lo. dev_run timer_step s (MRead TIMER_TICKSHIGH # es @ [MRead TIMER_TICKSLOW]) = Some (s', hi # rs @ [lo])
     \<and> length rs = length es
     \<and> unat hi * 2 ^ 32 + unat lo = nat (tl_now s) div 2 * 2 ^ 32 div unat (pt_sysclk (tl_dev s)) mod 2 ^ 64"
proof -
  define ticks where "ticks = (of_nat (nat (tl_now s) div 2 * 2 ^ 32 div unat (pt_sysclk (tl_dev s))) :: u64)"
  have now: "0 \<le> tl_now s" "tl_now s < INT64_MAX" using assms(1) by (simp_all add: pt_inv_def pt_clock_def)
  have "unat (word_of_int (tl_now s div 2) :: u64) = nat (tl_now s) div 2"
  proof -
    have "take_bit 64 (tl_now s div 2) = tl_now s div 2" using now by (intro take_bit_int_eq_self) (simp_all add: INT64_MAX_def)
    then show ?thesis using now(1) by (simp add: unsigned_of_int nat_take_bit_eq nat_div_distrib)
  qed
  then have t: "clock_ns_to_ticks (pt_sysclk (tl_dev s)) (word_of_int (tl_now s div 2)) = Some ticks"
    using assms(3) by (simp add: clock_ns_to_ticks_value ticks_def)
  let ?hi = "ucast (drop_bit 32 ticks) :: u32" and ?lo = "ucast (ticks AND 0xFFFFFFFF) :: u32"
  obtain s1 where s1: "timer_step s (MRead TIMER_TICKSHIGH) = Some (s1, ucast ?hi)" "pt_ticks_low (tl_dev s1) = ?lo"
    using t by (simp add: s5l8900_timer1_read_def timer_regs Let_def)
  have "pt_inv st s1" "due s1 = {}" using tmr.step_total [of st s "MRead TIMER_TICKSHIGH"] assms(1,2) s1(1) by auto
  from run_latch [OF this assms(4,5)] obtain s2 rs where
    s2: "dev_run timer_step s1 es = Some (s2, rs)" "length rs = length es" "pt_ticks_low (tl_dev s2) = ?lo" using s1(2) by auto
  have "timer_step s2 (MRead TIMER_TICKSLOW) = Some (s2, ucast ?lo)" using s2(3) by (simp add: s5l8900_timer1_read_def timer_regs)
  then have "dev_run timer_step s (MRead TIMER_TICKSHIGH # es @ [MRead TIMER_TICKSLOW]) = Some (s2, ucast ?hi # rs @ [ucast ?lo])"
    using s1(1) s2(1) by (simp add: dev_run_append del: timer_step.simps)
  then show ?thesis using s2(2) ticks_halves [of ticks] by (auto simp: ticks_def unat_of_nat)
qed

text \<open>
  C25. Every state the timer can reach from power-on passes the check a snapshot is loaded with, so
  no snapshot the program saves is refused.
\<close>

theorem timer_snapshot_accepted:
  assumes "pt_host s0" "0 < dil" "dil \<le> IT_TIMER_MAX_DILATION" and "dev_run timer_step (timer_boot dil s0 st) es = Some (s, rs)"
  shows "ipod_touch_timer_post_load s = None"
proof -
  have "pt_inv st (timer_boot dil s0 st) \<and> due (timer_boot dil s0 st) = {}" using timer_boot_inv [OF assms(1-3)] by blast
  then have "pt_inv st s" using tmr.run_inv [OF _ _ assms(4)] by (auto simp: list_all_iff)
  then show ?thesis by (auto simp: ipod_touch_timer_post_load_def Let_def pt_inv_def pt_dev_def not_less)
qed

section \<open>A concrete machine\<close>

definition pt_zero :: ptimer where
  "pt_zero = \<lparr>pt_ticks_high = 0, pt_ticks_low = 0, pt_status = 0, pt_config = 0, pt_bcount1 = 0, pt_bcount2 = 0, pt_prescaler = 0,
     pt_irqstat = 0, pt_st_timer = None, pt_sysclk = 0x5355555555, pt_bcreload = 0, pt_freq_out = 0, pt_dilation = 0, pt_irqlatch = 0x118,
     pt_freq_hz = 0, pt_first_config_hook = False, pt_hook_runs = 0, pt_chan = (\<lambda>_. zero_channel), pt_input_hz = 24000000,
     pt_output_hook = True, pt_outputs = [], pt_tick_interval = 0, pt_last_tick = 0, pt_next_planned_tick = 0, pt_base_time = 0, pt_irq = False\<rparr>"

definition timer_sample :: timer_state where
  "timer_sample = \<lparr>tl_type = QEMU_CLOCK_VIRTUAL, tl_enabled = True, tl_now = 1000, tl_replay = False, tl_active = [],
     tl_timer = (\<lambda>_. \<lparr>qt_expire = - 1, qt_attributes = 0, qt_scale = 1, qt_timer_list = True\<rparr>),
     tl_notified = 0, tl_cpu_work = [], tl_dev = pt_zero\<rparr>"

lemma timer_sample_host: "pt_host timer_sample"
  by (simp add: pt_host_def timer_sample_def pt_zero_def tl_ok_def INT64_MAX_def)

lemma dilation_one: "0 < (1 :: u32)" "1 \<le> IT_TIMER_MAX_DILATION"
  by (simp_all add: IT_TIMER_MAX_DILATION_def)

lemma timer_sample_boot:
  "tl_now (timer_boot 1 timer_sample st) = 1000" "pt_irqlatch (tl_dev (timer_boot 1 timer_sample st)) = 0x118"
  "timer4_interval (tl_dev (timer_boot 1 timer_sample st)) = 100000" "pt_sysclk (tl_dev (timer_boot 1 timer_sample st)) = 0x5355555555"
  by (simp_all add: timer_boot_def ipod_touch_timer_reset_def s5l8900_timer_init_def timer_init_full_def timer_del_def
      timer_del_locked_def tl_defs Let_def timer_sample_def pt_zero_def timer4_interval_def dev_upd_def)

theorem timer_runs_on_witness:
  "\<exists>s rs. dev_run timer_step (timer_boot 1 timer_sample 7) [MWrite 0xA8 6000, MWrite 0xA4 3, Ext 700000, MRead 0x80] = Some (s, rs)
     \<and> length rs = 4"
  using timer_runs_on [OF timer_sample_host dilation_one, of 7 "[MWrite 0xA8 6000, MWrite 0xA4 3, Ext 700000, MRead 0x80]"] by auto

theorem timer4_ticks_witness:
  "\<exists>s1 s2 e. timer_step (timer_boot 1 timer_sample 7) (MWrite (TIMER_4 + TIMER_STATE) 3) = Some (s1, 0) \<and> timer_step s1 (Ext 100000) = Some (s2, 0)
     \<and> pt_irq (tl_dev s2) \<and> deadlines s2 7 = Some e \<and> 101000 < e \<and> e \<le> 201000"
  using timer4_ticks [OF timer_boot_inv(1) [OF timer_sample_host dilation_one], of 7 3 100000]
  by (simp add: timer_sample_boot INT64_MAX_def TIMER_4_def TIMER_STATE_def TIMER_STATE_START_def)

theorem timer_counter_coherent_witness:
  "\<exists>s' hi rs lo. dev_run timer_step (timer_boot 1 timer_sample 7)
       (MRead TIMER_TICKSHIGH # [MWrite 0xA4 1, Ext 700000] @ [MRead TIMER_TICKSLOW]) = Some (s', hi # rs @ [lo])
     \<and> length rs = length [MWrite 0xA4 1, Ext 700000 :: nat bus_event] \<and> unat hi * 2 ^ 32 + unat lo = 6"
  using timer_counter_coherent [OF timer_boot_inv [OF timer_sample_host dilation_one, of 7], of "[MWrite 0xA4 1, Ext 700000]"]
  by (simp add: timer_sample_boot)

theorem timer_snapshot_accepted_witness:
  "\<exists>s rs. dev_run timer_step (timer_boot 1 timer_sample 7) [MWrite 0xA4 1, Ext 700000] = Some (s, rs) \<and> ipod_touch_timer_post_load s = None"
proof -
  have "pt_inv 7 (timer_boot 1 timer_sample 7) \<and> due (timer_boot 1 timer_sample 7) = {}" using timer_boot_inv [OF timer_sample_host dilation_one] by blast
  from tmr.run_total [OF this, of "[MWrite 0xA4 1, Ext 700000]"] obtain s rs where
    "dev_run timer_step (timer_boot 1 timer_sample 7) [MWrite 0xA4 1, Ext 700000] = Some (s, rs)" by (auto simp: list_all_iff)
  with timer_snapshot_accepted [OF timer_sample_host dilation_one this] show ?thesis by blast
qed

end
