(* ===== verification/Timer_Output.thy ===== *)
theory Timer_Output
  imports Timer
begin

text \<open>
  The output pins of timers 0 to 3: from the stores that program a channel to the waveform the
  board is told of.
\<close>

section \<open>The output pins\<close>

lemma timer_channel_addr:
  assumes "n < TIMER_NUM_CHANNELS" "reg < TIMER_STRIDE"
  defines "addr \<equiv> of_nat n * TIMER_STRIDE + reg"
  shows "unat (addr div TIMER_STRIDE) = n" "addr mod TIMER_STRIDE = reg" "addr < of_nat TIMER_NUM_CHANNELS * TIMER_STRIDE"
proof -
  have n: "unat (of_nat n :: u64) = n" using assms(1) by (simp add: unat_of_nat timer_regs)
  have r: "unat reg < 32" using assms(2) by (simp add: timer_regs word_less_nat_alt)
  have a: "unat addr = n * 32 + unat reg" unfolding addr_def using assms(1) r n by (simp add: timer_regs unat_word_ariths)
  then show "unat (addr div TIMER_STRIDE) = n" "addr mod TIMER_STRIDE = reg" "addr < of_nat TIMER_NUM_CHANNELS * TIMER_STRIDE"
    using assms(1) r by (simp_all add: timer_regs word_unat_eq_iff word_less_nat_alt unat_div_word unat_mod_word)
qed

text \<open>A store to a register of timers 0 to 3, with what the board is told of it.\<close>

definition channel_report :: "nat \<Rightarrow> u64 \<Rightarrow> channel \<Rightarrow> ptimer \<Rightarrow> (nat \<times> timer_output) list" where
  "channel_report n reg c d = (if reg = TIMER_STATE \<and> pt_output_hook d then [(n, the (timer_channel_output c (pt_input_hz d)))] else [])"

lemma timer_channel_reg:
  fixes v :: u64
  assumes n: "n < TIMER_NUM_CHANNELS" and r: "reg < TIMER_STRIDE" and l: "0x80 \<le> pt_irqlatch (tl_dev s)"
  defines "c \<equiv> timer_channel_write (pt_chan (tl_dev s) n) reg (ucast v) (tl_now s)"
  shows "timer_step s (MWrite (of_nat n * TIMER_STRIDE + reg) v) =
    Some (dev_upd (\<lambda>d. d\<lparr>pt_chan := (pt_chan d)(n := c), pt_outputs := pt_outputs d @ channel_report n reg c d\<rparr>) s, 0)"
proof -
  let ?a = "of_nat n * TIMER_STRIDE + reg"
  note a = timer_channel_addr [OF n r]
  have "unat ?a < 0x80" using a(3) by (simp add: timer_regs word_less_nat_alt)
  moreover have "0x80 \<le> unat (ucast (pt_irqlatch (tl_dev s)) :: u64)" using l by (simp add: unat_ucast_u64 word_le_nat_alt)
  ultimately have "?a \<noteq> ucast (pt_irqlatch (tl_dev s))" "?a \<noteq> TIMER_IRQSTAT" "?a \<noteq> TIMER_4 + TIMER_CONFIG" "?a \<noteq> TIMER_4 + TIMER_STATE"
      "?a \<noteq> TIMER_4 + TIMER_COUNT_BUFFER" "?a \<noteq> TIMER_4 + TIMER_COUNT_BUFFER2"
    by (auto simp: word_unat_eq_iff timer_regs)
  then have w: "s5l8900_timer1_write s ?a v = timer_channel_store s ?a (ucast v)" using a(3) by (simp add: s5l8900_timer1_write_def Let_def)
  obtain o' where o': "timer_channel_output c (pt_input_hz (tl_dev s)) = Some o'" using timer_channel_output_total by blast
  have "timer_channel_store s ?a (ucast v) =
      Some (dev_upd (\<lambda>d. d\<lparr>pt_chan := (pt_chan d)(n := c), pt_outputs := pt_outputs d @ channel_report n reg c d\<rparr>) s)"
    using n o' unfolding timer_channel_store_def Let_def a(1,2) c_def channel_report_def by (auto simp: dev_upd_def)
  then show ?thesis using w by simp
qed

lemma ucast_ucast_u32: "ucast (ucast w :: u64) = w" for w :: u32
  by (rule bit_eqI) (auto simp: bit_ucast_iff)

text \<open>
  The waveform a channel's registers give, in numbers: the clock is divided by 2, 4, 16 or 64 as bits
  8 and 9 of the configuration select, or not at all with bit 10 set, and then by the prescaler plus one.
\<close>

definition wave_divider :: "u32 \<Rightarrow> nat" where
  "wave_divider cfg =
     (if bit cfg 10 then 1
      else if bit cfg 9 then (if bit cfg 8 then 64 else 16)
      else if bit cfg 8 then 4 else 2)"

definition wave_ticks :: "u32 \<Rightarrow> u32 \<Rightarrow> nat" where
  "wave_ticks cfg pre = wave_divider cfg * (unat pre + 1)"

lemma prediv_divider: "unat (prediv (unat (drop_bit 8 cfg AND 7))) = wave_divider cfg"
proof -
  have m: "(7 :: u32) = mask 3" by (simp add: mask_eq_exp_minus_1)
  have "drop_bit 8 cfg AND 7 = of_bool (bit cfg 8) + 2 * of_bool (bit cfg 9) + 4 * of_bool (bit cfg 10)"
    unfolding m take_bit_eq_mask [symmetric] take_bit_sum
    by (simp add: numeral_3_eq_3 bit_drop_bit_eq push_bit_eq_mult)
  then show ?thesis by (cases "bit cfg 8"; cases "bit cfg 9"; cases "bit cfg 10") (simp_all add: wave_divider_def prediv_def)
qed

definition wave_ns :: "nat \<Rightarrow> u32 \<Rightarrow> nat" where
  "wave_ns ticks hz = ticks * 1000000000 div unat hz"

lemma timer_channel_output_value:
  assumes c: "ch_start_ns c \<noteq> 0" "ch_lcb2 c \<noteq> 0" "ch_lpre c \<noteq> - 1" and hz: "hz \<noteq> 0" "unat hz \<le> 1000000000"
  defines "T \<equiv> wave_ticks (ch_config c) (ch_lpre c)"
  defines "period \<equiv> wave_ns (T * unat (ch_lcb2 c)) hz"
  assumes fits: "0 \<le> ch_start_ns c" "ch_start_ns c + int period \<le> INT64_MAX"
  shows "timer_channel_output c hz = Some \<lparr>to_start_ns = ch_start_ns c,
     to_end_ns = (if drop_bit 4 (ch_config c) AND 3 = 2 then ch_start_ns c + int period else INT64_MAX),
     to_period_ns = int period, to_high_ns = int (wave_ns (T * unat (min (ch_lcb c) (ch_lcb2 c))) hz)\<rparr>"
    and "wave_ns (T * unat (min (ch_lcb c) (ch_lcb2 c))) hz \<le> period"
proof -
  let ?i = "unat (drop_bit 8 (ch_config c) AND 7)" let ?m = "min (ch_lcb c) (ch_lcb2 c)"
  have i: "?i < 8" by (rule unat_and_less) simp
  have pos: "0 < unat hz" using hz(1) by (simp add: unat_gt_0)
  have pl: "unat (ch_lpre c + 1) = unat (ch_lpre c) + 1"
  proof -
    have "ch_lpre c + 1 \<noteq> 0" using c(3) by (simp add: eq_neg_iff_add_eq_0)
    then show ?thesis using unat_dec_word [of "ch_lpre c + 1"] unat_gt_0 [of "ch_lpre c + 1"] by simp
  qed
  define t where "t = (ucast (prediv ?i) * ucast (ch_lpre c + 1) :: u64)"
  have t: "unat t = T" unfolding t_def by (simp add: unat_mult_u64 pl T_def wave_ticks_def prediv_divider)
  have P: "period < 2 ^ 63" using fits by (simp add: INT64_MAX_def)
  have le: "x \<le> wave_ns x hz" for x
  proof -
    have "x = x * unat hz div unat hz" using pos by simp
    also have "\<dots> \<le> x * 1000000000 div unat hz" using hz(2) by (intro div_le_mono mult_le_mono2)
    finally show ?thesis by (simp add: wave_ns_def)
  qed
  have mono: "wave_ns x hz \<le> wave_ns y hz" if "x \<le> y" for x y unfolding wave_ns_def using that by (intro div_le_mono mult_le_mono1)
  have "unat ?m \<le> unat (ch_lcb2 c)" by (simp add: min_def word_le_nat_alt)
  then have m: "T * unat ?m \<le> T * unat (ch_lcb2 c)" by (intro mult_le_mono2)
  show h: "wave_ns (T * unat ?m) hz \<le> period" unfolding period_def by (rule mono [OF m])
  have md: "muldiv64 (t * ucast x) NANOSECONDS_PER_SECOND hz = Some (of_nat (wave_ns (T * unat x) hz))"
      "sint (of_nat (wave_ns (T * unat x) hz) :: u64) = int (wave_ns (T * unat x) hz)" if x: "unat x \<le> unat (ch_lcb2 c)" for x :: u32
  proof -
    have "wave_ns (T * unat x) hz \<le> period" unfolding period_def using x by (intro mono mult_le_mono2)
    then have w: "wave_ns (T * unat x) hz < 2 ^ 63" using P by simp
    with le [of "T * unat x"] have "T * unat x < 2 ^ 64" by simp
    then have "unat (t * ucast x) = T * unat x" by (simp add: unat_word_ariths t unat_ucast_u64)
    then show "muldiv64 (t * ucast x) NANOSECONDS_PER_SECOND hz = Some (of_nat (wave_ns (T * unat x) hz))"
      using hz(1) by (simp add: muldiv64_def wave_ns_def NANOSECONDS_PER_SECOND_def)
    show "sint (of_nat (wave_ns (T * unat x) hz) :: u64) = int (wave_ns (T * unat x) hz)"
      using w by (simp add: signed_of_nat signed_take_bit_int_eq_self)
  qed
  show "timer_channel_output c hz = Some \<lparr>to_start_ns = ch_start_ns c,
     to_end_ns = (if drop_bit 4 (ch_config c) AND 3 = 2 then ch_start_ns c + int period else INT64_MAX),
     to_period_ns = int period, to_high_ns = int (wave_ns (T * unat ?m) hz)\<rparr>"
    using c hz(1) i md [of "ch_lcb2 c"] md [of ?m] \<open>unat ?m \<le> unat (ch_lcb2 c)\<close> fits
    unfolding timer_channel_output_def Let_def by (simp add: wrap64_id period_def flip: t_def)
qed

text \<open>
  C27. A tone: a stopped channel programmed with a configuration, a toggle point, a period and a
  prescaler and then started tells the board the waveform those registers mean: it starts now,
  the period and the high time are the counts times the divided clock, the high time is no
  longer than the period, and a one shot ends after one period.
\<close>

theorem timer_tone:
  fixes cfg cb cb2 pre :: u32
  assumes n: "n < TIMER_NUM_CHANNELS" and l: "0x80 \<le> pt_irqlatch (tl_dev s)" and h: "pt_output_hook (tl_dev s)"
    and c: "ch_start_ns (pt_chan (tl_dev s) n) = 0" "0 < tl_now s" "cb2 \<noteq> 0" "pre \<noteq> - 1"
    and hz: "pt_input_hz (tl_dev s) \<noteq> 0" "unat (pt_input_hz (tl_dev s)) \<le> 1000000000"
    and base: "base = of_nat n * TIMER_STRIDE"
    and period: "period = wave_ns (wave_ticks cfg pre * unat cb2) (pt_input_hz (tl_dev s))" "tl_now s + int period \<le> INT64_MAX"
  shows "\<exists>s' rs high. dev_run timer_step s [MWrite (base + TIMER_CONFIG) (ucast cfg), MWrite (base + TIMER_COUNT_BUFFER) (ucast cb),
       MWrite (base + TIMER_COUNT_BUFFER2) (ucast cb2), MWrite (base + TIMER_PRESCALER) (ucast pre), MWrite (base + TIMER_STATE) 3] = Some (s', rs)
     \<and> pt_outputs (tl_dev s') = pt_outputs (tl_dev s) @ [(n, \<lparr>to_start_ns = tl_now s,
          to_end_ns = (if drop_bit 4 cfg AND 3 = 2 then tl_now s + int period else INT64_MAX), to_period_ns = int period, to_high_ns = int high\<rparr>)]
     \<and> high = wave_ns (wave_ticks cfg pre * unat (min cb cb2)) (pt_input_hz (tl_dev s)) \<and> high \<le> period"
proof -
  let ?c0 = "pt_chan (tl_dev s) n"
  let ?c = "?c0\<lparr>ch_config := cfg, ch_cb := cb, ch_cb2 := cb2, ch_prescaler := pre, ch_lcb := cb, ch_lcb2 := cb2, ch_lpre := pre,
    ch_start_ns := tl_now s, ch_state := 3\<rparr>"
  have r: "TIMER_CONFIG < TIMER_STRIDE" "TIMER_COUNT_BUFFER < TIMER_STRIDE" "TIMER_COUNT_BUFFER2 < TIMER_STRIDE"
      "TIMER_PRESCALER < TIMER_STRIDE" "TIMER_STATE < TIMER_STRIDE" by (simp_all add: timer_regs)
  have nz: "tl_now s \<noteq> 0" using c(2) by simp
  note st = timer_channel_reg [OF n] and out = timer_channel_output_value [of ?c "pt_input_hz (tl_dev s)"]
  have "\<exists>s' rs. dev_run timer_step s [MWrite (base + TIMER_CONFIG) (ucast cfg), MWrite (base + TIMER_COUNT_BUFFER) (ucast cb),
       MWrite (base + TIMER_COUNT_BUFFER2) (ucast cb2), MWrite (base + TIMER_PRESCALER) (ucast pre), MWrite (base + TIMER_STATE) 3] = Some (s', rs)
     \<and> pt_outputs (tl_dev s') = pt_outputs (tl_dev s) @ [(n, the (timer_channel_output ?c (pt_input_hz (tl_dev s))))]"
    unfolding base dev_run.simps
    by (simp add: st r l h c channel_report_def del: timer_step.simps)
      (simp add: timer_channel_write_def timer_regs ucast_ucast_u32 c(1) nz Let_def)
  then show ?thesis using out c hz period by auto
qed

lemma timer_sample_pins:
  "pt_output_hook (tl_dev (timer_boot 1 timer_sample st))" "pt_chan (tl_dev (timer_boot 1 timer_sample st)) n = zero_channel"
  "pt_input_hz (tl_dev (timer_boot 1 timer_sample st)) = 24000000" "pt_outputs (tl_dev (timer_boot 1 timer_sample st)) = []"
  by (simp_all add: timer_boot_def ipod_touch_timer_reset_def s5l8900_timer_init_def timer_init_full_def timer_del_def
      timer_del_locked_def tl_defs Let_def timer_sample_def pt_zero_def dev_upd_def)

theorem timer_tone_witness:
  "\<exists>s' rs. dev_run timer_step (timer_boot 1 timer_sample 7) [MWrite (0x20 + TIMER_CONFIG) (ucast (0x20 :: u32)),
       MWrite (0x20 + TIMER_COUNT_BUFFER) (ucast (3191 :: u32)), MWrite (0x20 + TIMER_COUNT_BUFFER2) (ucast (6382 :: u32)),
       MWrite (0x20 + TIMER_PRESCALER) (ucast (0 :: u32)), MWrite (0x20 + TIMER_STATE) 3] = Some (s', rs)
     \<and> pt_outputs (tl_dev s') = [(1, \<lparr>to_start_ns = 1000, to_end_ns = 532833, to_period_ns = 531833, to_high_ns = 265916\<rparr>)]"
proof -
  have w: "wave_ticks 0x20 0 = 2" by (simp add: wave_ticks_def wave_divider_def)
  show ?thesis
    using timer_tone [of 1 "timer_boot 1 timer_sample 7" 6382 0 "0x20" 531833 "0x20" 3191]
    by (simp add: timer_sample_boot timer_sample_pins zero_channel_def w wave_ns_def INT64_MAX_def TIMER_NUM_CHANNELS_def TIMER_STRIDE_def)
qed

end
