(* ===== verification/Spec2Isabelle.thy ===== *)
theory Spec2Isabelle
  imports Prelude Guard Watchdog SWI NAND_ECC GPIO SysIC Fifo8 SSI SPI Block NVRAM NOR NOR_Persist NAND_Image FMC FMC_Fifo ADM Host_Utils Host_Signed Host_Clock QTimer Timer Timer_Output
begin

text \<open>
  The storage, serial and timing devices of the Apple chips this emulator adds, with the library
  code they stand on.

  \<^bold>\<open>The program.\<close> The repository is an emulator with machines for early Apple players and phones.
  The guest reaches a device by loads and stores that the memory core routes to the device's read
  and write callbacks; a device answers with register values, interrupt lines, timers on the main
  loop and accesses to host files. The development models, with the names of the code under \<open>src/\<close>:

  \<^item> theory \<open>Prelude\<close>: machine integers as words, C arrays with a declared size, byte order, and the
    contract \<open>guest_device\<close> of every device: from a state that satisfies its invariant, each event
    completes and keeps the invariant, hence so does each sequence of events (\<open>run_total\<close>);
  \<^item> \<open>Guard\<close>, \<open>Watchdog\<close>, \<open>SWI\<close>, \<open>NAND_ECC\<close>, \<open>GPIO\<close>, \<open>SysIC\<close>: the guards on guest values
    (\<open>include/hw/arm/ipod_touch_guard.h\<close>) and the register devices \<open>hw/arm/ipod_touch_wdt.c\<close>,
    \<open>ipod_touch_swi.c\<close>, \<open>s5l8900_nand_ecc.c\<close>, \<open>ipod_touch_gpio.c\<close> and \<open>ipod_touch_sysic.c\<close>, the last with
    the two places outside it that raise its lines (the buttons of \<open>ipod_touch_2g.c\<close>, \<open>ipod_touch_i2s.c\<close>);
  \<^item> \<open>Fifo8\<close>, \<open>SSI\<close>, \<open>SPI\<close>: the byte FIFO (\<open>util/fifo8.c\<close>) against the contract \<open>bounded_fifo\<close> of a
    bounded queue, the serial bus (\<open>hw/ssi/ssi.c\<close>) with the contract \<open>ssi_slave\<close> of what hangs on it,
    and the controller (\<open>hw/arm/ipod_touch_spi.c\<close>), whose transfer loops are proved equal to an
    exchange on the bus;
  \<^item> \<open>Block\<close>: the calls of \<open>block/block-backend.c\<close> that the stores make, over a driver that is an
    argument; \<open>block_driver\<close> and \<open>reliable_driver\<close> state what a driver promises, and a raw file meets them;
  \<^item> \<open>NVRAM\<close>, \<open>NOR\<close>, \<open>NOR_Persist\<close>: the serial flash (\<open>hw/arm/ipod_touch_nor_spi.c\<close>), the boot
    argument patch of its banks, opening its writable copy, and that the copy holds what was programmed;
  \<^item> \<open>NAND_Image\<close>, \<open>FMC\<close>, \<open>FMC_Fifo\<close>, \<open>ADM\<close>: the image store (\<open>hw/arm/nand-image.c\<close>) against an
    abstract flash, the NAND controller (\<open>hw/arm/s5l8900_fmc.c\<close>) over that store or over page files,
    its FIFO, and the upload engine (\<open>hw/arm/s5l8900_adm.c\<close>) that takes command blocks out of guest memory;
  \<^item> \<open>Host_Utils\<close>, \<open>Host_Signed\<close>, \<open>Host_Clock\<close>: the wide arithmetic (\<open>util/host-utils.c\<close>,
    \<open>include/qemu/host-utils.h\<close>) against the integers, and the tick conversions (\<open>include/hw/core/clock.h\<close>);
  \<^item> \<open>QTimer\<close>, \<open>Timer\<close>, \<open>Timer_Output\<close>: the timer list (\<open>util/qemu-timer.c\<close>) against a table of
    deadlines, with the contract \<open>timer_client\<close> of the callbacks, and the system timer
    (\<open>hw/arm/ipod_touch_timer.c\<close>) under the main loop.

  \<^bold>\<open>How state and operations correspond.\<close> A device struct is a record with a field per member, an
  operation a function from state to state with the name of the C function; parts of a long C
  function that are definitions of their own are named after it. A register switch is a chain of
  conditions in the order of the cases. An interrupt line is the level last driven. \<open>None\<close> is a path
  on which the C program aborts or is undefined (array bounds, assertions, division by zero), and
  for a loop that does not end; a guest error that the code handles is a value. Signed overflow
  wraps, as the build asks for. Host outcomes (whether a file opens, how much of a write fits, the
  clock) and third-party functions (\<open>adler32\<close>, a block driver, a JSON reader) are arguments or
  fields of a host record.

  \<^bold>\<open>What is shown.\<close> For each guest-facing device that no access sequence brings the host down, with
  the invariant it keeps; the functional behaviour of the stores (program, erase, read back,
  persistence, two back ends that agree); refinement of abstract flash, queue and deadline tables;
  that the portable arithmetic is exact; that the main loop terminates and a started timer ticks.
  Two properties state errors of the code: a read of the SPI data register aborts exactly when
  less than a word is queued, and an overrun of the NAND page list reads outside it. Two state
  where the code falls short of the plain contract: a button raises its interrupt line past the
  mask, and the boot argument patch of the serial flash does not reach the writable copy.

  \<^bold>\<open>Bounds and fuel.\<close> Loops over arrays are recursion over the list of their indices; the SPI transfer
  loops, the checksum carry and the address walks terminate by a measure. The one loop that may
  not end, the run over expired timers, is a partial function, and that it returns is proved from
  the contract of the callbacks. No fuel is used. The virtual clock is assumed to stay below its
  last 63-bit value, timer 4's rate to be the default or at least 1 MHz, as the boards set it, and the dilation to be
  from 1 to its limit, which the boards check.

  \<^bold>\<open>Not modelled.\<close> Object construction, properties and snapshots beyond the checks on loading; logging and
  tracing; locks and threads (each callback runs under the main lock); the CPU emulation and the
  upstream devices; the display, audio, radio, USB and touch devices, which are host I/O or
  firmware protocols around the buses modelled here; and the crypto engines, which call a library.
\<close>

section \<open>The flash behind its controller\<close>

text \<open>
  C11. The SPI controller and the flash chip together: from reset, any sequence of guest accesses
  to the controller with 8-bit words, with any number of flash chips on its bus, completes,
  answers every access and leaves the interrupt line where the status and mask registers
  say, and every chip with its indices inside its array.
\<close>

theorem spi_nor_guest_safe:
  assumes "spi_fifos_ok s" "list_all (\<lambda>p. ssi_spc p = nor_class h \<and> nor_inv (ssi_dev p)) (spi_bus s)"
    and "list_all spi_byte_words es"
  shows "\<exists>s' rs. dev_run spi_step (ipod_touch_spi_reset s) es = Some (s', rs) \<and> length rs = length es
     \<and> spi_line_ok s' \<and> list_all (\<lambda>p. nor_inv (ssi_dev p)) (spi_bus s')"
proof -
  have "nor.spi_ok h s"
    using assms(1,2) by (simp add: nor.spi_ok_def nor.kid_ok_def list_all_iff)
  from nor.spi_dev.run_total [OF nor.reset_inv [OF this] assms(3)] show ?thesis
    by (auto simp: nor.spi_inv_def nor.spi_ok_def nor.kid_ok_def list_all_iff)
qed

theorem spi_nor_guest_safe_witness:
  "\<exists>s' rs. dev_run spi_step (ipod_touch_spi_reset (ipod_touch_spi_realize (\<lambda>_. 0) (\<lambda>_. 0)
        [\<lparr>ssi_spc = nor_class nor_sample_host, ssi_cs = True, ssi_dev = nor_sample\<rparr>] False 50000))
      [MWrite R_TXDATA 0x9f, MWrite R_TXCNT 1, MWrite R_RXCNT 4, MWrite R_CTRL 1, MRead R_RXDATA] = Some (s', rs)
     \<and> length rs = 5 \<and> spi_line_ok s'"
proof -
  let ?s = "ipod_touch_spi_realize (\<lambda>_. 0) (\<lambda>_. 0)
    [\<lparr>ssi_spc = nor_class nor_sample_host, ssi_cs = True, ssi_dev = nor_sample\<rparr>] False 50000"
  have 1: "spi_fifos_ok ?s" by (simp add: spi_fifos_ok_def ipod_touch_spi_realize_def fifo8_create_inv R_FIFO_RX_DEPTH_def)
  have 2: "list_all (\<lambda>p. ssi_spc p = nor_class nor_sample_host \<and> nor_inv (ssi_dev p)) (spi_bus ?s)"
    by (simp add: ipod_touch_spi_realize_def nor_inv_def nor_sample_def NOR_FLASH_SIZE_def)
  have 3: "list_all spi_byte_words
      [MWrite R_TXDATA 0x9f, MWrite R_TXCNT 1, MWrite R_RXCNT 4, MWrite R_CTRL 1, MRead R_RXDATA]"
    by (simp add: spi_offsets SPI_MMIO_SIZE_def)
  show ?thesis using spi_nor_guest_safe [OF 1 2 3] by auto
qed

text \<open>
  C32. The receive register faults in exactly one case: with any number of flash chips on the bus
  and the FIFOs well formed, a read of it stops the host (the FIFO's assertion fails) if and only
  if bytes are queued but fewer than one word of the configured width.
\<close>

theorem spi_rxdata_faults_iff:
  assumes "spi_fifos_ok s" "list_all (\<lambda>p. ssi_spc p = nor_class h \<and> nor_inv (ssi_dev p)) (spi_bus s)"
  shows "ipod_touch_spi_read s R_RXDATA = None \<longleftrightarrow>
     \<not> fifo8_is_empty (spi_rx_fifo s) \<and> fifo8_num_used (spi_rx_fifo s) < apple_spi_word_size s"
proof -
  have "nor.spi_ok h s"
    using assms by (simp add: nor.spi_ok_def nor.kid_ok_def list_all_iff)
  then show ?thesis by (rule nor.rxdata_read_iff)
qed

text \<open>Guest accesses alone lead there: 32-bit words, one byte received.\<close>

theorem spi_rxdata_faults_iff_witness:
  "\<exists>s rs. dev_run spi_step
       (ipod_touch_spi_reset (ipod_touch_spi_realize (\<lambda>_. 0) (\<lambda>_. 0) ([] :: raw_file nor ssi_peripheral list) False 50000))
       [MWrite R_CFG 0x10001, MWrite R_RXCNT 1, MWrite R_CTRL 1] = Some (s, rs)
     \<and> ipod_touch_spi_read s R_RXDATA = None"
proof -
  let ?run = "dev_run spi_step
       (ipod_touch_spi_reset (ipod_touch_spi_realize (\<lambda>_. 0) (\<lambda>_. 0) ([] :: raw_file nor ssi_peripheral list) False 50000))
       [MWrite R_CFG 0x10001, MWrite R_RXCNT 1, MWrite R_CTRL 1]"
  have "case ?run of None \<Rightarrow> False
     | Some (s, rs) \<Rightarrow> list_all (\<lambda>f. f8_capacity f \<le> 0x80000000 \<and> f8_head f < f8_capacity f
           \<and> f8_num f \<le> f8_capacity f) [spi_rx_fifo s, spi_tx_fifo s] \<and> spi_bus s = []
         \<and> \<not> fifo8_is_empty (spi_rx_fifo s) \<and> fifo8_num_used (spi_rx_fifo s) < apple_spi_word_size s"
    by code_simp
  then obtain s rs where s: "?run = Some (s, rs)" "spi_fifos_ok s" "spi_bus s = []"
      "\<not> fifo8_is_empty (spi_rx_fifo s)" "fifo8_num_used (spi_rx_fifo s) < apple_spi_word_size s"
    by (auto simp: spi_fifos_ok_def fifo8_inv_def word_le_nat_alt word_less_nat_alt split: option.splits)
  with spi_rxdata_faults_iff [of s nor_sample_host] show ?thesis by auto
qed

end
